(* ===== verification/Prelude.thy ===== *)
theory Prelude
  imports Main "HOL-Library.Word" "HOL-Library.AList"
begin

text \<open>
  Shared vocabulary of the ToyMQ development: Go's fixed-width integers as words, byte strings
  and text strings, the little-endian accessors of \<^verbatim>\<open>encoding/binary\<close>, a byte stream with
  \<^verbatim>\<open>io.ReadFull\<close>, Go maps as association lists with distinct keys, and the generic lemmas the
  component theories use.  The collection \<open>codec\<close> holds the length and round-trip facts of the
  binary accessors; \<open>stream_simps\<close> unfolds reads from a stream.
\<close>

unbundle bit_operations_syntax

named_theorems codec
named_theorems stream_simps

section \<open>Types\<close>

type_synonym u8 = "8 word"
type_synonym u16 = "16 word"
type_synonym u32 = "32 word"
type_synonym u64 = "64 word"
type_synonym bytes = "u8 list"

text \<open>Go strings are byte sequences; \<open>char\<close> has 256 values, so both directions are total.\<close>

definition bytes_of_string :: "string \<Rightarrow> bytes" where
  "bytes_of_string s = map (\<lambda>c. of_nat (of_char c)) s"

definition string_of_bytes :: "bytes \<Rightarrow> string" where
  "string_of_bytes bs = map (\<lambda>b. char_of (unat b)) bs"

lemma length_bytes_of_string [simp]: "length (bytes_of_string s) = length s"
  by (simp add: bytes_of_string_def)

lemma length_string_of_bytes [simp]: "length (string_of_bytes bs) = length bs"
  by (simp add: string_of_bytes_def)

lemma unat_u8_less: "unat (b :: u8) < 256"
  using unsigned_less [of b, where ?'a = nat] by simp

lemma unat_of_char: "unat (of_nat (of_char c) :: u8) = of_char c"
  by (simp add: unat_of_nat)

lemma string_of_bytes_of_string [simp]: "string_of_bytes (bytes_of_string s) = s"
  by (simp add: string_of_bytes_def bytes_of_string_def unat_of_char o_def)

lemma of_char_char_of_unat: "of_nat (of_char (char_of (unat (b :: u8)) :: char)) = b"
  by (simp add: unat_u8_less)

lemma bytes_of_string_of_bytes [simp]: "bytes_of_string (string_of_bytes bs) = bs"
  by (simp add: string_of_bytes_def bytes_of_string_def map_idI unat_u8_less)

lemma bytes_of_string_inject [simp]: "bytes_of_string s = bytes_of_string t \<longleftrightarrow> s = t"
  by (metis string_of_bytes_of_string)

lemma bytes_of_string_append [simp]:
  "bytes_of_string (s @ t) = bytes_of_string s @ bytes_of_string t"
  by (simp add: bytes_of_string_def)

lemma bytes_of_string_Nil [simp]: "bytes_of_string [] = []"
  by (simp add: bytes_of_string_def)

lemma string_of_bytes_Nil [simp]: "string_of_bytes [] = []"
  by (simp add: string_of_bytes_def)

section \<open>Little-endian accessors of encoding/binary\<close>

fun put_le :: "nat \<Rightarrow> nat \<Rightarrow> bytes" where
  "put_le 0 v = []"
| "put_le (Suc n) v = of_nat (v mod 256) # put_le n (v div 256)"

fun get_le :: "bytes \<Rightarrow> nat" where
  "get_le [] = 0"
| "get_le (b # bs) = unat b + 256 * get_le bs"

definition PutUint16 :: "u16 \<Rightarrow> bytes" where
  "PutUint16 w = put_le 2 (unat w)"

definition PutUint32 :: "u32 \<Rightarrow> bytes" where
  "PutUint32 w = put_le 4 (unat w)"

definition PutUint64 :: "u64 \<Rightarrow> bytes" where
  "PutUint64 w = put_le 8 (unat w)"

text \<open>The readers look at the first bytes of the slice they are given.\<close>

definition Uint16 :: "bytes \<Rightarrow> u16" where
  "Uint16 bs = of_nat (get_le (take 2 bs))"

definition Uint32 :: "bytes \<Rightarrow> u32" where
  "Uint32 bs = of_nat (get_le (take 4 bs))"

definition Uint64 :: "bytes \<Rightarrow> u64" where
  "Uint64 bs = of_nat (get_le (take 8 bs))"

lemma length_put_le [simp]: "length (put_le n v) = n"
  by (induction n arbitrary: v) simp_all

lemma get_put_le: "get_le (put_le n v) = v mod 256 ^ n"
proof (induction n arbitrary: v)
  case 0
  then show ?case by simp
next
  case (Suc n)
  have "unat (of_nat (v mod 256) :: u8) = v mod 256"
    by (simp add: unat_of_nat)
  with Suc show ?case
    by (simp add: mod_mult2_eq)
qed

lemma put_get_le: "put_le (length bs) (get_le bs) = bs"
proof (induction bs)
  case Nil
  then show ?case by simp
next
  case (Cons b bs)
  then show ?case using unat_u8_less [of b] by (simp add: mod_less)
qed

lemma get_le_bound: "get_le bs < 256 ^ length bs"
proof (induction bs)
  case Nil
  then show ?case by simp
next
  case (Cons b bs)
  then show ?case using unat_u8_less [of b] by (simp add: mod_less)
qed

lemma length_Put [simp, codec]:
  "length (PutUint16 x) = 2" "length (PutUint32 y) = 4" "length (PutUint64 z) = 8"
  by (simp_all add: PutUint16_def PutUint32_def PutUint64_def)

lemma Put_not_Nil [simp]: "PutUint16 x \<noteq> []" "PutUint32 y \<noteq> []" "PutUint64 z \<noteq> []"
  by (metis length_Put list.size(3) zero_neq_numeral)+

lemma Uint16_Put [simp, codec]: "Uint16 (PutUint16 w @ rest) = w"
proof -
  have "unat w < 65536" using unsigned_less [of w, where ?'a = nat] by simp
  then show ?thesis by (simp add: Uint16_def PutUint16_def get_put_le)
qed

lemma Uint32_Put [simp, codec]: "Uint32 (PutUint32 w @ rest) = w"
proof -
  have "unat w < 4294967296" using unsigned_less [of w, where ?'a = nat] by simp
  then show ?thesis by (simp add: Uint32_def PutUint32_def get_put_le)
qed

lemma Uint64_Put [simp, codec]: "Uint64 (PutUint64 w @ rest) = w"
proof -
  have "unat w < 18446744073709551616" using unsigned_less [of w, where ?'a = nat] by simp
  then show ?thesis by (simp add: Uint64_def PutUint64_def get_put_le)
qed

lemmas Uint_Put_Nil [simp, codec] =
  Uint16_Put [where rest = "[]", simplified]
  Uint32_Put [where rest = "[]", simplified]
  Uint64_Put [where rest = "[]", simplified]

lemma PutUint32_Uint32: "length bs = 4 \<Longrightarrow> PutUint32 (Uint32 bs) = bs"
  using get_le_bound [of bs] put_get_le [of bs]
  by (simp add: PutUint32_def Uint32_def unat_of_nat)

lemma PutUint64_Uint64: "length bs = 8 \<Longrightarrow> PutUint64 (Uint64 bs) = bs"
  using get_le_bound [of bs] put_get_le [of bs]
  by (simp add: PutUint64_def Uint64_def unat_of_nat)

section \<open>Byte streams\<close>

text \<open>
  A reader over a file or a connection: the bytes still to come, and what the source reports once
  they are exhausted (end of file, or a read error with its text).
\<close>

datatype stream_end = At_EOF | At_Err string

record stream =
  sbuf :: bytes
  send :: stream_end

datatype io_err = IO_EOF | IO_UnexpectedEOF | IO_Err string

text \<open>
  \<^verbatim>\<open>io.ReadFull\<close>: all \<open>n\<close> bytes, or an error that tells a clean end (nothing read) from a
  short read.  A zero-length read succeeds without touching the source.
\<close>

definition ReadFull :: "nat \<Rightarrow> stream \<Rightarrow> (io_err + bytes) \<times> stream" where
  "ReadFull n s =
     (if n \<le> length (sbuf s) then (Inr (take n (sbuf s)), s\<lparr>sbuf := drop n (sbuf s)\<rparr>)
      else (Inl (case send s of
                   At_Err e \<Rightarrow> IO_Err e
                 | At_EOF \<Rightarrow> (if sbuf s = [] then IO_EOF else IO_UnexpectedEOF)),
            s\<lparr>sbuf := []\<rparr>))"

lemma ReadFull_append [stream_simps]:
  "n = length bs \<Longrightarrow>
   ReadFull n \<lparr>sbuf = bs @ rest, send = e\<rparr> = (Inr bs, \<lparr>sbuf = rest, send = e\<rparr>)"
  by (simp add: ReadFull_def)

lemma ReadFull_Inr:
  "ReadFull n s = (Inr bs, s') \<longleftrightarrow>
   n \<le> length (sbuf s) \<and> bs = take n (sbuf s) \<and> s' = s\<lparr>sbuf := drop n (sbuf s)\<rparr>"
  by (auto simp: ReadFull_def)

section \<open>Go maps\<close>

text \<open>
  A Go map is an association list with distinct keys.  \<^verbatim>\<open>range\<close> visits its entries in an
  unspecified order; the list order stands for one such order, and the theorems hold for all.
\<close>

abbreviation map_inv :: "('k \<times> 'v) list \<Rightarrow> bool" where
  "map_inv m \<equiv> distinct (map fst m)"

lemma map_inv_update [simp]: "map_inv m \<Longrightarrow> map_inv (AList.update k v m)"
  by (rule distinct_update)

lemma map_inv_delete [simp]: "map_inv m \<Longrightarrow> map_inv (AList.delete k m)"
  by (rule distinct_delete)

lemma map_of_update [simp]: "map_of (AList.update k v m) = (map_of m)(k \<mapsto> v)"
  by (rule update_conv')

lemma map_of_delete [simp]: "map_of (AList.delete k m) = (map_of m)(k := None)"
  by (rule delete_conv')

lemma length_delete_present:
  "map_inv m \<Longrightarrow> map_of m k = Some v \<Longrightarrow> length m = Suc (length (AList.delete k m))"
proof (induction m)
  case Nil
  then show ?case by simp
next
  case (Cons p m)
  obtain a b where p: "p = (a, b)" by force
  show ?case
  proof (cases "a = k")
    case True
    with Cons.prems p have "k \<notin> fst ` set m" by auto
    then have "AList.delete k m = m" by (induction m) (auto simp: AList.delete_eq)
    with True p show ?thesis by (simp add: AList.delete_eq)
  next
    case False
    with Cons p show ?thesis by (simp add: AList.delete_eq)
  qed
qed

lemma length_delete_le: "length (AList.delete k m) \<le> length m"
  by (simp add: AList.delete_eq)

lemma length_update_le: "length (AList.update k v m) \<le> Suc (length m)"
  by (induction m) auto

lemma length_update_present:
  "map_of m k \<noteq> None \<Longrightarrow> length (AList.update k v m) = length m"
  by (induction m) auto

section \<open>Decimal text (strconv)\<close>

definition digit_char :: "nat \<Rightarrow> char" where
  "digit_char d = char_of (48 + d)"

definition is_digit :: "char \<Rightarrow> bool" where
  "is_digit c \<longleftrightarrow> 48 \<le> (of_char c :: nat) \<and> (of_char c :: nat) \<le> 57"

text \<open>\<^verbatim>\<open>FormatUint(n, 10)\<close> and \<^verbatim>\<open>Itoa\<close> of a non-negative value.\<close>

fun dec :: "nat \<Rightarrow> string" where
  "dec n = (if n < 10 then [digit_char n] else dec (n div 10) @ [digit_char (n mod 10)])"

declare dec.simps [simp del]

text \<open>The value of a run of digits, \<open>None\<close> on any other character.\<close>

fun dec_value :: "nat \<Rightarrow> string \<Rightarrow> nat option" where
  "dec_value acc [] = Some acc"
| "dec_value acc (c # cs) =
     (if is_digit c then dec_value (10 * acc + (of_char c - 48)) cs else None)"

text \<open>\<^verbatim>\<open>ParseUint(s, 10, 64)\<close>: no sign, at least one digit, in range.\<close>

definition ParseUint :: "string \<Rightarrow> u64 option" where
  "ParseUint s =
     (if s = [] then None
      else case dec_value 0 s of
             None \<Rightarrow> None
           | Some n \<Rightarrow> (if n < 2 ^ 64 then Some (of_nat n) else None))"

text \<open>\<^verbatim>\<open>Atoi\<close>: an optional sign, then at least one digit, within the range of \<^verbatim>\<open>int\<close>.\<close>

definition Atoi :: "string \<Rightarrow> int option" where
  "Atoi s =
     (let (neg, t) = (case s of
                        [] \<Rightarrow> (False, [])
                      | c # cs \<Rightarrow> (if c = CHR ''-'' then (True, cs)
                                   else if c = CHR ''+'' then (False, cs) else (False, s)))
      in if t = [] then None
         else case dec_value 0 t of
                None \<Rightarrow> None
              | Some n \<Rightarrow>
                  (if neg then (if n \<le> 2 ^ 63 then Some (- int n) else None)
                   else (if n < 2 ^ 63 then Some (int n) else None)))"

lemma digit_char_value: "d < 10 \<Longrightarrow> of_char (digit_char d) = 48 + (d :: nat)"
  by (simp add: digit_char_def)

lemma is_digit_digit_char: "d < 10 \<Longrightarrow> is_digit (digit_char d)"
  by (simp add: is_digit_def digit_char_value)

lemma dec_not_Nil [simp]: "dec n \<noteq> []"
  by (subst dec.simps) simp

lemma dec_digits: "c \<in> set (dec n) \<Longrightarrow> is_digit c"
proof (induction n rule: dec.induct)
  case (1 n)
  then show ?case
    by (cases "n < 10") (auto simp: dec.simps [of n] is_digit_digit_char)
qed

lemma dec_value_append:
  "dec_value acc (s @ [c]) =
     (case dec_value acc s of None \<Rightarrow> None
      | Some v \<Rightarrow> if is_digit c then Some (10 * v + (of_char c - 48)) else None)"
  by (induction s arbitrary: acc) auto

lemma dec_value_dec: "dec_value 0 (dec n) = Some n"
proof (induction n rule: dec.induct)
  case (1 n)
  show ?case
  proof (cases "n < 10")
    case True
    then show ?thesis by (simp add: dec.simps [of n] is_digit_digit_char digit_char_value)
  next
    case False
    with 1 have "dec_value 0 (dec (n div 10)) = Some (n div 10)" by simp
    with False show ?thesis
      by (simp add: dec.simps [of n] dec_value_append is_digit_digit_char digit_char_value)
  qed
qed

lemma dec_inject [simp]: "dec m = dec n \<longleftrightarrow> m = n"
  by (metis dec_value_dec option.inject)

lemma ParseUint_dec: "n < 2 ^ 64 \<Longrightarrow> ParseUint (dec n) = Some (of_nat n)"
  by (simp add: ParseUint_def dec_value_dec)

lemma ParseUint_dec_unat [simp]: "ParseUint (dec (unat (w :: u64))) = Some w"
  using unsigned_less [of w, where ?'a = nat] by (simp add: ParseUint_dec)

lemma Atoi_dec: "n < 2 ^ 63 \<Longrightarrow> Atoi (dec n) = Some (int n)"
proof -
  assume n: "n < 2 ^ 63"
  obtain c cs where d: "dec n = c # cs" by (cases "dec n") auto
  then have "is_digit c" using dec_digits [of c n] by simp
  then have "c \<noteq> CHR ''-''" "c \<noteq> CHR ''+''" by (auto simp: is_digit_def)
  with n show ?thesis using dec_value_dec [of n] by (simp add: Atoi_def d)
qed

section \<open>Words as naturals\<close>

lemma unat_add_no_wrap:
  fixes a b :: u64
  shows "unat a + unat b < 2 ^ 64 \<Longrightarrow> unat (a + b) = unat a + unat b"
  by (simp add: unat_word_ariths)

lemma unat_Suc_no_wrap:
  fixes a :: u64
  shows "Suc (unat a) < 2 ^ 64 \<Longrightarrow> unat (a + 1) = Suc (unat a)"
  by (simp add: unat_word_ariths)

lemma unat_add_of_nat:
  fixes a :: u64
  shows "unat a + n < 2 ^ 64 \<Longrightarrow> unat (a + of_nat n) = unat a + n"
  by (simp add: unat_word_ariths unat_of_nat)

lemma unat_diff_no_wrap:
  fixes a b :: u64
  shows "b \<le> a \<Longrightarrow> unat (a - b) = unat a - unat b"
  by (rule unat_sub)

lemma u64_less_iff: "(a :: u64) < b \<longleftrightarrow> unat a < unat b"
  by (rule word_less_nat_alt)

lemma u64_le_iff: "(a :: u64) \<le> b \<longleftrightarrow> unat a \<le> unat b"
  by (rule word_le_nat_alt)

lemma u64_eq_iff: "(a :: u64) = b \<longleftrightarrow> unat a = unat b"
  by (rule word_unat_eq_iff)

lemma unat_of_nat_u64: "n < 2 ^ 64 \<Longrightarrow> unat (of_nat n :: u64) = n"
  by (simp add: unat_of_nat)

lemma unat_of_nat_u32: "n < 2 ^ 32 \<Longrightarrow> unat (of_nat n :: u32) = n"
  by (simp add: unat_of_nat)

lemma unat_of_nat_u16: "n < 2 ^ 16 \<Longrightarrow> unat (of_nat n :: u16) = n"
  by (simp add: unat_of_nat)

lemma xor_cancel_right: "(a :: 'a::len word) XOR x = b XOR x \<longleftrightarrow> a = b"
  by (metis xor.assoc xor.right_neutral xor_self_eq)

lemma xor_cancel_left: "x XOR (a :: 'a::len word) = x XOR b \<longleftrightarrow> a = b"
  by (metis xor.assoc xor.left_neutral xor_self_eq)

lemmas u64_nat = u64_less_iff u64_le_iff u64_eq_iff

lemma u64_below_max: "w \<noteq> - 1 \<Longrightarrow> Suc (unat (w :: u64)) < 2 ^ 64"
proof -
  assume "w \<noteq> - 1"
  moreover have "unat (- 1 :: u64) = 2 ^ 64 - 1" by (simp add: unsigned_minus_1_eq_mask mask_eq_exp_minus_1)
  ultimately have "unat w \<noteq> 2 ^ 64 - 1" by (metis word_unat_eq_iff)
  with unsigned_less [of w, where ?'a = nat] show ?thesis by simp
qed

end
