(* ===== verification/Wal_Record.thy ===== *)
theory Wal_Record
  imports Prelude
begin

text \<open>
  The framed record codec of the write-ahead log (\<^verbatim>\<open>internal/wal/record.go\<close>): a length
  prefix, the fields in little-endian order, two optional trailing fields, and an IEEE CRC-32 over
  the fields.  \<^verbatim>\<open>hash/crc32\<close> is the standard library's; it is written out here bit by bit.
  The lemmas give the round trip, the classification of torn frames, and the detection of any
  corruption confined to one byte.
\<close>

section \<open>CRC-32 (hash/crc32, IEEE polynomial, reflected)\<close>

definition crc_poly :: u32 where
  "crc_poly = 0xEDB88320"

definition crc_bit :: "u32 \<Rightarrow> u32" where
  "crc_bit c = (if bit c 0 then drop_bit 1 c XOR crc_poly else drop_bit 1 c)"

definition crc_byte :: "u32 \<Rightarrow> u8 \<Rightarrow> u32" where
  "crc_byte c b = (crc_bit ^^ 8) (c XOR ucast b)"

definition crc_update :: "u32 \<Rightarrow> bytes \<Rightarrow> u32" where
  "crc_update c bs = fold (\<lambda>b c. crc_byte c b) bs c"

definition ChecksumIEEE :: "bytes \<Rightarrow> u32" where
  "ChecksumIEEE bs = NOT (crc_update (NOT 0) bs)"

section \<open>The record and its frame\<close>

definition MaxRecordSize :: nat where
  "MaxRecordSize = 4 * 2 ^ 20"

datatype wal_err = ErrShortRead | ErrBadCRC | ErrTooLarge | ErrEOF | ErrIO string

record wal_record =
  rec_MsgID :: u64
  rec_TsNs :: u64
  rec_DedupeKey :: string
  rec_Payload :: bytes
  rec_VisibleAtNs :: u64
  rec_RaftIndex :: u64

text \<open>The bytes \<^verbatim>\<open>Encode\<close> collects in \<^verbatim>\<open>inner\<close>.\<close>

definition encode_inner :: "wal_record \<Rightarrow> bytes" where
  "encode_inner r =
     PutUint64 (rec_MsgID r) @
     PutUint64 (rec_TsNs r) @
     PutUint16 (of_nat (length (rec_DedupeKey r))) @
     bytes_of_string (rec_DedupeKey r) @
     PutUint32 (of_nat (length (rec_Payload r))) @
     rec_Payload r @
     PutUint64 (rec_VisibleAtNs r) @
     (if rec_RaftIndex r \<noteq> 0 then PutUint64 (rec_RaftIndex r) else [])"

definition Encode :: "wal_record \<Rightarrow> bytes \<Rightarrow> wal_err + bytes" where
  "Encode r dst =
     (if length (rec_DedupeKey r) > 65535 then Inl ErrTooLarge
      else let inner = encode_inner r in
        if length inner + 4 > MaxRecordSize then Inl ErrTooLarge
        else Inr (dst @ PutUint32 (of_nat (length inner + 4)) @ inner @
                  PutUint32 (ChecksumIEEE inner)))"

text \<open>The field-by-field half of \<^verbatim>\<open>Decode\<close>, after the checksum has matched.\<close>

definition decode_inner :: "bytes \<Rightarrow> wal_err + wal_record" where
  "decode_inner inner =
     (if length inner < 8 + 8 + 2 + 4 then Inl ErrShortRead
      else let msgID = Uint64 inner;
               tsNs = Uint64 (drop 8 inner);
               keyLen = unat (Uint16 (drop 16 inner));
               off = 18
        in if off + keyLen > length inner then Inl ErrShortRead
        else let key = string_of_bytes (take keyLen (drop off inner));
                 off = off + keyLen
          in if off + 4 > length inner then Inl ErrShortRead
          else let payloadLen = unat (Uint32 (drop off inner));
                   off = off + 4
            in if off + payloadLen > length inner then Inl ErrShortRead
            else let payload = take payloadLen (drop off inner);
                     off = off + payloadLen;
                     trailing = length inner - off
              in if trailing = 0 then
                   Inr \<lparr>rec_MsgID = msgID, rec_TsNs = tsNs, rec_DedupeKey = key,
                        rec_Payload = payload, rec_VisibleAtNs = 0, rec_RaftIndex = 0\<rparr>
                 else if trailing = 8 then
                   Inr \<lparr>rec_MsgID = msgID, rec_TsNs = tsNs, rec_DedupeKey = key,
                        rec_Payload = payload, rec_VisibleAtNs = Uint64 (drop off inner),
                        rec_RaftIndex = 0\<rparr>
                 else if trailing = 16 then
                   Inr \<lparr>rec_MsgID = msgID, rec_TsNs = tsNs, rec_DedupeKey = key,
                        rec_Payload = payload, rec_VisibleAtNs = Uint64 (drop off inner),
                        rec_RaftIndex = Uint64 (drop (off + 8) inner)\<rparr>
                 else Inl ErrShortRead)"

definition Decode :: "stream \<Rightarrow> (wal_err + (wal_record \<times> nat)) \<times> stream" where
  "Decode s =
     (case ReadFull 4 s of
        (Inl IO_EOF, s1) \<Rightarrow> (Inl ErrEOF, s1)
      | (Inl IO_UnexpectedEOF, s1) \<Rightarrow> (Inl ErrShortRead, s1)
      | (Inl (IO_Err e), s1) \<Rightarrow> (Inl (ErrIO e), s1)
      | (Inr lenBuf, s1) \<Rightarrow>
          let len = unat (Uint32 lenBuf) in
          if len > MaxRecordSize then (Inl ErrTooLarge, s1)
          else if len < 4 then (Inl ErrShortRead, s1)
          else (case ReadFull len s1 of
                  (Inl _, s2) \<Rightarrow> (Inl ErrShortRead, s2)
                | (Inr body, s2) \<Rightarrow>
                    let inner = take (length body - 4) body;
                        gotCRC = Uint32 (drop (length body - 4) body);
                        wantCRC = ChecksumIEEE inner
                    in if gotCRC \<noteq> wantCRC then (Inl ErrBadCRC, s2)
                       else (case decode_inner inner of
                               Inl e \<Rightarrow> (Inl e, s2)
                             | Inr r \<Rightarrow> (Inr (r, 4 + len), s2))))"

text \<open>A record that \<^verbatim>\<open>Encode\<close> accepts, and its frame.\<close>

definition encodable :: "wal_record \<Rightarrow> bool" where
  "encodable r \<longleftrightarrow>
     length (rec_DedupeKey r) \<le> 65535 \<and> length (encode_inner r) + 4 \<le> MaxRecordSize"

definition frame :: "wal_record \<Rightarrow> bytes" where
  "frame r = PutUint32 (of_nat (length (encode_inner r) + 4)) @ encode_inner r @
             PutUint32 (ChecksumIEEE (encode_inner r))"

section \<open>Codec lemmas\<close>

lemma Encode_frame: "encodable r \<Longrightarrow> Encode r dst = Inr (dst @ frame r)"
  by (simp add: Encode_def encodable_def frame_def Let_def)

lemma Encode_too_large: "\<not> encodable r \<Longrightarrow> Encode r dst = Inl ErrTooLarge"
  by (auto simp: Encode_def encodable_def Let_def not_le)

lemma Encode_Inr_iff: "Encode r dst = Inr bs \<longleftrightarrow> encodable r \<and> bs = dst @ frame r"
  by (metis Encode_frame Encode_too_large Inr_inject sum.distinct(1))

lemma length_encode_inner:
  "length (encode_inner r) =
     30 + length (rec_DedupeKey r) + length (rec_Payload r)
     + (if rec_RaftIndex r = 0 then 0 else 8)"
  by (simp add: encode_inner_def)

lemma length_frame: "length (frame r) = 8 + length (encode_inner r)"
  by (simp add: frame_def)

lemma frame_not_Nil [simp]: "frame r \<noteq> []"
  by (simp add: frame_def)

lemma encodable_lengths:
  assumes "encodable r"
  shows "unat (of_nat (length (rec_DedupeKey r)) :: u16) = length (rec_DedupeKey r)"
    and "unat (of_nat (length (rec_Payload r)) :: u32) = length (rec_Payload r)"
    and "unat (of_nat (length (encode_inner r) + 4) :: u32) = length (encode_inner r) + 4"
  by (rule unat_of_nat_u16 unat_of_nat_u32,
      use assms in \<open>simp add: encodable_def MaxRecordSize_def length_encode_inner split: if_splits\<close>)+

lemma encodable_frame_bound: "encodable r \<Longrightarrow> length (frame r) \<le> MaxRecordSize + 4"
  by (simp add: encodable_def length_frame)

text \<open>Splitting a long concatenation at a known offset.\<close>

lemma drop_append_len: "n = length xs + m \<Longrightarrow> drop n (xs @ ys) = drop m ys"
  by simp

lemma decode_encode_inner: "encodable r \<Longrightarrow> decode_inner (encode_inner r) = Inr r"
proof -
  assume e: "encodable r"
  note len = encodable_lengths [OF e]
  define key pay where "key = bytes_of_string (rec_DedupeKey r)" and "pay = rec_Payload r"
  have lk: "length key = length (rec_DedupeKey r)" and lp: "length pay = length (rec_Payload r)"
    by (simp_all add: key_def pay_def)
  define tl where "tl = PutUint64 (rec_VisibleAtNs r) @
     (if rec_RaftIndex r \<noteq> 0 then PutUint64 (rec_RaftIndex r) else [])"
  define inner where "inner = encode_inner r"
  have inner: "inner = PutUint64 (rec_MsgID r) @ PutUint64 (rec_TsNs r) @
      PutUint16 (of_nat (length key)) @ key @ PutUint32 (of_nat (length pay)) @ pay @ tl"
    by (simp add: inner_def encode_inner_def key_def pay_def tl_def)
  have d8: "drop 8 inner = PutUint64 (rec_TsNs r) @ PutUint16 (of_nat (length key)) @ key @
      PutUint32 (of_nat (length pay)) @ pay @ tl"
    and d16: "drop 16 inner = PutUint16 (of_nat (length key)) @ key @
      PutUint32 (of_nat (length pay)) @ pay @ tl"
    and d18: "drop 18 inner = key @ PutUint32 (of_nat (length pay)) @ pay @ tl"
    by (simp_all add: inner)
  have d22: "drop (18 + length key) inner = PutUint32 (of_nat (length pay)) @ pay @ tl"
    by (simp add: inner)
  have dp: "drop (18 + length key + 4) inner = pay @ tl"
    by (simp add: inner)
  have dt: "drop (18 + length key + 4 + length pay) inner = tl"
    and dr: "drop (18 + length key + 4 + length pay + 8) inner = drop 8 tl"
    by (simp_all add: inner)
  have linner: "length inner = 22 + length key + length pay + length tl"
    by (simp add: inner)
  have key: "string_of_bytes key = rec_DedupeKey r" by (simp add: key_def)
  have kl: "unat (of_nat (length key) :: u16) = length key"
    and pl: "unat (of_nat (length pay) :: u32) = length pay"
    using len by (simp_all add: lk lp)
  show ?thesis
    unfolding inner_def [symmetric] decode_inner_def Let_def
    by (simp only: d8 d16 d18 Uint16_Put kl d22 Uint32_Put pl dp dt dr linner)
       (simp add: inner key tl_def pay_def)
qed

lemma Decode_body:
  assumes "4 \<le> n" "n \<le> MaxRecordSize" "length body = n"
  shows "Decode \<lparr>sbuf = PutUint32 (of_nat n) @ body @ rest, send = e\<rparr> =
    (if Uint32 (drop (n - 4) body) \<noteq> ChecksumIEEE (take (n - 4) body)
     then (Inl ErrBadCRC, \<lparr>sbuf = rest, send = e\<rparr>)
     else (case decode_inner (take (n - 4) body) of
             Inl er \<Rightarrow> (Inl er, \<lparr>sbuf = rest, send = e\<rparr>)
           | Inr r \<Rightarrow> (Inr (r, 4 + n), \<lparr>sbuf = rest, send = e\<rparr>)))"
proof -
  have "unat (of_nat n :: u32) = n"
    using assms by (simp add: unat_of_nat MaxRecordSize_def)
  then show ?thesis
    using assms by (simp add: Decode_def stream_simps Let_def)
qed

lemma Decode_frame:
  assumes e: "encodable r"
  shows "Decode \<lparr>sbuf = frame r @ rest, send = en\<rparr> =
         (Inr (r, length (frame r)), \<lparr>sbuf = rest, send = en\<rparr>)"
proof -
  let ?i = "encode_inner r"
  have "length ?i + 4 \<le> MaxRecordSize" using e by (simp add: encodable_def)
  then show ?thesis
    using Decode_body [of "length ?i + 4" "?i @ PutUint32 (ChecksumIEEE ?i)" rest en]
    by (simp add: frame_def decode_encode_inner [OF e])
qed

text \<open>A frame cut short by a crash: nothing left is a clean end, anything else a short read.\<close>

lemma Decode_torn:
  assumes e: "encodable r" and k: "k < length (frame r)"
  shows "fst (Decode \<lparr>sbuf = take k (frame r), send = At_EOF\<rparr>) =
         Inl (if k = 0 then ErrEOF else ErrShortRead)"
proof (cases "k < 4")
  case True
  then show ?thesis using k by (auto simp: Decode_def ReadFull_def frame_def)
next
  case False
  let ?n = "length (encode_inner r) + 4"
  have n: "?n \<le> MaxRecordSize" using e by (simp add: encodable_def)
  obtain body where f: "frame r = PutUint32 (of_nat ?n) @ body" and lb: "length body = ?n"
    by (auto simp: frame_def)
  have tk: "take k (frame r) = PutUint32 (of_nat ?n) @ take (k - 4) body"
    using False by (simp add: f)
  have "k - 4 < ?n" using k False f lb by simp
  then show ?thesis
    using False n lb encodable_lengths(3) [OF e]
    by (simp add: tk Decode_def stream_simps Let_def ReadFull_def)
qed

text \<open>A successful decode consumes exactly the bytes it reports, at least eight of them.\<close>

lemma Decode_consumes:
  assumes "Decode s = (Inr (r, n), s')"
  shows "n \<le> length (sbuf s)" "s' = s\<lparr>sbuf := drop n (sbuf s)\<rparr>" "8 \<le> n" "n \<le> MaxRecordSize + 4"
proof -
  have l4: "4 \<le> length (sbuf s)"
  proof (rule ccontr)
    assume "\<not> 4 \<le> length (sbuf s)"
    then have "fst (Decode s) = Inl ErrEOF \<or> fst (Decode s) = Inl ErrShortRead \<or>
        (\<exists>e. fst (Decode s) = Inl (ErrIO e))"
      by (simp add: Decode_def ReadFull_def split: stream_end.split)
    with assms show False by simp
  qed
  define len where "len = unat (Uint32 (take 4 (sbuf s)))"
  define s1 where "s1 = s\<lparr>sbuf := drop 4 (sbuf s)\<rparr>"
  have D: "Decode s =
      (if len > MaxRecordSize then (Inl ErrTooLarge, s1)
       else if len < 4 then (Inl ErrShortRead, s1)
       else (case ReadFull len s1 of
               (Inl _, s2) \<Rightarrow> (Inl ErrShortRead, s2)
             | (Inr body, s2) \<Rightarrow>
                 if Uint32 (drop (length body - 4) body) \<noteq> ChecksumIEEE (take (length body - 4) body)
                 then (Inl ErrBadCRC, s2)
                 else (case decode_inner (take (length body - 4) body) of
                         Inl e \<Rightarrow> (Inl e, s2) | Inr r \<Rightarrow> (Inr (r, 4 + len), s2))))"
    unfolding Decode_def ReadFull_def [of 4] Let_def len_def s1_def using l4 by simp
  have b: "len \<le> MaxRecordSize" "4 \<le> len"
    using assms D by (simp_all split: if_splits)
  have len2: "len \<le> length (sbuf s1)"
  proof (rule ccontr)
    assume "\<not> ?thesis"
    then have "fst (Decode s) = Inl ErrShortRead" using b by (simp add: D ReadFull_def)
    with assms show False by simp
  qed
  define s2 where "s2 = s1\<lparr>sbuf := drop len (sbuf s1)\<rparr>"
  have R: "ReadFull len s1 = (Inr (take len (sbuf s1)), s2)"
    using len2 by (simp add: ReadFull_def s2_def)
  have "\<exists>x. Decode s = (x, s2) \<and> (\<forall>r n. x = Inr (r, n) \<longrightarrow> n = 4 + len)"
    using b unfolding D R by (simp add: not_less split: sum.split)
  with assms have n: "n = 4 + len" and s': "s' = s2" by auto
  show "n \<le> length (sbuf s)" "8 \<le> n" "n \<le> MaxRecordSize + 4"
    using b len2 l4 n by (simp_all add: s1_def)
  show "s' = s\<lparr>sbuf := drop n (sbuf s)\<rparr>"
    by (simp add: s' s2_def s1_def n add.commute [of len 4])
qed

lemma Decode_shrinks: "Decode s = (Inr (r, n), s') \<Longrightarrow> length (sbuf s') < length (sbuf s)"
  using Decode_consumes [of s r n s'] by auto

section \<open>What the checksum detects\<close>

lemma crc_bit_top: "bit (crc_bit c) 31 = bit c 0"
  using bit_imp_le_length [of c 32]
  by (auto simp: crc_bit_def crc_poly_def bit_simps)

lemma crc_bit_inj: "crc_bit c = crc_bit d \<Longrightarrow> c = d"
proof -
  assume eq: "crc_bit c = crc_bit d"
  then have b0: "bit c 0 = bit d 0" by (metis crc_bit_top)
  with eq have dr: "drop_bit 1 c = drop_bit 1 d"
    by (simp add: crc_bit_def xor_cancel_right split: if_splits)
  show ?thesis
  proof (rule bit_word_eqI)
    fix n assume "n < LENGTH(32)"
    show "bit c n = bit d n"
    proof (cases n)
      case 0 then show ?thesis using b0 by simp
    next
      case (Suc m)
      then show ?thesis using arg_cong [OF dr, of "\<lambda>w. bit w m"] by (simp add: bit_simps)
    qed
  qed
qed

lemma crc_bit_pow_inj: "(crc_bit ^^ n) c = (crc_bit ^^ n) d \<Longrightarrow> c = d"
  by (induction n arbitrary: c d) (auto dest: crc_bit_inj simp: funpow_swap1)

lemma crc_byte_inj_state: "crc_byte c b = crc_byte d b \<Longrightarrow> c = d"
  unfolding crc_byte_def by (drule crc_bit_pow_inj) (simp add: xor_cancel_right)

lemma crc_byte_inj_byte: "crc_byte c a = crc_byte c b \<Longrightarrow> a = b"
proof -
  assume "crc_byte c a = crc_byte c b"
  then have "c XOR ucast a = c XOR (ucast b :: u32)"
    unfolding crc_byte_def by (rule crc_bit_pow_inj)
  then have eq: "(ucast a :: u32) = ucast b"
    by (simp only: xor_cancel_left)
  have up: "unat (ucast x :: u32) = unat x" for x :: u8
  proof -
    have "unat x < 2 ^ 32" using unat_u8_less [of x] by simp
    then show ?thesis by (simp add: unsigned_ucast_eq take_bit_nat_eq_self)
  qed
  from arg_cong [OF eq, of unat] have "unat a = unat b" unfolding up .
  then show ?thesis by (simp only: word_unat_eq_iff)
qed

lemma crc_update_inj_state: "crc_update c bs = crc_update d bs \<Longrightarrow> c = d"
proof (induction bs arbitrary: c d)
  case Nil
  then show ?case by (simp add: crc_update_def)
next
  case (Cons b bs)
  then have "crc_byte c b = crc_byte d b" by (auto simp: crc_update_def)
  then show ?case by (rule crc_byte_inj_state)
qed

lemma ChecksumIEEE_one_byte:
  assumes "a \<noteq> b"
  shows "ChecksumIEEE (xs @ a # ys) \<noteq> ChecksumIEEE (xs @ b # ys)"
proof
  assume "ChecksumIEEE (xs @ a # ys) = ChecksumIEEE (xs @ b # ys)"
  then have "crc_update (crc_byte (crc_update (NOT 0) xs) a) ys =
             crc_update (crc_byte (crc_update (NOT 0) xs) b) ys"
    by (simp add: ChecksumIEEE_def crc_update_def)
  then show False using assms by (blast dest: crc_update_inj_state crc_byte_inj_byte)
qed

section \<open>Properties\<close>

text \<open>C23: Record round trip.  Whatever \<^verbatim>\<open>Encode\<close> accepts, \<^verbatim>\<open>Decode\<close> returns unchanged, with
  the number of bytes written, and leaves the stream right after the frame.\<close>

theorem Decode_Encode:
  assumes "Encode r dst = Inr bs"
  shows "Decode \<lparr>sbuf = drop (length dst) bs @ rest, send = e\<rparr> =
         (Inr (r, length bs - length dst), \<lparr>sbuf = rest, send = e\<rparr>)"
  using assms Decode_frame by (auto simp: Encode_Inr_iff)

theorem Decode_Encode_witness:
  "Decode \<lparr>sbuf = drop 1 (7 # frame \<lparr>rec_MsgID = 3, rec_TsNs = 9, rec_DedupeKey = ''k'',
       rec_Payload = [1, 2], rec_VisibleAtNs = 0, rec_RaftIndex = 4\<rparr>) @ [5], send = At_EOF\<rparr> =
   (Inr (\<lparr>rec_MsgID = 3, rec_TsNs = 9, rec_DedupeKey = ''k'', rec_Payload = [1, 2],
          rec_VisibleAtNs = 0, rec_RaftIndex = 4\<rparr>, 49), \<lparr>sbuf = [5], send = At_EOF\<rparr>)"
  using Decode_Encode [of "\<lparr>rec_MsgID = 3, rec_TsNs = 9, rec_DedupeKey = ''k'',
       rec_Payload = [1, 2], rec_VisibleAtNs = 0, rec_RaftIndex = 4\<rparr>" "[7]"
      "7 # frame \<lparr>rec_MsgID = 3, rec_TsNs = 9, rec_DedupeKey = ''k'',
       rec_Payload = [1, 2], rec_VisibleAtNs = 0, rec_RaftIndex = 4\<rparr>" "[5]" At_EOF]
  by (simp add: Encode_Inr_iff encodable_def length_encode_inner length_frame MaxRecordSize_def)

text \<open>The bytes after the length prefix, with one of them replaced.\<close>

lemma Decode_corrupt_body:
  assumes e: "encodable r" and k: "k < length (encode_inner r) + 4"
    and b: "b \<noteq> (encode_inner r @ PutUint32 (ChecksumIEEE (encode_inner r))) ! k"
  shows "fst (Decode \<lparr>sbuf = PutUint32 (of_nat (length (encode_inner r) + 4)) @
            (encode_inner r @ PutUint32 (ChecksumIEEE (encode_inner r)))[k := b] @ rest, send = en\<rparr>) =
         Inl ErrBadCRC"
proof -
  let ?i = "encode_inner r" and ?c = "PutUint32 (ChecksumIEEE (encode_inner r))"
  let ?n = "length ?i + 4"
  have n: "4 \<le> ?n" "?n \<le> MaxRecordSize" using e by (simp_all add: encodable_def)
  let ?body = "(?i @ ?c)[k := b]"
  have "Uint32 (drop (?n - 4) ?body) \<noteq> ChecksumIEEE (take (?n - 4) ?body)"
  proof (cases "k < length ?i")
    case True
    then have body: "?body = ?i[k := b] @ ?c" by (simp add: list_update_append)
    have "?i = take k ?i @ ?i ! k # drop (Suc k) ?i" by (rule id_take_nth_drop [OF True])
    moreover have "?i[k := b] = take k ?i @ b # drop (Suc k) ?i" using True by (rule upd_conv_take_nth_drop)
    moreover have "?i ! k \<noteq> b" using b True by (simp add: nth_append)
    ultimately have "ChecksumIEEE ?i \<noteq> ChecksumIEEE (?i[k := b])"
      by (metis ChecksumIEEE_one_byte)
    then show ?thesis by (simp add: body)
  next
    case False
    let ?d = "?c[k - length ?i := b]"
    have body: "?body = ?i @ ?d" using False by (simp add: list_update_append)
    have "?c ! (k - length ?i) \<noteq> b" using b False by (simp add: nth_append)
    moreover have "?d ! (k - length ?i) = b" using False k by simp
    ultimately have "?d \<noteq> ?c" by auto
    then have "Uint32 ?d \<noteq> ChecksumIEEE ?i" using PutUint32_Uint32 [of ?d] by auto
    then show ?thesis by (simp add: body)
  qed
  with Decode_body [OF n, of ?body rest en] show ?thesis by simp
qed

text \<open>C24: Corruption is detected.  Replacing any single byte of a stored frame after its length
  prefix (a header field, the key, the payload or the checksum itself) makes \<^verbatim>\<open>Decode\<close> fail
  with \<^verbatim>\<open>ErrBadCRC\<close>, whatever follows the frame.\<close>

theorem corrupt_byte_detected:
  assumes "Encode r [] = Inr bs" "4 \<le> k" "k < length bs" "b \<noteq> bs ! k"
  shows "fst (Decode \<lparr>sbuf = bs[k := b] @ rest, send = e\<rparr>) = Inl ErrBadCRC"
proof -
  have enc: "encodable r" and bs: "bs = frame r" using assms(1) by (simp_all add: Encode_Inr_iff)
  let ?body = "encode_inner r @ PutUint32 (ChecksumIEEE (encode_inner r))"
  have f: "bs = PutUint32 (of_nat (length (encode_inner r) + 4)) @ ?body" by (simp add: bs frame_def)
  have "bs[k := b] = PutUint32 (of_nat (length (encode_inner r) + 4)) @ ?body[k - 4 := b]"
    using assms(2) unfolding f by (simp add: list_update_append)
  moreover have "k - 4 < length (encode_inner r) + 4" using assms(2,3) by (simp add: bs length_frame)
  moreover have "bs ! k = ?body ! (k - 4)"
    using assms(2) unfolding f by (subst nth_append) simp
  ultimately show ?thesis
    using Decode_corrupt_body [OF enc, of "k - 4" b rest e] assms(4) by simp
qed

theorem corrupt_byte_detected_witness:
  "fst (Decode \<lparr>sbuf = (frame \<lparr>rec_MsgID = 3, rec_TsNs = 9, rec_DedupeKey = [], rec_Payload = [1],
       rec_VisibleAtNs = 0, rec_RaftIndex = 0\<rparr>)[4 := 2] @ [], send = At_EOF\<rparr>) = Inl ErrBadCRC"
proof (rule corrupt_byte_detected)
  let ?r = "\<lparr>rec_MsgID = 3, rec_TsNs = 9, rec_DedupeKey = [], rec_Payload = [1],
             rec_VisibleAtNs = 0, rec_RaftIndex = 0\<rparr>"
  have enc: "encodable ?r" by (simp add: encodable_def length_encode_inner MaxRecordSize_def)
  show "Encode ?r [] = Inr (frame ?r)" using enc by (simp add: Encode_Inr_iff)
  have "PutUint64 3 = put_le (Suc 7) 3" by (simp add: PutUint64_def)
  then have "PutUint64 3 = 3 # put_le 7 (3 div 256)" unfolding put_le.simps by simp
  then have "encode_inner ?r ! 0 = 3" by (simp add: encode_inner_def)
  then show "2 \<noteq> frame ?r ! 4"
    by (simp add: frame_def nth_append length_encode_inner)
qed (simp_all add: length_frame)

end
