(* ===== verification/Wal_Log.thy ===== *)
theory Wal_Log
  imports Wal_Record
begin

text \<open>
  The segmented write-ahead log (\<^verbatim>\<open>internal/wal/log.go\<close>, \<^verbatim>\<open>segment.go\<close> and the segment
  bookkeeping of \<^verbatim>\<open>retention.go\<close>): append, rotation, the group committer's flush, segment
  discovery and dropping.

  A segment's file is identified by its index: \<open>disk\<close> is the content behind the open
  descriptors, \<open>linked\<close> the indices whose names are present in the directory (an unlinked file
  stays readable through a descriptor), and \<open>synced\<close> is the length of each file that an
  \<^verbatim>\<open>fsync\<close> has made durable.  Every system call that can fail takes its outcome from an
  argument, so that each error return of the code is a branch of the model.
\<close>

section \<open>Sync modes\<close>

datatype SyncMode = SyncPerMessage | SyncBatched | SyncNone

fun SyncMode_String :: "SyncMode \<Rightarrow> string" where
  "SyncMode_String SyncPerMessage = ''per-message''"
| "SyncMode_String SyncBatched = ''batched''"
| "SyncMode_String SyncNone = ''none''"

definition ParseSyncMode :: "string \<Rightarrow> string + SyncMode" where
  "ParseSyncMode s =
     (if s = ''per-message'' then Inr SyncPerMessage
      else if s = ''batched'' then Inr SyncBatched
      else if s = ''none'' then Inr SyncNone
      else Inl ''fsync mode must be per-message|batched|none'')"

section \<open>Segments and the log\<close>

text \<open>\<^verbatim>\<open>fmt.Sprintf("%06d%s", index, ".log")\<close>\<close>

definition segmentExt :: string where
  "segmentExt = ''.log''"

definition segmentName :: "u64 \<Rightarrow> string" where
  "segmentName index =
     (let d = dec (unat index) in replicate (6 - length d) (CHR ''0'') @ d @ segmentExt)"

record segment =
  seg_index :: u64
  seg_path :: string
  baseMsgID :: u64
  baseByteOffset :: u64
  maxTsNs :: u64
  maxVisibleAtNs :: u64

datatype log_err = LE_Encode wal_err | LE_Write | LE_Sync | LE_Open | LE_OutOfRange
  | LE_Corrupt string wal_err | LE_Read wal_err | LE_Truncate | LE_Remove | LE_Mkdir | LE_ReadDir

record wlog =
  segments :: "segment list"
  nextMsgID :: u64
  written :: u64
  committed :: u64
  syncMode :: SyncMode
  syncSeg :: u64
  syncCount :: u64
  commitErr :: bool
  segmentBytes :: u64
  disk :: "u64 \<Rightarrow> bytes"
  synced :: "u64 \<Rightarrow> nat"
  linked :: "u64 list"

definition active :: "wlog \<Rightarrow> segment" where
  "active l = last (segments l)"

definition fsync :: "u64 \<Rightarrow> wlog \<Rightarrow> wlog" where
  "fsync i l = l\<lparr>synced := (synced l)(i := length (disk l i))\<rparr>"

text \<open>The outcomes of the system calls one \<^verbatim>\<open>Append\<close> makes; a failed write may have stored a
  prefix of the buffer.\<close>

record append_io =
  io_seal_sync :: bool
  io_open :: bool
  io_write :: "nat option"
  io_sync :: bool

definition io_ok :: append_io where
  "io_ok = \<lparr>io_seal_sync = True, io_open = True, io_write = None, io_sync = True\<rparr>"

text \<open>\<^verbatim>\<open>openSegment\<close> for the active segment: the file is created empty unless its name exists.\<close>

definition openSegment :: "u64 \<Rightarrow> u64 \<Rightarrow> u64 \<Rightarrow> wlog \<Rightarrow> segment \<times> wlog" where
  "openSegment index base off l =
     (\<lparr>seg_index = index, seg_path = segmentName index, baseMsgID = base, baseByteOffset = off,
       maxTsNs = 0, maxVisibleAtNs = 0\<rparr>,
      (if index \<in> set (linked l) then l
       else l\<lparr>disk := (disk l)(index := []), synced := (synced l)(index := 0),
              linked := linked l @ [index]\<rparr>))"

definition rotate :: "append_io \<Rightarrow> wlog \<Rightarrow> log_err option \<times> wlog" where
  "rotate io l =
     (let old = active l in
      if written l > committed l \<and> \<not> io_seal_sync io then (Some LE_Sync, l)
      else
        let l1 = (if written l > committed l
                  then (fsync (seg_index old) l)\<lparr>syncCount := syncCount l + 1,
                                                committed := written l\<rparr>
                  else l)
        in if \<not> io_open io then (Some LE_Open, l1)
           else let (seg, l2) = openSegment (seg_index old + 1) (nextMsgID l1) (written l1) l1
                in (None, l2\<lparr>segments := segments l2 @ [seg], syncSeg := seg_index seg\<rparr>))"

datatype append_res = App_Err log_err | App_Wait u64 u64 | App_OK u64 u64

definition must_rotate :: "wlog \<Rightarrow> nat \<Rightarrow> bool" where
  "must_rotate l n \<longleftrightarrow>
     segmentBytes l > 0 \<and>
     (let localSize = written l - baseByteOffset (active l)
      in localSize > 0 \<and> localSize + of_nat n > segmentBytes l)"

text \<open>The newest timestamp and the latest visible-at time of the active segment.\<close>

definition note_record :: "wal_record \<Rightarrow> segment \<Rightarrow> segment" where
  "note_record r s =
     s\<lparr>maxTsNs := (if rec_TsNs r > maxTsNs s then rec_TsNs r else maxTsNs s),
       maxVisibleAtNs := (if rec_VisibleAtNs r > maxVisibleAtNs s then rec_VisibleAtNs r
                          else maxVisibleAtNs s)\<rparr>"

definition append_write :: "append_io \<Rightarrow> wal_record \<Rightarrow> bytes \<Rightarrow> wlog \<Rightarrow> append_res \<times> wlog" where
  "append_write io r buf l =
     (let i = seg_index (active l) in
      case io_write io of
        Some k \<Rightarrow> (App_Err LE_Write, l\<lparr>disk := (disk l)(i := disk l i @ take k buf)\<rparr>)
      | None \<Rightarrow>
          let l1 = l\<lparr>disk := (disk l)(i := disk l i @ buf),
                     nextMsgID := nextMsgID l + 1,
                     written := written l + of_nat (length buf),
                     segments := butlast (segments l) @ [note_record r (active l)]\<rparr>;
              end_off = written l1
          in (case syncMode l of
                SyncBatched \<Rightarrow> (App_Wait (rec_MsgID r) end_off, l1)
              | SyncNone \<Rightarrow> (App_OK (rec_MsgID r) end_off, l1\<lparr>committed := end_off\<rparr>)
              | SyncPerMessage \<Rightarrow>
                  if \<not> io_sync io then (App_Err LE_Sync, l1)
                  else (App_OK (rec_MsgID r) end_off,
                        (fsync (syncSeg l1) l1)\<lparr>syncCount := syncCount l1 + 1,
                                                committed := end_off\<rparr>)))"

definition Append :: "append_io \<Rightarrow> wal_record \<Rightarrow> wlog \<Rightarrow> append_res \<times> wlog" where
  "Append io r0 l =
     (let r = r0\<lparr>rec_MsgID := nextMsgID l\<rparr> in
      case Encode r [] of
        Inl e \<Rightarrow> (App_Err (LE_Encode e), l)
      | Inr buf \<Rightarrow>
          (case (if must_rotate l (length buf) then rotate io l else (None, l)) of
             (Some e, l1) \<Rightarrow> (App_Err e, l1)
           | (None, l1) \<Rightarrow> append_write io r buf l1))"

text \<open>The predicate a batched appender re-checks under the lock; \<open>None\<close> keeps it waiting.\<close>

definition append_wait :: "wlog \<Rightarrow> u64 \<Rightarrow> u64 \<Rightarrow> append_res option" where
  "append_wait l msgID end_off =
     (if \<not> committed l < end_off then Some (App_OK msgID end_off)
      else if commitErr l then Some (App_Err LE_Sync)
      else None)"

text \<open>
  \<^verbatim>\<open>flush\<close> in its three atomic parts: the snapshot under the lock, the \<^verbatim>\<open>fsync\<close> of the
  snapshotted segment outside it, and the publication under the lock again.
\<close>

definition flush_begin :: "wlog \<Rightarrow> (u64 \<times> u64) option" where
  "flush_begin l =
     (if written l \<le> committed l \<or> commitErr l then None else Some (written l, syncSeg l))"

definition flush_end :: "bool \<Rightarrow> u64 \<Rightarrow> wlog \<Rightarrow> wlog" where
  "flush_end ok snap l =
     (if \<not> ok then l\<lparr>commitErr := True\<rparr>
      else l\<lparr>syncCount := syncCount l + 1,
             committed := (if snap > committed l then snap else committed l)\<rparr>)"

definition flush :: "bool \<Rightarrow> wlog \<Rightarrow> wlog" where
  "flush ok l =
     (case flush_begin l of
        None \<Rightarrow> l
      | Some (snap, i) \<Rightarrow> flush_end ok snap (if ok then fsync i l else l))"

section \<open>Reading positions and retention\<close>

definition segmentAfterLocked :: "u64 \<Rightarrow> segment list \<Rightarrow> segment option" where
  "segmentAfterLocked idx ss = find (\<lambda>s. seg_index s > idx) ss"

definition readableLenLocked :: "wlog \<Rightarrow> segment \<Rightarrow> u64 \<times> bool" where
  "readableLenLocked l seg =
     (if seg_index seg = seg_index (last (segments l))
      then (committed l - baseByteOffset seg, True)
      else case segmentAfterLocked (seg_index seg) (segments l) of
             Some nxt \<Rightarrow> (baseByteOffset nxt - baseByteOffset seg, False)
           | None \<Rightarrow> (committed l - baseByteOffset seg, False))"

definition RetainedFloor :: "wlog \<Rightarrow> u64" where
  "RetainedFloor l = baseMsgID (hd (segments l))"

definition Head :: "wlog \<Rightarrow> u64 \<times> bool" where
  "Head l = (if nextMsgID l = 0 then (0, False) else (nextMsgID l - 1, True))"

record SegmentInfo =
  si_Index :: u64
  si_BaseMsgID :: u64
  si_Bytes :: u64
  si_MaxTsNs :: u64
  si_MaxVisibleAtNs :: u64
  si_Active :: bool

definition SegmentInfos :: "wlog \<Rightarrow> SegmentInfo list" where
  "SegmentInfos l =
     map (\<lambda>seg. let (b, a) = readableLenLocked l seg in
            \<lparr>si_Index = seg_index seg, si_BaseMsgID = baseMsgID seg, si_Bytes = b,
             si_MaxTsNs = maxTsNs seg, si_MaxVisibleAtNs = maxVisibleAtNs seg, si_Active = a\<rparr>)
         (segments l)"

text \<open>\<open>rm_fail\<close> says which unlinks fail; the segment leaves the list either way.\<close>

definition DropSegmentsBefore ::
    "(u64 \<Rightarrow> bool) \<Rightarrow> u64 \<Rightarrow> wlog \<Rightarrow> (nat \<times> u64 \<times> log_err option) \<times> wlog" where
  "DropSegmentsBefore rm_fail keepIndex l =
     (let keep = (if keepIndex > seg_index (active l) then seg_index (active l) else keepIndex);
          toDrop = takeWhile (\<lambda>s. seg_index s < keep) (segments l);
          rest = dropWhile (\<lambda>s. seg_index s < keep) (segments l)
      in if toDrop = [] then ((0, baseMsgID (hd (segments l)), None), l)
         else ((length toDrop, baseMsgID (hd rest),
                if \<exists>s \<in> set toDrop. rm_fail (seg_index s) then Some LE_Remove else None),
               l\<lparr>segments := rest,
                 linked := filter (\<lambda>i. i \<notin> seg_index ` set toDrop \<or> rm_fail i) (linked l)\<rparr>))"

end
