(* ===== verification/Wal_Invariant.thy ===== *)
theory Wal_Invariant
  imports Wal_Log
begin

text \<open>
  What the log's state means: \<open>log_rel l R\<close> says that log \<open>l\<close> holds, segment by segment, the
  records \<open>R\<close>.  Files are concatenated frames, base offsets and base MsgIDs are the running
  totals, MsgIDs are consecutive, and \<open>committed\<close> lies on a record boundary of the active
  segment.  All equations are over \<open>nat\<close>, so the relation also says that no 64-bit counter has
  wrapped.  Append, flush and drop preserve the relation; abstractly they extend the last list or
  open a new one, move the commit mark, and remove a prefix of the lists.
\<close>

section \<open>The relation\<close>

definition frames :: "wal_record list \<Rightarrow> bytes" where
  "frames rs = concat (map frame rs)"

lemma frames_simps [simp]:
  "frames [] = []"
  "frames (r # rs) = frame r @ frames rs"
  "frames (rs @ ts) = frames rs @ frames ts"
  by (simp_all add: frames_def)

lemma frames_eq_Nil [simp]: "frames rs = [] \<longleftrightarrow> rs = []"
  by (cases rs) simp_all

definition ids_from :: "nat \<Rightarrow> wal_record list \<Rightarrow> bool" where
  "ids_from m rs \<longleftrightarrow> map (\<lambda>r. unat (rec_MsgID r)) rs = [m..<m + length rs]"

lemma ids_from_Nil [simp]: "ids_from m []"
  by (simp add: ids_from_def)

lemma ids_from_Cons [simp]:
  "ids_from m (r # rs) \<longleftrightarrow> unat (rec_MsgID r) = m \<and> ids_from (Suc m) rs"
  by (auto simp: ids_from_def upt_conv_Cons simp del: upt_Suc)

lemma ids_from_append [simp]:
  "ids_from m (rs @ ts) \<longleftrightarrow> ids_from m rs \<and> ids_from (m + length rs) ts"
  by (induction rs arbitrary: m) simp_all

lemma ids_from_nth: "ids_from m rs \<Longrightarrow> k < length rs \<Longrightarrow> unat (rec_MsgID (rs ! k)) = m + k"
  by (induction rs arbitrary: m k) (auto simp: nth_Cons split: nat.splits)

definition max_ts :: "wal_record list \<Rightarrow> u64" where
  "max_ts rs = foldl (\<lambda>m r. if rec_TsNs r > m then rec_TsNs r else m) 0 rs"

definition max_vis :: "wal_record list \<Rightarrow> u64" where
  "max_vis rs = foldl (\<lambda>m r. if rec_VisibleAtNs r > m then rec_VisibleAtNs r else m) 0 rs"

lemma max_ts_simps [simp]:
  "max_ts [] = 0"
  "max_ts (rs @ [r]) = (if rec_TsNs r > max_ts rs then rec_TsNs r else max_ts rs)"
  by (simp_all add: max_ts_def)

lemma max_vis_simps [simp]:
  "max_vis [] = 0"
  "max_vis (rs @ [r]) = (if rec_VisibleAtNs r > max_vis rs then rec_VisibleAtNs r else max_vis rs)"
  by (simp_all add: max_vis_def)

lemma max_ts_upper: "r \<in> set rs \<Longrightarrow> rec_TsNs r \<le> max_ts rs"
  by (induction rs rule: rev_induct) auto

lemma max_vis_upper: "r \<in> set rs \<Longrightarrow> rec_VisibleAtNs r \<le> max_vis rs"
  by (induction rs rule: rev_induct) auto

definition seg_rel :: "(u64 \<Rightarrow> bytes) \<Rightarrow> nat \<Rightarrow> nat \<Rightarrow> segment \<Rightarrow> wal_record list \<Rightarrow> bool" where
  "seg_rel d off mid s rs \<longleftrightarrow>
     unat (baseByteOffset s) = off \<and> unat (baseMsgID s) = mid \<and>
     d (seg_index s) = frames rs \<and> ids_from mid rs \<and> list_all encodable rs \<and>
     maxTsNs s = max_ts rs \<and> maxVisibleAtNs s = max_vis rs"

fun segs_rel :: "(u64 \<Rightarrow> bytes) \<Rightarrow> nat \<Rightarrow> nat \<Rightarrow> segment list \<Rightarrow> wal_record list list \<Rightarrow> bool" where
  "segs_rel d off mid [] [] = True"
| "segs_rel d off mid (s # ss) (rs # R) \<longleftrightarrow>
     seg_rel d off mid s rs \<and> segs_rel d (off + length (frames rs)) (mid + length rs) ss R"
| "segs_rel d off mid _ _ = False"

lemma segs_rel_length: "segs_rel d off mid ss R \<Longrightarrow> length ss = length R"
  by (induction d off mid ss R rule: segs_rel.induct) auto

lemma segs_rel_append:
  "length ss = length R \<Longrightarrow>
   segs_rel d off mid (ss @ ss') (R @ R') \<longleftrightarrow>
     segs_rel d off mid ss R \<and>
     segs_rel d (off + length (frames (concat R))) (mid + length (concat R)) ss' R'"
  by (induction ss R arbitrary: off mid rule: list_induct2) (auto simp: add.assoc)

lemma segs_rel_cong:
  "(\<And>s. s \<in> set ss \<Longrightarrow> d (seg_index s) = d' (seg_index s)) \<Longrightarrow>
   segs_rel d off mid ss R = segs_rel d' off mid ss R"
  by (induction d off mid ss R rule: segs_rel.induct) (auto simp: seg_rel_def)

definition log_off :: "wlog \<Rightarrow> nat" where
  "log_off l = unat (baseByteOffset (hd (segments l)))"

definition log_floor :: "wlog \<Rightarrow> nat" where
  "log_floor l = unat (baseMsgID (hd (segments l)))"

definition log_rel :: "wlog \<Rightarrow> wal_record list list \<Rightarrow> bool" where
  "log_rel l R \<longleftrightarrow>
     segments l \<noteq> [] \<and>
     segs_rel (disk l) (log_off l) (log_floor l) (segments l) R \<and>
     unat (written l) = log_off l + length (frames (concat R)) \<and>
     unat (nextMsgID l) = log_floor l + length (concat R) \<and>
     [] \<notin> set (butlast R) \<and>
     sorted_wrt (<) (map seg_index (segments l)) \<and>
     seg_index ` set (segments l) \<subseteq> set (linked l) \<and>
     (\<forall>i \<in> set (linked l). i \<le> seg_index (last (segments l))) \<and>
     syncSeg l = seg_index (last (segments l))"

text \<open>The committed offset as a number of records of the active segment.\<close>

definition commit_at :: "wlog \<Rightarrow> wal_record list list \<Rightarrow> nat \<Rightarrow> bool" where
  "commit_at l R m \<longleftrightarrow>
     m \<le> length (last R) \<and>
     unat (committed l) = log_off l + length (frames (concat (butlast R) @ take m (last R)))"

lemma log_rel_not_Nil [simp]: "log_rel l R \<Longrightarrow> R \<noteq> [] \<and> segments l \<noteq> []"
  by (auto simp: log_rel_def dest: segs_rel_length)

lemma log_rel_split:
  assumes "log_rel l R"
  shows "length (butlast (segments l)) = length (butlast R)"
    and "segs_rel (disk l) (log_off l) (log_floor l) (butlast (segments l)) (butlast R)"
    and "seg_rel (disk l) (log_off l + length (frames (concat (butlast R))))
           (log_floor l + length (concat (butlast R))) (active l) (last R)"
proof -
  have nn: "R \<noteq> []" "segments l \<noteq> []" using assms by simp_all
  have len: "length (butlast (segments l)) = length (butlast R)"
    using assms by (auto simp: log_rel_def dest: segs_rel_length)
  have "segs_rel (disk l) (log_off l) (log_floor l)
          (butlast (segments l) @ [last (segments l)]) (butlast R @ [last R])"
    using assms nn by (simp add: log_rel_def)
  then show "segs_rel (disk l) (log_off l) (log_floor l) (butlast (segments l)) (butlast R)"
    and "seg_rel (disk l) (log_off l + length (frames (concat (butlast R))))
           (log_floor l + length (concat (butlast R))) (active l) (last R)"
    unfolding segs_rel_append [OF len] by (simp_all add: active_def)
  show "length (butlast (segments l)) = length (butlast R)" by (fact len)
qed

lemma concat_snoc: "R \<noteq> [] \<Longrightarrow> concat R = concat (butlast R) @ last R"
  by (metis append_butlast_last_id concat.simps concat_append append_Nil2)

lemma sorted_last_greatest:
  assumes "sorted_wrt (<) (map seg_index ss)" "ss \<noteq> []" "s \<in> set (butlast ss)"
  shows "seg_index s < seg_index (last ss)"
proof -
  have "ss = butlast ss @ [last ss]" using assms(2) by simp
  then have "sorted_wrt (<) (map seg_index (butlast ss) @ [seg_index (last ss)])"
    using assms(1) by (metis list.simps(8,9) map_append)
  then show ?thesis using assms(3) by (auto simp: sorted_wrt_append)
qed

lemma log_rel_sealed_index:
  "log_rel l R \<Longrightarrow> s \<in> set (butlast (segments l)) \<Longrightarrow> seg_index s < seg_index (active l)"
  unfolding active_def by (rule sorted_last_greatest) (auto simp: log_rel_def)

lemma active_local_size:
  assumes "log_rel l R"
  shows "unat (written l - baseByteOffset (active l)) = length (frames (last R))"
    and "baseByteOffset (active l) \<le> written l"
proof -
  have w: "unat (written l) = log_off l + length (frames (concat R))"
    using assms by (simp add: log_rel_def)
  have b: "unat (baseByteOffset (active l)) = log_off l + length (frames (concat (butlast R)))"
    using log_rel_split(3) [OF assms] by (simp add: seg_rel_def)
  have c: "frames (concat R) = frames (concat (butlast R)) @ frames (last R)"
    using assms concat_snoc [of R] by simp
  show le: "baseByteOffset (active l) \<le> written l"
    using w b c by (simp add: u64_le_iff)
  show "unat (written l - baseByteOffset (active l)) = length (frames (last R))"
    using w b c unat_diff_no_wrap [OF le] by simp
qed

section \<open>Append\<close>

text \<open>The record as it is stored, and the abstract effect on the per-segment lists.\<close>

definition stamped :: "wal_record \<Rightarrow> wlog \<Rightarrow> wal_record" where
  "stamped r l = r\<lparr>rec_MsgID := nextMsgID l\<rparr>"

definition abs_append :: "bool \<Rightarrow> wal_record \<Rightarrow> wal_record list list \<Rightarrow> wal_record list list" where
  "abs_append roll r R = (if roll then R @ [[r]] else butlast R @ [last R @ [r]])"

lemma concat_abs_append: "R \<noteq> [] \<Longrightarrow> concat (abs_append b r R) = concat R @ [r]"
  using concat_snoc [of R] by (simp add: abs_append_def)

lemma note_record_simps [simp]:
  "seg_index (note_record r s) = seg_index s"
  "baseMsgID (note_record r s) = baseMsgID s"
  "baseByteOffset (note_record r s) = baseByteOffset s"
  by (simp_all add: note_record_def)

text \<open>The state right after the record's bytes have been stored.\<close>

definition stored :: "wal_record \<Rightarrow> wlog \<Rightarrow> wlog" where
  "stored r l = l\<lparr>disk := (disk l)(seg_index (active l) := disk l (seg_index (active l)) @ frame r),
                 nextMsgID := nextMsgID l + 1,
                 written := written l + of_nat (length (frame r)),
                 segments := butlast (segments l) @ [note_record r (active l)]\<rparr>"

lemma stored_sel [simp]:
  "segments (stored r l) = butlast (segments l) @ [note_record r (active l)]"
  "linked (stored r l) = linked l" "syncSeg (stored r l) = syncSeg l"
  "committed (stored r l) = committed l" "synced (stored r l) = synced l"
  "syncMode (stored r l) = syncMode l" "segmentBytes (stored r l) = segmentBytes l"
  "commitErr (stored r l) = commitErr l" "syncCount (stored r l) = syncCount l"
  by (simp_all add: stored_def)

lemma append_write_stored:
  assumes "io_write io = None"
  shows "append_write io r (frame r) l =
    (case syncMode l of
       SyncBatched \<Rightarrow> (App_Wait (rec_MsgID r) (written (stored r l)), stored r l)
     | SyncNone \<Rightarrow> (App_OK (rec_MsgID r) (written (stored r l)),
                    (stored r l)\<lparr>committed := written (stored r l)\<rparr>)
     | SyncPerMessage \<Rightarrow>
         if \<not> io_sync io then (App_Err LE_Sync, stored r l)
         else (App_OK (rec_MsgID r) (written (stored r l)),
               (fsync (syncSeg l) (stored r l))\<lparr>syncCount := syncCount l + 1,
                                                committed := written (stored r l)\<rparr>))"
  using assms by (simp add: append_write_def stored_def Let_def split: SyncMode.split)

lemma hd_butlast_snoc:
  "xs \<noteq> [] \<Longrightarrow> f y = f (last xs) \<Longrightarrow> f (hd (butlast xs @ [y])) = f (hd xs)"
  by (cases xs rule: rev_cases) (auto simp: hd_append)

lemma stored_floor [simp]:
  assumes "segments l \<noteq> []"
  shows "log_off (stored r l) = log_off l" "log_floor (stored r l) = log_floor l"
  using assms hd_butlast_snoc [of "segments l" baseByteOffset "note_record r (active l)"]
    hd_butlast_snoc [of "segments l" baseMsgID "note_record r (active l)"]
  by (simp_all add: stored_def log_off_def log_floor_def active_def)

lemma segs_rel_other_file:
  assumes "log_rel l R"
  shows "segs_rel ((disk l)(seg_index (active l) := b)) off mid (butlast (segments l)) Q =
         segs_rel (disk l) off mid (butlast (segments l)) Q"
  by (rule segs_rel_cong) (use log_rel_sealed_index [OF assms] in force)

lemma log_rel_stored:
  assumes rel: "log_rel l R" and enc: "encodable r" and id: "rec_MsgID r = nextMsgID l"
    and w: "unat (written l) + length (frame r) < 2 ^ 64"
    and n: "Suc (unat (nextMsgID l)) < 2 ^ 64"
  shows "log_rel (stored r l) (butlast R @ [last R @ [r]])"
proof -
  have nn: "R \<noteq> []" "segments l \<noteq> []" using rel by simp_all
  note sp = log_rel_split [OF rel]
  have cR: "concat R = concat (butlast R) @ last R" using nn by (simp add: concat_snoc)
  have len: "length (butlast (segments l)) = length (butlast R)" by (fact sp(1))
  have seg: "seg_rel (disk (stored r l)) (log_off l + length (frames (concat (butlast R))))
      (log_floor l + length (concat (butlast R))) (note_record r (active l)) (last R @ [r])"
    using sp(3) enc id rel
    by (auto simp: seg_rel_def stored_def note_record_def log_rel_def cR)
  have "segs_rel (disk (stored r l)) (log_off l) (log_floor l) (butlast (segments l)) (butlast R)"
    using sp(2) segs_rel_other_file [OF rel] by (simp add: stored_def)
  with seg have segs: "segs_rel (disk (stored r l)) (log_off l) (log_floor l)
      (segments (stored r l)) (butlast R @ [last R @ [r]])"
    by (simp add: segs_rel_append [OF len])
  have nx: "unat (nextMsgID (stored r l)) = log_floor l + length (concat R) + 1"
    using rel unat_Suc_no_wrap [OF n] by (simp add: stored_def log_rel_def)
  have wr: "unat (written (stored r l)) = log_off l + length (frames (concat R)) + length (frame r)"
    using rel unat_add_of_nat [OF w] by (simp add: stored_def log_rel_def)
  have map_idx: "map seg_index (segments (stored r l)) = map seg_index (segments l)"
    using arg_cong [OF append_butlast_last_id [OF nn(2)], of "map seg_index"]
    by (simp add: active_def)
  then have set_idx: "seg_index ` set (segments (stored r l)) = seg_index ` set (segments l)"
    by (metis set_map)
  show ?thesis
    unfolding log_rel_def
    using rel nn segs nx wr map_idx set_idx
    by (simp add: log_rel_def cR active_def)
qed

lemma commit_at_stored:
  assumes "log_rel l R" "commit_at l R m"
  shows "commit_at (stored r l) (butlast R @ [last R @ [r]]) m"
  using assms by (simp add: commit_at_def)

text \<open>Fields the relation does not constrain.\<close>

lemma log_off_floor_cong [simp]:
  "log_off (l\<lparr>committed := c\<rparr>) = log_off l" "log_floor (l\<lparr>committed := c\<rparr>) = log_floor l"
  "log_off (l\<lparr>syncCount := n\<rparr>) = log_off l" "log_floor (l\<lparr>syncCount := n\<rparr>) = log_floor l"
  "log_off (l\<lparr>commitErr := b\<rparr>) = log_off l" "log_floor (l\<lparr>commitErr := b\<rparr>) = log_floor l"
  "log_off (fsync i l) = log_off l" "log_floor (fsync i l) = log_floor l"
  by (simp_all add: log_off_def log_floor_def fsync_def)

lemma log_rel_cong [simp]:
  "log_rel (l\<lparr>committed := c\<rparr>) R = log_rel l R"
  "log_rel (l\<lparr>syncCount := n\<rparr>) R = log_rel l R"
  "log_rel (l\<lparr>commitErr := b\<rparr>) R = log_rel l R"
  "log_rel (fsync i l) R = log_rel l R"
  by (simp_all add: log_rel_def) (simp add: fsync_def)

lemma commit_at_cong [simp]:
  "commit_at (l\<lparr>syncCount := n\<rparr>) R m = commit_at l R m"
  "commit_at (l\<lparr>commitErr := b\<rparr>) R m = commit_at l R m"
  "commit_at (fsync i l) R m = commit_at l R m"
  by (simp_all add: commit_at_def) (simp add: fsync_def)

lemma fsync_sel [simp]:
  "segments (fsync i l) = segments l" "disk (fsync i l) = disk l" "committed (fsync i l) = committed l"
  "written (fsync i l) = written l" "nextMsgID (fsync i l) = nextMsgID l"
  "linked (fsync i l) = linked l" "active (fsync i l) = active l" "syncSeg (fsync i l) = syncSeg l"
  "syncMode (fsync i l) = syncMode l" "syncCount (fsync i l) = syncCount l"
  "synced (fsync i l) = (synced l)(i := length (disk l i))"
  "segmentBytes (fsync i l) = segmentBytes l" "commitErr (fsync i l) = commitErr l"
  by (simp_all add: fsync_def active_def)

lemma commit_all:
  "log_rel l R \<Longrightarrow> committed l = written l \<Longrightarrow> commit_at l R (length (last R))"
proof -
  assume r: "log_rel l R" and c: "committed l = written l"
  have "concat (butlast R) @ last R = concat R"
    using log_rel_not_Nil [OF r] by (metis concat_snoc)
  moreover have "unat (written l) = log_off l + length (frames (concat R))"
    using r by (simp add: log_rel_def)
  ultimately show ?thesis using c by (simp only: commit_at_def take_all order.refl simp_thms)
qed

lemma commit_le_written: "log_rel l R \<Longrightarrow> commit_at l R m \<Longrightarrow> committed l \<le> written l"
proof -
  assume r: "log_rel l R" and c: "commit_at l R m"
  have "frames (last R) = frames (take m (last R)) @ frames (drop m (last R))"
    by (metis append_take_drop_id frames_simps(3))
  then show ?thesis
    using r c concat_snoc [of R] log_rel_not_Nil [OF r]
    by (simp add: u64_le_iff commit_at_def log_rel_def)
qed

section \<open>Rotation\<close>

definition rotated :: "wlog \<Rightarrow> wlog" where
  "rotated l =
     (let i = seg_index (active l) + 1 in
      l\<lparr>committed := written l,
        disk := (disk l)(i := []), synced := (synced l)(i := 0), linked := linked l @ [i],
        segments := segments l @
          [\<lparr>seg_index = i, seg_path = segmentName i, baseMsgID = nextMsgID l,
            baseByteOffset = written l, maxTsNs = 0, maxVisibleAtNs = 0\<rparr>],
        syncSeg := i\<rparr>)"

lemma log_rel_next_index:
  assumes "log_rel l R" "Suc (unat (seg_index (active l))) < 2 ^ 64"
  shows "seg_index (active l) < seg_index (active l) + 1"
    and "seg_index (active l) + 1 \<notin> set (linked l)"
proof -
  show lt: "seg_index (active l) < seg_index (active l) + 1"
    using unat_Suc_no_wrap [OF assms(2)] by (simp add: u64_less_iff)
  show "seg_index (active l) + 1 \<notin> set (linked l)"
    using assms(1) lt by (auto simp: log_rel_def active_def)
qed

lemma rotate_rotated:
  assumes "log_rel l R" "commit_at l R m" "io_seal_sync io" "io_open io"
    and "Suc (unat (seg_index (active l))) < 2 ^ 64"
  shows "rotate io l = (None, rotated
           (if written l > committed l
            then (fsync (seg_index (active l)) l)\<lparr>syncCount := syncCount l + 1\<rparr> else l))"
proof (cases "written l > committed l")
  case True
  then show ?thesis
    using assms log_rel_next_index(2) [OF assms(1,5)]
    by (simp add: rotate_def rotated_def openSegment_def Let_def active_def fsync_def)
next
  case False
  then have "committed l = written l"
    using commit_le_written [OF assms(1,2)] by simp
  with False show ?thesis
    using assms log_rel_next_index(2) [OF assms(1,5)]
    by (simp add: rotate_def rotated_def openSegment_def Let_def active_def)
qed

lemma log_rel_rotated:
  assumes rel: "log_rel l R" and ne: "last R \<noteq> []"
    and ix: "Suc (unat (seg_index (active l))) < 2 ^ 64"
  shows "log_rel (rotated l) (R @ [[]])"
proof -
  have nn: "R \<noteq> []" "segments l \<noteq> []" using rel by simp_all
  note ni = log_rel_next_index [OF rel ix]
  have len: "length (segments l) = length R" using rel by (auto simp: log_rel_def dest: segs_rel_length)
  have fl: "log_off (rotated l) = log_off l" "log_floor (rotated l) = log_floor l"
    using nn by (simp_all add: rotated_def log_off_def log_floor_def Let_def)
  have idx: "seg_index s \<noteq> seg_index (active l) + 1" if "s \<in> set (segments l)" for s
    using rel that ni(2) by (auto simp: log_rel_def)
  have "segs_rel (disk (rotated l)) (log_off l) (log_floor l) (segments l) R =
        segs_rel (disk l) (log_off l) (log_floor l) (segments l) R"
    by (rule segs_rel_cong) (use idx in \<open>auto simp: rotated_def Let_def\<close>)
  then have segs: "segs_rel (disk (rotated l)) (log_off l) (log_floor l)
      (segments (rotated l)) (R @ [[]])"
    using rel by (simp add: rotated_def Let_def segs_rel_append [OF len] log_rel_def seg_rel_def)
  have bl: "[] \<notin> set R"
    using rel ne nn by (metis (no_types, lifting) Un_iff append_butlast_last_id empty_iff
        empty_set insert_iff list.simps(15) log_rel_def set_append)
  have srt: "sorted_wrt (<) (map seg_index (segments l) @ [seg_index (active l) + 1])"
    using rel ni(1) by (force simp: sorted_wrt_append log_rel_def active_def)
  have lk: "i \<le> seg_index (active l) + 1" if "i \<in> set (linked l)" for i
  proof -
    have "i \<le> seg_index (active l)" using rel that by (simp add: log_rel_def active_def)
    with ni(1) show ?thesis by (meson order.strict_implies_order order.trans)
  qed
  show ?thesis
    unfolding log_rel_def fl
    using rel nn segs bl srt lk by (auto simp: rotated_def Let_def log_rel_def)
qed

lemma commit_at_rotated:
  "log_rel l R \<Longrightarrow> commit_at (rotated l) (R @ [[]]) 0"
  by (auto simp: commit_at_def log_rel_def rotated_def Let_def log_off_def)

section \<open>Append as a refinement\<close>

definition log_room :: "wlog \<Rightarrow> wal_record \<Rightarrow> bool" where
  "log_room l r \<longleftrightarrow>
     unat (written l) + length (frame (stamped r l)) < 2 ^ 64 \<and>
     Suc (unat (nextMsgID l)) < 2 ^ 64 \<and>
     Suc (unat (seg_index (active l))) < 2 ^ 64"

lemma must_rotate_nonempty: "log_rel l R \<Longrightarrow> must_rotate l n \<Longrightarrow> last R \<noteq> []"
proof
  assume "log_rel l R" "must_rotate l n" "last R = []"
  then have "unat (written l - baseByteOffset (active l)) = 0"
    using active_local_size(1) [of l R] by simp
  then show False
    using \<open>must_rotate l n\<close> by (simp only: unat_eq_zero must_rotate_def Let_def) simp
qed

text \<open>The state in which the record is written: after the rotation, if one is due.\<close>

definition pre_write :: "wal_record \<Rightarrow> wlog \<Rightarrow> wlog" where
  "pre_write r l =
     (if must_rotate l (length (frame (stamped r l)))
      then rotated (if written l > committed l
                    then (fsync (seg_index (active l)) l)\<lparr>syncCount := syncCount l + 1\<rparr> else l)
      else l)"

lemma Append_pre_write:
  assumes "log_rel l R" "commit_at l R m" "encodable (stamped r l)" "log_room l r"
    and "io_seal_sync io" "io_open io"
  shows "Append io r l = append_write io (stamped r l) (frame (stamped r l)) (pre_write r l)"
  using assms rotate_rotated [OF assms(1,2,5,6)]
  by (simp add: Append_def Let_def stamped_def [symmetric] Encode_frame pre_write_def log_room_def)

lemma pre_write_rel:
  assumes rel: "log_rel l R" and c: "commit_at l R m" and room: "log_room l r"
  shows "log_rel (pre_write r l)
           (if must_rotate l (length (frame (stamped r l))) then R @ [[]] else R)"
    and "commit_at (pre_write r l)
           (if must_rotate l (length (frame (stamped r l))) then R @ [[]] else R)
           (if must_rotate l (length (frame (stamped r l))) then 0 else m)"
    and "written (pre_write r l) = written l" "nextMsgID (pre_write r l) = nextMsgID l"
    and "syncMode (pre_write r l) = syncMode l" "commitErr (pre_write r l) = commitErr l"
proof -
  let ?l = "if written l > committed l
            then (fsync (seg_index (active l)) l)\<lparr>syncCount := syncCount l + 1\<rparr> else l"
  have r': "log_rel ?l R" using rel by simp
  have act: "active ?l = active l" by (simp add: active_def)
  have ix: "Suc (unat (seg_index (active ?l))) < 2 ^ 64"
    using room unfolding act by (simp add: log_room_def)
  show "log_rel (pre_write r l)
           (if must_rotate l (length (frame (stamped r l))) then R @ [[]] else R)"
    using rel log_rel_rotated [OF r' must_rotate_nonempty [OF rel] ix]
    by (simp add: pre_write_def)
  show "commit_at (pre_write r l)
           (if must_rotate l (length (frame (stamped r l))) then R @ [[]] else R)
           (if must_rotate l (length (frame (stamped r l))) then 0 else m)"
    using c commit_at_rotated [OF r'] by (simp add: pre_write_def)
qed (auto simp: pre_write_def rotated_def Let_def)

text \<open>
  The central refinement of the write path: with no failing system call, a per-message or
  no-sync append returns the next MsgID, appends exactly the stamped record to the abstract log,
  and leaves everything committed.
\<close>

lemma Append_stored:
  assumes rel: "log_rel l R" and c: "commit_at l R m" and enc: "encodable (stamped r l)"
    and room: "log_room l r"
  shows "log_rel (stored (stamped r l) (pre_write r l))
           (abs_append (must_rotate l (length (frame (stamped r l)))) (stamped r l) R)"
proof -
  note pw = pre_write_rel [OF rel c room]
  have "log_rel (stored (stamped r l) (pre_write r l))
     (let Q = (if must_rotate l (length (frame (stamped r l))) then R @ [[]] else R)
      in butlast Q @ [last Q @ [stamped r l]])"
    unfolding Let_def
    by (rule log_rel_stored [OF pw(1) enc])
       (use pw(3,4) room in \<open>simp_all add: stamped_def log_room_def\<close>)
  then show ?thesis by (simp add: abs_append_def Let_def split: if_splits)
qed

section \<open>Positions in the log\<close>

lemma segs_rel_nth:
  "segs_rel d off mid ss R \<Longrightarrow> j < length R \<Longrightarrow>
   seg_rel d (off + length (frames (concat (take j R)))) (mid + length (concat (take j R)))
     (ss ! j) (R ! j)"
proof (induction d off mid ss R arbitrary: j rule: segs_rel.induct)
  case (2 d off mid s ss rs R)
  then show ?case by (cases j) (auto simp: add.assoc)
qed auto

lemma log_rel_length: "log_rel l R \<Longrightarrow> length (segments l) = length R"
  by (auto simp: log_rel_def dest: segs_rel_length)

lemma log_rel_nth:
  assumes "log_rel l R" "j < length R"
  shows "seg_rel (disk l) (log_off l + length (frames (concat (take j R))))
           (log_floor l + length (concat (take j R))) (segments l ! j) (R ! j)"
  using assms by (auto simp: log_rel_def intro: segs_rel_nth)

lemma segs_rel_all:
  "segs_rel d off mid ss R \<Longrightarrow> list_all encodable (concat R) \<and> ids_from mid (concat R)"
  by (induction d off mid ss R rule: segs_rel.induct) (auto simp: seg_rel_def)

lemma log_rel_all:
  "log_rel l R \<Longrightarrow> list_all encodable (concat R) \<and> ids_from (log_floor l) (concat R)"
  unfolding log_rel_def by (blast dest: segs_rel_all)

lemma segmentAfter_nth:
  assumes "sorted_wrt (<) (map seg_index ss)" "j < length ss"
  shows "segmentAfterLocked (seg_index (ss ! j)) ss =
         (if Suc j < length ss then Some (ss ! Suc j) else None)"
proof -
  have lt: "seg_index (ss ! i) < seg_index (ss ! k)" if "i < k" "k < length ss" for i k
    using assms(1) that by (simp add: sorted_wrt_iff_nth_less)
  have nlt: "\<not> seg_index (ss ! j) < seg_index (ss ! i)" if "i \<le> j" for i
    using lt [of i j] that assms(2) by (cases "i = j") auto
  show ?thesis
  proof (cases "Suc j < length ss")
    case True
    then show ?thesis
      using lt [of j "Suc j"] nlt
      by (auto simp: segmentAfterLocked_def find_Some_iff intro!: exI [of _ "Suc j"])
  next
    case False
    then have "\<not> seg_index (ss ! j) < seg_index s" if "s \<in> set ss" for s
      using that nlt by (metis in_set_conv_nth less_Suc_eq_le not_le order_le_less_trans Suc_leI not_less_eq_eq)
    with False show ?thesis by (auto simp: segmentAfterLocked_def find_None_iff)
  qed
qed

lemma log_rel_sorted: "log_rel l R \<Longrightarrow> sorted_wrt (<) (map seg_index (segments l))"
  by (simp add: log_rel_def)

lemma readable_sealed:
  assumes rel: "log_rel l R" and j: "Suc j < length (segments l)"
  shows "unat (fst (readableLenLocked l (segments l ! j))) = length (frames (R ! j))"
    and "\<not> snd (readableLenLocked l (segments l ! j))"
proof -
  note len = log_rel_length [OF rel]
  have srt: "sorted_wrt (<) (map seg_index (segments l))" by (rule log_rel_sorted [OF rel])
  have "segments l ! j \<in> set (butlast (segments l))"
    using j by (metis Suc_lessE length_butlast diff_Suc_1 nth_butlast nth_mem less_diff_conv Suc_eq_plus1)
  then have ne: "seg_index (segments l ! j) \<noteq> seg_index (last (segments l))"
    using log_rel_sealed_index [OF rel] by (fastforce simp: active_def)
  have nx: "segmentAfterLocked (seg_index (segments l ! j)) (segments l) = Some (segments l ! Suc j)"
    using segmentAfter_nth [OF srt, of j] j by simp
  have b1: "unat (baseByteOffset (segments l ! j)) = log_off l + length (frames (concat (take j R)))"
    using log_rel_nth [OF rel, of j] j len by (simp add: seg_rel_def)
  have b2: "unat (baseByteOffset (segments l ! Suc j)) =
      log_off l + length (frames (concat (take j R))) + length (frames (R ! j))"
    using log_rel_nth [OF rel, of "Suc j"] j len by (simp add: seg_rel_def take_Suc_conv_app_nth)
  have "baseByteOffset (segments l ! j) \<le> baseByteOffset (segments l ! Suc j)"
    using b1 b2 by (simp add: u64_le_iff)
  then show "unat (fst (readableLenLocked l (segments l ! j))) = length (frames (R ! j))"
    using ne nx b1 b2 by (simp add: readableLenLocked_def unat_diff_no_wrap)
  show "\<not> snd (readableLenLocked l (segments l ! j))"
    using ne nx by (simp add: readableLenLocked_def)
qed

lemma readable_active:
  assumes rel: "log_rel l R" and c: "commit_at l R m"
  shows "unat (fst (readableLenLocked l (active l))) = length (frames (take m (last R)))"
    and "snd (readableLenLocked l (active l))"
proof -
  have b: "unat (baseByteOffset (active l)) = log_off l + length (frames (concat (butlast R)))"
    using log_rel_split(3) [OF rel] by (simp add: seg_rel_def)
  have "baseByteOffset (active l) \<le> committed l"
    using b c by (simp add: u64_le_iff commit_at_def)
  then show "unat (fst (readableLenLocked l (active l))) = length (frames (take m (last R)))"
    using b c by (simp add: readableLenLocked_def unat_diff_no_wrap commit_at_def active_def)
  show "snd (readableLenLocked l (active l))" by (simp add: readableLenLocked_def active_def)
qed

end
