(* ===== verification/Wal_Recovery.thy ===== *)
theory Wal_Recovery
  imports Wal_Invariant
begin

text \<open>
  Opening a log (\<^verbatim>\<open>Open\<close> of \<^verbatim>\<open>log.go\<close>, \<^verbatim>\<open>discoverSegments\<close> of \<^verbatim>\<open>segment.go\<close>,
  \<^verbatim>\<open>recovery.go\<close>): find the segment files, scan every one of them, rebuild the counters and
  cut a torn tail off the active segment.  The recovery visitor is modelled by the list of records
  it is called with, in order.
\<close>

section \<open>Discovery\<close>

text \<open>
  \<^verbatim>\<open>fmt.Sscanf(name, "%06d.log", &idx)\<close>: the width 6 limits how many digits are read, leading
  blanks are skipped, and the literal tail must follow.
\<close>

definition sscanf_segment :: "string \<Rightarrow> nat option" where
  "sscanf_segment name =
     (let t = dropWhile (\<lambda>c. c = CHR '' '') name;
          d = takeWhile is_digit (take 6 t)
      in if d = [] \<or> take 4 (drop (length d) t) \<noteq> segmentExt then None else dec_value 0 d)"

definition has_suffix :: "string \<Rightarrow> string \<Rightarrow> bool" where
  "has_suffix s suf \<longleftrightarrow> length suf \<le> length s \<and> drop (length s - length suf) s = suf"

text \<open>Directory entries are (name, is-directory) pairs, as \<^verbatim>\<open>os.ReadDir\<close> lists them.\<close>

definition entry_index :: "string \<times> bool \<Rightarrow> u64 option" where
  "entry_index e =
     (if snd e \<or> \<not> has_suffix (fst e) segmentExt then None
      else case sscanf_segment (fst e) of
             None \<Rightarrow> None
           | Some n \<Rightarrow> (if segmentName (of_nat n) \<noteq> fst e then None else Some (of_nat n)))"

definition discover_indices :: "(string \<times> bool) list \<Rightarrow> u64 list" where
  "discover_indices es = sort (List.map_filter entry_index es)"

section \<open>Scanning\<close>

record scan_st =
  sc_localPos :: u64
  sc_localGood :: u64
  sc_firstID :: u64
  sc_saw :: bool
  sc_maxTs :: u64
  sc_maxVis :: u64
  sc_lastID :: u64
  sc_any :: bool
  sc_visited :: "wal_record list"

definition scan_record :: "wal_record \<Rightarrow> nat \<Rightarrow> scan_st \<Rightarrow> scan_st" where
  "scan_record r n a =
     a\<lparr>sc_localPos := sc_localPos a + of_nat n,
       sc_localGood := sc_localPos a + of_nat n,
       sc_firstID := (if \<not> sc_saw a then rec_MsgID r else sc_firstID a),
       sc_saw := True,
       sc_maxTs := (if rec_TsNs r > sc_maxTs a then rec_TsNs r else sc_maxTs a),
       sc_maxVis := (if rec_VisibleAtNs r > sc_maxVis a then rec_VisibleAtNs r else sc_maxVis a),
       sc_lastID := rec_MsgID r,
       sc_any := True,
       sc_visited := sc_visited a @ [r]\<rparr>"

text \<open>The decode loop of \<^verbatim>\<open>recoverSegment\<close>, up to the error that ends it.\<close>

function recover_loop :: "stream \<Rightarrow> scan_st \<Rightarrow> wal_err \<times> scan_st" where
  "recover_loop s a =
     (case Decode s of
        (Inl e, _) \<Rightarrow> (e, a)
      | (Inr (r, n), s') \<Rightarrow> recover_loop s' (scan_record r n a))"
  by pat_completeness auto
termination
  by (relation "measure (\<lambda>(s, a). length (sbuf s))")
     (auto dest!: sym [of _ "Decode _"] Decode_shrinks)

declare recover_loop.simps [simp del]

record open_io =
  oio_mkdir :: bool
  oio_readdir :: bool
  oio_open :: "u64 \<Rightarrow> bool"
  oio_ropen :: "u64 \<Rightarrow> bool"
  oio_read :: "u64 \<Rightarrow> stream_end"
  oio_trunc :: bool

definition open_ok :: open_io where
  "open_ok = \<lparr>oio_mkdir = True, oio_readdir = True, oio_open = (\<lambda>_. True),
              oio_ropen = (\<lambda>_. True), oio_read = (\<lambda>_. At_EOF), oio_trunc = True\<rparr>"

definition scan_init :: "u64 \<Rightarrow> bool \<Rightarrow> wal_record list \<Rightarrow> segment \<Rightarrow> scan_st" where
  "scan_init lastID anyRec visited seg =
     \<lparr>sc_localPos = 0, sc_localGood = 0, sc_firstID = 0, sc_saw = False,
      sc_maxTs = maxTsNs seg, sc_maxVis = maxVisibleAtNs seg,
      sc_lastID = lastID, sc_any = anyRec, sc_visited = visited\<rparr>"

text \<open>The result carries the scan state and the file's content after a possible truncation.\<close>

definition recoverSegment ::
    "open_io \<Rightarrow> segment \<Rightarrow> bool \<Rightarrow> u64 \<Rightarrow> bool \<Rightarrow> wal_record list \<Rightarrow> bytes \<Rightarrow>
     log_err + (scan_st \<times> bytes)" where
  "recoverSegment io seg isActive lastID anyRec visited content =
     (if \<not> oio_ropen io (seg_index seg) then Inl LE_Open
      else let (e, a) = recover_loop \<lparr>sbuf = content, send = oio_read io (seg_index seg)\<rparr>
                          (scan_init lastID anyRec visited seg)
        in case e of
             ErrEOF \<Rightarrow> Inr (a, content)
           | ErrIO m \<Rightarrow> Inl (LE_Read e)
           | _ \<Rightarrow>
               if \<not> isActive then Inl (LE_Corrupt (seg_path seg) e)
               else if \<not> oio_trunc io then Inl LE_Truncate
               else Inr (a, take (unat (sc_localGood a)) content))"

fun recover_segs ::
    "open_io \<Rightarrow> u64 \<Rightarrow> u64 \<Rightarrow> bool \<Rightarrow> wal_record list \<Rightarrow> segment list \<Rightarrow> (u64 \<Rightarrow> bytes) \<Rightarrow>
     log_err + (segment list \<times> u64 \<times> u64 \<times> bool \<times> wal_record list \<times> (u64 \<Rightarrow> bytes))" where
  "recover_segs io globalPos lastID anyRec visited [] d =
     Inr ([], globalPos, lastID, anyRec, visited, d)"
| "recover_segs io globalPos lastID anyRec visited (seg # ss) d =
     (case recoverSegment io seg (ss = []) lastID anyRec visited (d (seg_index seg)) of
        Inl e \<Rightarrow> Inl e
      | Inr (a, content) \<Rightarrow>
          let seg' = seg\<lparr>baseByteOffset := globalPos,
                         maxTsNs := sc_maxTs a, maxVisibleAtNs := sc_maxVis a,
                         baseMsgID := (if sc_saw a then sc_firstID a
                                       else if sc_any a then sc_lastID a + 1
                                       else baseMsgID seg)\<rparr>
          in (case recover_segs io (globalPos + sc_localGood a) (sc_lastID a) (sc_any a)
                     (sc_visited a) ss (d(seg_index seg := content)) of
                Inl e \<Rightarrow> Inl e
              | Inr (ss', rest) \<Rightarrow> Inr (seg' # ss', rest)))"

definition new_segment :: "u64 \<Rightarrow> segment" where
  "new_segment i = \<lparr>seg_index = i, seg_path = segmentName i, baseMsgID = 0, baseByteOffset = 0,
                    maxTsNs = 0, maxVisibleAtNs = 0\<rparr>"

text \<open>
  \<^verbatim>\<open>Open\<close>: \<open>entries\<close> and \<open>d\<close> are the directory and the file contents found on disk.
\<close>

definition Open ::
    "open_io \<Rightarrow> SyncMode \<Rightarrow> u64 \<Rightarrow> (string \<times> bool) list \<Rightarrow> (u64 \<Rightarrow> bytes) \<Rightarrow>
     log_err + (wlog \<times> wal_record list)" where
  "Open io mode segBytes entries d =
     (if \<not> oio_mkdir io then Inl LE_Mkdir
      else if \<not> oio_readdir io then Inl LE_ReadDir
      else let found = discover_indices entries;
               idxs = (if found = [] then [0] else found);
               d0 = (if found = [] then d(0 := []) else d)
        in if \<exists>i \<in> set idxs. \<not> oio_open io i then Inl LE_Open
           else case recover_segs io 0 0 False [] (map new_segment idxs) d0 of
                  Inl e \<Rightarrow> Inl e
                | Inr (ss, globalPos, lastID, anyRec, visited, d') \<Rightarrow>
                    Inr (\<lparr>segments = ss,
                          nextMsgID = (if anyRec then lastID + 1 else 0),
                          written = globalPos, committed = globalPos,
                          syncMode = mode, syncSeg = last idxs, syncCount = 0,
                          commitErr = False, segmentBytes = segBytes,
                          disk = d', synced = (\<lambda>i. length (d' i)), linked = idxs\<rparr>,
                         visited))"

section \<open>What a scan finds\<close>

definition scan_all :: "wal_record list \<Rightarrow> scan_st \<Rightarrow> scan_st" where
  "scan_all rs a = fold (\<lambda>r. scan_record r (length (frame r))) rs a"

lemma recover_loop_frames:
  "list_all encodable rs \<Longrightarrow>
   recover_loop \<lparr>sbuf = frames rs @ t, send = e\<rparr> a = recover_loop \<lparr>sbuf = t, send = e\<rparr> (scan_all rs a)"
proof (induction rs arbitrary: a)
  case Nil
  then show ?case by (simp add: scan_all_def)
next
  case (Cons r rs)
  then have "encodable r" by simp
  from Decode_frame [OF this, of "frames rs @ t" e] Cons show ?case
    by (simp add: recover_loop.simps [of "\<lparr>sbuf = frame r @ frames rs @ t, send = e\<rparr>"] scan_all_def)
qed

lemma scan_all_fields:
  "sc_visited (scan_all rs a) = sc_visited a @ rs"
  "sc_saw (scan_all rs a) \<longleftrightarrow> sc_saw a \<or> rs \<noteq> []"
  "sc_any (scan_all rs a) \<longleftrightarrow> sc_any a \<or> rs \<noteq> []"
  "sc_localPos (scan_all rs a) = sc_localPos a + of_nat (length (frames rs))"
  "sc_localGood (scan_all rs a) =
     (if rs = [] then sc_localGood a else sc_localPos a + of_nat (length (frames rs)))"
  "sc_lastID (scan_all rs a) = (if rs = [] then sc_lastID a else rec_MsgID (last rs))"
  "sc_firstID (scan_all rs a) =
     (if sc_saw a \<or> rs = [] then sc_firstID a else rec_MsgID (hd rs))"
  "sc_maxTs a = 0 \<Longrightarrow> sc_maxTs (scan_all rs a) = max_ts rs"
  "sc_maxVis a = 0 \<Longrightarrow> sc_maxVis (scan_all rs a) = max_vis rs"
  by (induction rs rule: rev_induct)
     (auto simp: scan_all_def scan_record_def add.assoc)

text \<open>How many whole frames fit into \<open>k\<close> bytes.\<close>

fun fit :: "nat \<Rightarrow> wal_record list \<Rightarrow> nat" where
  "fit k [] = 0"
| "fit k (r # rs) = (if length (frame r) \<le> k then Suc (fit (k - length (frame r)) rs) else 0)"

lemma fit_le: "fit k rs \<le> length rs"
  by (induction k rs rule: fit.induct) auto

lemma fit_ge: "length (frames (take m rs)) \<le> k \<Longrightarrow> m \<le> length rs \<Longrightarrow> m \<le> fit k rs"
proof (induction k rs arbitrary: m rule: fit.induct)
  case (1 k)
  then show ?case by simp
next
  case (2 k r rs)
  show ?case
  proof (cases m)
    case 0 then show ?thesis by simp
  next
    case (Suc j)
    with 2 show ?thesis by simp
  qed
qed

text \<open>Bytes that end a scan: nothing, or something no frame can be decoded from.\<close>

definition torn :: "bytes \<Rightarrow> bool" where
  "torn t \<longleftrightarrow>
     (case fst (Decode \<lparr>sbuf = t, send = At_EOF\<rparr>) of
        Inl ErrEOF \<Rightarrow> t = []
      | Inl ErrShortRead \<Rightarrow> True
      | Inl ErrBadCRC \<Rightarrow> True
      | Inl ErrTooLarge \<Rightarrow> True
      | _ \<Rightarrow> False)"

lemma torn_Nil [simp]: "torn []"
  by (simp add: torn_def Decode_def ReadFull_def)

lemma torn_take_frame: "encodable r \<Longrightarrow> k < length (frame r) \<Longrightarrow> torn (take k (frame r))"
  by (simp add: torn_def Decode_torn)

lemma take_frames_fit:
  "list_all encodable rs \<Longrightarrow> \<exists>t. take k (frames rs) = frames (take (fit k rs) rs) @ t \<and> torn t"
proof (induction k rs rule: fit.induct)
  case (1 k)
  then show ?case by simp
next
  case (2 k r rs)
  show ?case
  proof (cases "length (frame r) \<le> k")
    case True
    with 2 show ?thesis by auto
  next
    case False
    with 2 show ?thesis by (auto intro: torn_take_frame)
  qed
qed

lemma recover_loop_torn:
  "torn t \<Longrightarrow> \<exists>e. recover_loop \<lparr>sbuf = t, send = At_EOF\<rparr> a = (e, a) \<and>
      (e = ErrEOF \<and> t = [] \<or> e = ErrShortRead \<or> e = ErrBadCRC \<or> e = ErrTooLarge)"
  unfolding torn_def
  by (subst recover_loop.simps) (auto split: sum.splits prod.splits wal_err.splits)

text \<open>One segment: its whole frames are found, and a torn tail of the active segment is cut.\<close>

lemma recoverSegment_frames:
  assumes enc: "list_all encodable rs" and t: "torn t" and act: "act \<or> t = []"
    and io: "oio_ropen io (seg_index seg)" "oio_read io (seg_index seg) = At_EOF" "oio_trunc io"
    and len: "length (frames rs) < 2 ^ 64"
  shows "recoverSegment io seg act lastID anyRec vis (frames rs @ t) =
         Inr (scan_all rs (scan_init lastID anyRec vis seg), frames rs)"
proof -
  let ?a = "scan_all rs (scan_init lastID anyRec vis seg)"
  obtain e where loop: "recover_loop \<lparr>sbuf = t, send = At_EOF\<rparr> ?a = (e, ?a)"
    and e: "e = ErrEOF \<and> t = [] \<or> e = ErrShortRead \<or> e = ErrBadCRC \<or> e = ErrTooLarge"
    using recover_loop_torn [OF t] by blast
  have good: "unat (sc_localGood ?a) = length (frames rs)"
    using len by (auto simp: scan_all_fields scan_init_def unat_of_nat_u64)
  have nt: "t = [] \<Longrightarrow> e = ErrEOF"
  proof -
    assume "t = []"
    then show ?thesis using loop
      by (simp add: recover_loop.simps [of "\<lparr>sbuf = [], send = At_EOF\<rparr>"] Decode_def ReadFull_def)
  qed
  show ?thesis
    using io act e nt good loop
    by (auto simp: recoverSegment_def recover_loop_frames [OF enc])
qed

definition resume_point :: "bool \<Rightarrow> u64 \<Rightarrow> nat \<Rightarrow> wal_record list list \<Rightarrow> bool" where
  "resume_point anyRec lastID mid R \<longleftrightarrow>
     (if anyRec then Suc (unat lastID) = mid else hd R \<noteq> [] \<or> mid = 0)"

definition io_reads :: "open_io \<Rightarrow> u64 list \<Rightarrow> bool" where
  "io_reads io idxs \<longleftrightarrow>
     oio_trunc io \<and> (\<forall>i \<in> set idxs. oio_ropen io i \<and> oio_read io i = At_EOF)"

lemma rebuilt_segment:
  fixes vis :: "wal_record list" and gp :: u64
  assumes enc: "list_all encodable rs" and ids: "ids_from mid rs"
    and rp: "resume_point anyRec lastID mid (rs # R)"
    and b: "mid + length rs < 2 ^ 64" and d: "d i = frames rs"
  defines "a \<equiv> scan_all rs (scan_init lastID anyRec vis (new_segment i))"
  shows "seg_rel d (unat gp) mid
      ((new_segment i)\<lparr>baseByteOffset := gp, maxTsNs := sc_maxTs a, maxVisibleAtNs := sc_maxVis a,
        baseMsgID := (if sc_saw a then sc_firstID a else if sc_any a then sc_lastID a + 1
                      else baseMsgID (new_segment i))\<rparr>) rs"
    and "sc_any a \<longleftrightarrow> anyRec \<or> rs \<noteq> []"
    and "sc_any a \<Longrightarrow> Suc (unat (sc_lastID a)) = mid + length rs"
    and "sc_visited a = vis @ rs"
proof -
  note f = scan_all_fields [where rs = rs and a = "scan_init lastID anyRec vis (new_segment i)",
      folded a_def]
  have hd: "rs \<noteq> [] \<Longrightarrow> unat (rec_MsgID (hd rs)) = mid"
    using ids by (cases rs) auto
  have la: "rs \<noteq> [] \<Longrightarrow> Suc (unat (rec_MsgID (last rs))) = mid + length rs"
    using ids by (cases rs rule: rev_cases) auto
  have nx: "anyRec \<Longrightarrow> rs = [] \<Longrightarrow> unat (lastID + 1) = mid"
    using rp b by (subst unat_Suc_no_wrap) (auto simp: resume_point_def)
  show "seg_rel d (unat gp) mid
      ((new_segment i)\<lparr>baseByteOffset := gp, maxTsNs := sc_maxTs a, maxVisibleAtNs := sc_maxVis a,
        baseMsgID := (if sc_saw a then sc_firstID a else if sc_any a then sc_lastID a + 1
                      else baseMsgID (new_segment i))\<rparr>) rs"
    using enc ids d hd nx rp
    by (auto simp: seg_rel_def f scan_init_def new_segment_def resume_point_def)
  show "sc_any a \<longleftrightarrow> anyRec \<or> rs \<noteq> []" "sc_visited a = vis @ rs"
    by (simp_all add: f scan_init_def)
  show "sc_any a \<Longrightarrow> Suc (unat (sc_lastID a)) = mid + length rs"
    using la rp by (auto simp: f scan_init_def resume_point_def)
qed

text \<open>
  The whole directory: the sealed files hold whole frames, the last one whole frames and a torn
  tail.  The scan rebuilds segments that stand for exactly those records.
\<close>

lemma recover_segs_frames:
  assumes "length idxs = length R" "idxs \<noteq> []" "distinct idxs" "[] \<notin> set (butlast R)"
    and "list_all encodable (concat R)" "ids_from mid (concat R)"
    and "unat gp + length (frames (concat R)) < 2 ^ 64" "mid + length (concat R) < 2 ^ 64"
    and "\<And>j. Suc j < length R \<Longrightarrow> d (idxs ! j) = frames (R ! j)"
    and "d (last idxs) = frames (last R) @ t" "torn t"
    and "io_reads io idxs" "resume_point anyRec lastID mid R"
  shows "\<exists>ss lastID' any'.
     recover_segs io gp lastID anyRec vis (map new_segment idxs) d =
       Inr (ss, gp + of_nat (length (frames (concat R))), lastID', any', vis @ concat R,
            d(last idxs := frames (last R))) \<and>
     segs_rel (d(last idxs := frames (last R))) (unat gp) mid ss R \<and>
     map seg_index ss = idxs \<and> (any' \<longleftrightarrow> anyRec \<or> concat R \<noteq> []) \<and>
     (any' \<longrightarrow> Suc (unat lastID') = mid + length (concat R))"
  using assms
proof (induction idxs R arbitrary: gp lastID anyRec vis mid d rule: list_induct2)
  case Nil
  then show ?case by simp
next
  case (Cons i idxs rs R)
  let ?a = "scan_all rs (scan_init lastID anyRec vis (new_segment i))"
  have enc: "list_all encodable rs" and ids: "ids_from mid rs"
    and b: "mid + length rs < 2 ^ 64" and lf: "length (frames rs) < 2 ^ 64"
    and io: "oio_ropen io i" "oio_read io i = At_EOF" "oio_trunc io"
    using Cons.prems by (auto simp: io_reads_def)
  have rp: "resume_point anyRec lastID mid (rs # R)" using Cons.prems by simp
  have six: "seg_index (new_segment i) = i" by (simp add: new_segment_def)
  show ?case
  proof (cases "idxs = []")
    case True
    then have R: "R = []" using Cons.hyps by simp
    have d: "d i = frames rs @ t" using Cons.prems True R by simp
    have rec: "recoverSegment io (new_segment i) True lastID anyRec vis (frames rs @ t) =
        Inr (?a, frames rs)"
      using recoverSegment_frames [OF enc \<open>torn t\<close>, of True io "new_segment i" lastID anyRec vis]
        io lf by (simp add: six)
    have good: "sc_localGood ?a = of_nat (length (frames rs))"
      by (simp add: scan_all_fields scan_init_def)
    note rb = rebuilt_segment [where d = "d(i := frames rs)" and i = i and vis = vis,
        OF enc ids rp b fun_upd_same]
    define seg where "seg = (new_segment i)\<lparr>baseByteOffset := gp, maxTsNs := sc_maxTs ?a,
        maxVisibleAtNs := sc_maxVis ?a,
        baseMsgID := (if sc_saw ?a then sc_firstID ?a else if sc_any ?a then sc_lastID ?a + 1
                      else baseMsgID (new_segment i))\<rparr>"
    have sr: "seg_rel (d(i := frames rs)) (unat gp) mid seg rs" "seg_index seg = i"
      using rb(1) by (simp_all add: seg_def six)
    have step: "recover_segs io gp lastID anyRec vis [new_segment i] d =
        Inr ([seg], gp + of_nat (length (frames rs)), sc_lastID ?a, sc_any ?a, vis @ rs,
             d(i := frames rs))"
      unfolding seg_def
      by (simp only: recover_segs.simps six d rec sum.case prod.case Let_def good rb(4) simp_thms)
    have one: "segs_rel (d(i := frames rs)) (unat gp) mid [seg] [rs]" "map seg_index [seg] = [i]"
      using sr by simp_all
    have "last [i] = i" "concat [rs] = rs" "last [rs] = rs" "map new_segment [i] = [new_segment i]"
      by simp_all
    then show ?thesis
      using step one rb(2) rb(3)
      by (simp only: True R)
         (intro exI [of _ "[seg]"] exI [of _ "sc_lastID ?a"] exI [of _ "sc_any ?a"] conjI impI;
          simp only:)
  next
    case False
    then obtain i2 idxs' where ix: "idxs = i2 # idxs'" by (cases idxs) auto
    then obtain rs2 R' where R: "R = rs2 # R'" using Cons.hyps by (cases R) auto
    have d: "d i = frames rs @ []" using Cons.prems(8) [of 0] R by simp
    have rec: "recoverSegment io (new_segment i) False lastID anyRec vis (frames rs @ []) =
        Inr (?a, frames rs)"
      using recoverSegment_frames [OF enc torn_Nil, of False io "new_segment i" lastID anyRec vis]
        io lf by (simp add: six)
    have good: "sc_localGood ?a = of_nat (length (frames rs))"
      by (simp add: scan_all_fields scan_init_def)
    have ne: "rs \<noteq> []" using Cons.prems(3) R by (auto split: if_splits)
    note rb = rebuilt_segment [where d = "d(last idxs := frames (last R))" and i = i and vis = vis,
        OF enc ids rp b]
    have i_ne: "i \<noteq> last idxs" using Cons.prems(2) False by auto
    let ?gp = "gp + of_nat (length (frames rs))"
    have ugp: "unat ?gp = unat gp + length (frames rs)"
      using Cons.prems(6) by (intro unat_add_of_nat) simp
    have any: "sc_any ?a" and last: "Suc (unat (sc_lastID ?a)) = mid + length rs"
      using rb(2,3) d i_ne ne by auto
    have "\<exists>ss lastID' any'.
       recover_segs io ?gp (sc_lastID ?a) (sc_any ?a) (vis @ rs) (map new_segment idxs) d =
         Inr (ss, ?gp + of_nat (length (frames (concat R))), lastID', any', (vis @ rs) @ concat R,
              d(last idxs := frames (last R))) \<and>
       segs_rel (d(last idxs := frames (last R))) (unat ?gp) (mid + length rs) ss R \<and>
       map seg_index ss = idxs \<and> (any' \<longleftrightarrow> sc_any ?a \<or> concat R \<noteq> []) \<and>
       (any' \<longrightarrow> Suc (unat lastID') = mid + length rs + length (concat R))"
    proof (rule Cons.IH)
      fix j assume "Suc j < length R"
      then show "d (idxs ! j) = frames (R ! j)" using Cons.prems(8) [of "Suc j"] by simp
    qed (use Cons.prems ugp any last R ix in
          \<open>auto simp: io_reads_def resume_point_def\<close>)
    then obtain ss lastID' any' where IH:
       "recover_segs io ?gp (sc_lastID ?a) (sc_any ?a) (vis @ rs) (map new_segment idxs) d =
         Inr (ss, ?gp + of_nat (length (frames (concat R))), lastID', any', (vis @ rs) @ concat R,
              d(last idxs := frames (last R)))"
       "segs_rel (d(last idxs := frames (last R))) (unat ?gp) (mid + length rs) ss R"
       "map seg_index ss = idxs" "any' \<longleftrightarrow> sc_any ?a \<or> concat R \<noteq> []"
       "any' \<longrightarrow> Suc (unat lastID') = mid + length rs + length (concat R)"
      by blast
    have triv: "d(i := frames rs) = d" using d by auto
    define seg where "seg = (new_segment i)\<lparr>baseByteOffset := gp, maxTsNs := sc_maxTs ?a,
        maxVisibleAtNs := sc_maxVis ?a,
        baseMsgID := (if sc_saw ?a then sc_firstID ?a else if sc_any ?a then sc_lastID ?a + 1
                      else baseMsgID (new_segment i))\<rparr>"
    have sr: "seg_rel (d(last idxs := frames (last R))) (unat gp) mid seg rs" "seg_index seg = i"
      using rb(1) d i_ne by (simp_all add: seg_def six)
    have vis: "sc_visited ?a = vis @ rs" using rb(4) d i_ne by simp
    have ns: "(map new_segment idxs = []) = False" using False by simp
    have step: "recover_segs io gp lastID anyRec vis (map new_segment (i # idxs)) d =
        Inr (seg # ss, ?gp + of_nat (length (frames (concat R))), lastID', any',
             (vis @ rs) @ concat R, d(last idxs := frames (last R)))"
      unfolding seg_def
      by (simp only: list.map recover_segs.simps six d ns rec sum.case prod.case Let_def good vis
          triv IH(1))
    have "segs_rel (d(last idxs := frames (last R))) (unat gp) mid (seg # ss) (rs # R)"
      "map seg_index (seg # ss) = i # idxs"
      using sr IH(2,3) by (simp_all add: ugp)
    moreover have "last (i # idxs) = last idxs" "last (rs # R) = last R" using False R by simp_all
    moreover have "gp + of_nat (length (frames (concat (rs # R)))) =
        ?gp + of_nat (length (frames (concat R)))" "vis @ concat (rs # R) = (vis @ rs) @ concat R"
      by (simp_all add: add.assoc)
    moreover have "any' \<longleftrightarrow> anyRec \<or> concat (rs # R) \<noteq> []" using IH(4) any ne by simp
    moreover have "any' \<longrightarrow> Suc (unat lastID') = mid + length (concat (rs # R))"
      using IH(5) by simp
    ultimately show ?thesis
      using step
      by (intro exI [of _ "seg # ss"] exI [of _ lastID'] exI [of _ any'] conjI) (simp_all only:)
  qed
qed

text \<open>
  Opening a directory whose files are whole frames, but for a torn tail of the newest one, yields a
  log that stands for exactly those records, fully committed; the visitor has seen them in order.
\<close>

lemma Open_frames:
  assumes idx: "discover_indices entries = idxs" "idxs \<noteq> []" "sorted_wrt (<) idxs"
    and len: "length idxs = length R" and ne: "[] \<notin> set (butlast R)"
    and enc: "list_all encodable (concat R)" and ids: "ids_from mid (concat R)"
    and bytes: "length (frames (concat R)) < 2 ^ 64" and msgs: "mid + length (concat R) < 2 ^ 64"
    and sealed: "\<And>j. Suc j < length R \<Longrightarrow> d (idxs ! j) = frames (R ! j)"
    and tail: "d (last idxs) = frames (last R) @ t" "torn t"
    and start: "hd R \<noteq> [] \<or> mid = 0"
  shows "\<exists>l. Open open_ok mode sb entries d = Inr (l, concat R) \<and> log_rel l R \<and>
     commit_at l R (length (last R)) \<and> log_floor l = mid \<and>
     map seg_index (segments l) = idxs \<and> disk l = d(last idxs := frames (last R)) \<and>
     syncMode l = mode \<and> segmentBytes l = sb \<and> (\<forall>i. synced l i = length (disk l i)) \<and>
     \<not> commitErr l \<and> linked l = idxs"
proof -
  have dist: "distinct idxs" using idx(3) strict_sorted_iff by blast
  have rp: "resume_point False 0 mid R" using start by (simp add: resume_point_def)
  have io: "io_reads open_ok idxs" by (simp add: io_reads_def open_ok_def)
  obtain ss lastID' any' where rec:
     "recover_segs open_ok 0 0 False [] (map new_segment idxs) d =
       Inr (ss, of_nat (length (frames (concat R))), lastID', any', concat R,
            d(last idxs := frames (last R)))"
     and rel: "segs_rel (d(last idxs := frames (last R))) 0 mid ss R"
     and six: "map seg_index ss = idxs" and any: "any' \<longleftrightarrow> concat R \<noteq> []"
     and lst: "any' \<longrightarrow> Suc (unat lastID') = mid + length (concat R)"
    using recover_segs_frames [OF len idx(2) dist ne enc ids _ msgs sealed tail io rp,
        where gp = 0 and vis = "[]"] bytes by auto
  define l where "l = \<lparr>segments = ss, nextMsgID = (if any' then lastID' + 1 else 0),
      written = of_nat (length (frames (concat R))), committed = of_nat (length (frames (concat R))),
      syncMode = mode, syncSeg = last idxs, syncCount = 0, commitErr = False, segmentBytes = sb,
      disk = d(last idxs := frames (last R)),
      synced = (\<lambda>i. length ((d(last idxs := frames (last R))) i)), linked = idxs\<rparr>"
  have op: "Open open_ok mode sb entries d = Inr (l, concat R)"
    using idx by (simp add: Open_def open_ok_def rec [unfolded open_ok_def] l_def Let_def)
  have nn: "ss \<noteq> []" "R \<noteq> []" using six idx(2) len by auto
  obtain s ss' where ss: "ss = s # ss'" using nn(1) by (cases ss) auto
  obtain rs R' where R: "R = rs # R'" using nn(2) by (cases R) auto
  have off: "log_off l = 0" and fl: "log_floor l = mid"
    using rel by (simp_all add: log_off_def log_floor_def l_def ss R seg_rel_def)
  have next_id: "unat (nextMsgID l) = mid + length (concat R)"
  proof (cases "concat R = []")
    case True
    then have "mid = 0" using start R by auto
    with True any show ?thesis by (simp add: l_def)
  next
    case False
    then have "unat (lastID' + 1) = Suc (unat lastID')"
      using lst any msgs by (intro unat_Suc_no_wrap) simp
    with False any lst show ?thesis by (simp add: l_def)
  qed
  have top: "\<forall>i \<in> set idxs. i \<le> last idxs"
  proof
    fix i assume "i \<in> set idxs"
    then have "i \<in> set (butlast idxs @ [last idxs])" using idx(2) by simp
    moreover have "sorted_wrt (<) (butlast idxs @ [last idxs])" using idx by simp
    ultimately show "i \<le> last idxs" by (auto simp: sorted_wrt_append simp del: append_butlast_last_id)
  qed
  have set_six: "seg_index ` set ss = set idxs" and last_six: "seg_index (last ss) = last idxs"
    using six nn(1) by (metis set_map, metis last_map)
  have lr: "log_rel l R"
    unfolding log_rel_def off fl
    using nn rel bytes next_id ne idx(3) six set_six last_six top
    by (simp add: l_def unat_of_nat_u64)
  have "commit_at l R (length (last R))" by (rule commit_all [OF lr]) (simp add: l_def)
  with op lr fl six show ?thesis by (auto simp: l_def)
qed

section \<open>Which files are discovered\<close>

lemma length_dec_le: "0 < k \<Longrightarrow> n < 10 ^ k \<Longrightarrow> length (dec n) \<le> k"
proof (induction n arbitrary: k rule: dec.induct)
  case (1 n)
  show ?case
  proof (cases "n < 10")
    case True
    with 1 show ?thesis by (simp add: dec.simps [of n])
  next
    case False
    then have k: "1 < k" using 1(2,3) by (cases k) (auto simp: less_Suc_eq)
    then obtain j where j: "k = Suc j" "0 < j" by (cases k) auto
    have "n div 10 < 10 ^ j" using 1(3) j by (simp add: less_mult_imp_div_less)
    with 1(1) [OF False j(2)] False j show ?thesis by (simp add: dec.simps [of n])
  qed
qed

lemma length_dec_ge: "10 ^ k \<le> n \<Longrightarrow> k < length (dec n)"
proof (induction n arbitrary: k rule: dec.induct)
  case (1 n)
  show ?case
  proof (cases k)
    case 0
    then show ?thesis using dec_not_Nil [of n] by (simp del: dec_not_Nil)
  next
    case (Suc j)
    then have "\<not> n < 10" using 1(2) by (metis le_trans less_Suc_eq_0_disj not_le
          one_le_power power_Suc mult.commute mult_le_mono1 nat_mult_1 one_le_numeral)
    moreover have "10 ^ j \<le> n div 10" using 1(2) Suc by (simp add: less_eq_div_iff_mult_less_eq)
    ultimately show ?thesis using 1(1) Suc by (simp add: dec.simps [of n])
  qed
qed

lemma dec_value_zeros: "dec_value 0 (replicate k (CHR ''0'') @ d) = dec_value 0 d"
  by (induction k) (simp_all add: is_digit_def)

lemma takeWhile_all_append:
  "(\<And>c. c \<in> set xs \<Longrightarrow> P c) \<Longrightarrow> takeWhile P xs = xs"
  by (simp add: takeWhile_eq_all_conv)

lemma entry_index_segmentName:
  assumes "unat i < 10 ^ 6"
  shows "entry_index (segmentName i, False) = Some i"
proof -
  define p where "p = replicate (6 - length (dec (unat i))) (CHR ''0'') @ dec (unat i)"
  have name: "segmentName i = p @ segmentExt" by (simp add: segmentName_def p_def Let_def)
  have len: "length p = 6"
    using length_dec_le [of 6 "unat i"] assms by (simp add: p_def)
  have dig: "\<And>c. c \<in> set p \<Longrightarrow> is_digit c"
    by (auto simp: p_def is_digit_def dest: dec_digits [unfolded is_digit_def])
  have "p \<noteq> []" using len by auto
  then obtain c cs where p: "p = c # cs" by (cases p) auto
  have "is_digit c" using dig p by simp
  then have "c \<noteq> CHR '' ''" by (auto simp: is_digit_def)
  then have nb: "dropWhile (\<lambda>c. c = CHR '' '') (p @ segmentExt) = p @ segmentExt" by (simp add: p)
  have tk: "takeWhile is_digit (take 6 (p @ segmentExt)) = p"
    using len dig by (simp add: takeWhile_all_append)
  have "sscanf_segment (segmentName i) = Some (unat i)"
    unfolding sscanf_segment_def name nb Let_def tk
    using len \<open>p \<noteq> []\<close> by (simp add: segmentExt_def p_def dec_value_zeros dec_value_dec)
  moreover have "has_suffix (segmentName i) segmentExt" by (simp add: name has_suffix_def)
  ultimately show ?thesis by (simp add: entry_index_def)
qed

text \<open>
  From index one million on, the width of the scan cuts the name: such a file is never found.
\<close>

lemma entry_index_wide:
  assumes "10 ^ 6 \<le> unat i"
  shows "entry_index (segmentName i, False) = None"
proof -
  define p where "p = dec (unat i)"
  have len: "6 < length p" using length_dec_ge [OF assms] by (simp add: p_def)
  have name: "segmentName i = p @ segmentExt" using len by (simp add: segmentName_def p_def Let_def)
  have dig: "\<And>c. c \<in> set p \<Longrightarrow> is_digit c" by (auto simp: p_def dest: dec_digits)
  obtain c cs where p: "p = c # cs" using len by (cases p) auto
  have "is_digit c" using dig p by simp
  then have "c \<noteq> CHR '' ''" by (auto simp: is_digit_def)
  then have nb: "dropWhile (\<lambda>c. c = CHR '' '') (p @ segmentExt) = p @ segmentExt" by (simp add: p)
  have tk: "takeWhile is_digit (take 6 (p @ segmentExt)) = take 6 p"
    using len dig by (auto simp: takeWhile_all_append dest: in_set_takeD)
  have "is_digit (p ! 6)" using dig len by simp
  then have "p ! 6 \<noteq> CHR ''.''" by (auto simp: is_digit_def)
  moreover have "hd (take 4 (drop 6 (p @ segmentExt))) = p ! 6"
    using len by (simp add: hd_drop_conv_nth)
  ultimately have "take 4 (drop 6 (p @ segmentExt)) \<noteq> segmentExt"
    by (auto simp: segmentExt_def)
  then have "sscanf_segment (segmentName i) = None"
    unfolding sscanf_segment_def name nb Let_def tk using len by simp
  then show ?thesis by (simp add: entry_index_def)
qed

text \<open>The directory listing a log leaves behind, and what is discovered in it.\<close>

definition log_entries :: "wlog \<Rightarrow> (string \<times> bool) list" where
  "log_entries l = map (\<lambda>i. (segmentName i, False)) (sort (linked l))"

lemma discover_log_entries:
  assumes "\<forall>i \<in> set (linked l). unat i < 10 ^ 6"
  shows "discover_indices (log_entries l) = sort (linked l)"
proof -
  have "List.map_filter entry_index (map (\<lambda>i. (segmentName i, False)) is) = is"
    if "\<forall>i \<in> set is. unat i < 10 ^ 6" for "is"
    using that by (induction "is") (simp_all add: map_filter_simps entry_index_segmentName)
  from this [of "sort (linked l)"] show ?thesis
    using assms by (simp add: discover_indices_def log_entries_def sorted_sort_id)
qed

end
