(* ===== verification/Wal_Durability.thy ===== *)
theory Wal_Durability
  imports Wal_Recovery "HOL-Library.Sublist"
begin

text \<open>
  The log as a concurrent state machine: appends, the group committer's flush in its three atomic
  parts, and retention interleave in any order, every system call but a log write may fail, and the
  process may crash at any point.  A crash keeps of every file a prefix that contains at least the
  bytes an \<^verbatim>\<open>fsync\<close> has covered.  The step relation refines an abstract log (a list of
  records with a commit mark), every committed byte is durable, and reopening after a crash yields
  the committed records.
\<close>

section \<open>Steps\<close>

text \<open>Where the committer is: idle, holding its snapshot, or between \<^verbatim>\<open>fsync\<close> and publication.\<close>

datatype flush_pc = F_Idle | F_Snap u64 u64 | F_Synced u64

type_synonym wal_sys = "wlog \<times> flush_pc"

inductive wal_step :: "wal_sys \<Rightarrow> wal_sys \<Rightarrow> bool" where
  ws_append: "io_write io = None \<Longrightarrow> log_room l r \<Longrightarrow> Append io r l = (res, l') \<Longrightarrow>
    wal_step (l, f) (l', f)"
| ws_begin: "flush_begin l = Some (snap, i) \<Longrightarrow> wal_step (l, F_Idle) (l, F_Snap snap i)"
| ws_sync: "wal_step (l, F_Snap snap i) (fsync i l, F_Synced snap)"
| ws_publish: "wal_step (l, F_Synced snap) (flush_end True snap l, F_Idle)"
| ws_fail: "wal_step (l, F_Snap snap i) (flush_end False snap l, F_Idle)"
| ws_drop: "DropSegmentsBefore (\<lambda>_. False) k l = (res, l') \<Longrightarrow> wal_step (l, f) (l', f)"

inductive_cases wal_stepE: "wal_step (l, f) s'"

text \<open>What a crash leaves of the files.\<close>

definition crash_image :: "wlog \<Rightarrow> (u64 \<Rightarrow> bytes) \<Rightarrow> bool" where
  "crash_image l d \<longleftrightarrow>
     (\<forall>i. \<exists>k. synced l i \<le> k \<and> d i = take k (disk l i))"

text \<open>The records a scan finds in a file, and the records a log retains and has committed.\<close>

definition records_of :: "bytes \<Rightarrow> wal_record list" where
  "records_of bs =
     sc_visited (snd (recover_loop \<lparr>sbuf = bs, send = At_EOF\<rparr> (scan_init 0 False [] (new_segment 0))))"

definition retained_records :: "wlog \<Rightarrow> wal_record list" where
  "retained_records l = concat (map (\<lambda>s. records_of (disk l (seg_index s))) (segments l))"

definition committed_records :: "wlog \<Rightarrow> wal_record list" where
  "committed_records l =
     concat (map (\<lambda>s. records_of (take (unat (fst (readableLenLocked l s))) (disk l (seg_index s))))
                 (segments l))"

section \<open>The abstract log\<close>

record alog =
  a_floor :: nat
  a_off :: nat
  a_recs :: "wal_record list"
  a_commit :: nat

inductive alog_step :: "alog \<Rightarrow> alog \<Rightarrow> bool" where
  as_append: "unat (rec_MsgID r) = a_floor a + length (a_recs a) \<Longrightarrow>
    alog_step a (a\<lparr>a_recs := a_recs a @ [r]\<rparr>)"
| as_commit: "a_commit a \<le> n \<Longrightarrow> n \<le> length (a_recs a) \<Longrightarrow> alog_step a (a\<lparr>a_commit := n\<rparr>)"
| as_drop: "k \<le> a_commit a \<Longrightarrow>
    alog_step a \<lparr>a_floor = a_floor a + k, a_off = a_off a + length (frames (take k (a_recs a))),
                 a_recs = drop k (a_recs a), a_commit = a_commit a - k\<rparr>"

text \<open>Record \<open>r\<close> with MsgID \<open>mid\<close> ends at byte offset \<open>e\<close>, unless it has been dropped.\<close>

definition ends_at :: "nat \<Rightarrow> nat \<Rightarrow> wal_record \<Rightarrow> alog \<Rightarrow> bool" where
  "ends_at mid e r a \<longleftrightarrow>
     mid < a_floor a \<or>
     (mid - a_floor a < length (a_recs a) \<and> a_recs a ! (mid - a_floor a) = r \<and>
      e = a_off a + length (frames (take (Suc (mid - a_floor a)) (a_recs a))))"

lemma take_split_drop: "k \<le> j \<Longrightarrow> take j xs = take k xs @ take (j - k) (drop k xs)"
  by (metis le_add_diff_inverse take_add)

lemma ends_at_step:
  assumes "alog_step a b" "ends_at mid e r a" "a_commit a \<le> length (a_recs a)"
  shows "ends_at mid e r b" and "a_commit b \<le> length (a_recs b)"
proof -
  show "ends_at mid e r b"
    using assms
  proof (induction rule: alog_step.induct)
    case (as_drop k a)
    show ?case
    proof (cases "mid < a_floor a + k")
      case True
      then show ?thesis by (simp add: ends_at_def)
    next
      case False
      then have le: "k \<le> Suc (mid - a_floor a)" "k \<le> mid - a_floor a" by simp_all
      have eq: "Suc (mid - a_floor a) - k = Suc (mid - (a_floor a + k))" using False by simp
      have "length (frames (take (Suc (mid - a_floor a)) (a_recs a))) =
          length (frames (take k (a_recs a))) +
          length (frames (take (Suc (mid - (a_floor a + k))) (drop k (a_recs a))))"
        by (simp add: take_split_drop [OF le(1)] eq)
      with as_drop False le show ?thesis
        by (auto simp: ends_at_def)
    qed
  qed (auto simp: ends_at_def nth_append)
  show "a_commit b \<le> length (a_recs b)"
    using assms(1,3) by (induction rule: alog_step.induct) auto
qed

lemma ends_at_steps:
  assumes "alog_step\<^sup>*\<^sup>* a b" "ends_at mid e r a" "a_commit a \<le> length (a_recs a)"
  shows "ends_at mid e r b \<and> a_commit b \<le> length (a_recs b)"
  using assms by (induction rule: rtranclp_induct) (auto dest: ends_at_step)

section \<open>The invariant\<close>

definition boundary :: "wlog \<Rightarrow> wal_record list list \<Rightarrow> u64 \<Rightarrow> nat \<Rightarrow> bool" where
  "boundary l R c m \<longleftrightarrow>
     m \<le> length (last R) \<and>
     unat c = unat (baseByteOffset (active l)) + length (frames (take m (last R)))"

lemma active_base:
  "log_rel l R \<Longrightarrow>
   unat (baseByteOffset (active l)) = log_off l + length (frames (concat (butlast R)))"
  using log_rel_split(3) by (simp add: seg_rel_def)

lemma commit_at_boundary: "log_rel l R \<Longrightarrow> commit_at l R m \<longleftrightarrow> boundary l R (committed l) m"
  by (simp add: commit_at_def boundary_def active_base add.assoc)

definition durable :: "wlog \<Rightarrow> wal_record list list \<Rightarrow> nat \<Rightarrow> bool" where
  "durable l R m \<longleftrightarrow>
     (\<forall>s \<in> set (butlast (segments l)). synced l (seg_index s) = length (disk l (seg_index s))) \<and>
     length (frames (take m (last R))) \<le> synced l (seg_index (active l)) \<and>
     synced l (seg_index (active l)) \<le> length (disk l (seg_index (active l)))"

fun pc_ok :: "wlog \<Rightarrow> wal_record list list \<Rightarrow> flush_pc \<Rightarrow> bool" where
  "pc_ok l R F_Idle = True"
| "pc_ok l R (F_Snap snap i) \<longleftrightarrow>
     snap \<le> committed l \<or> (i = seg_index (active l) \<and> (\<exists>k. boundary l R snap k))"
| "pc_ok l R (F_Synced snap) \<longleftrightarrow>
     snap \<le> committed l \<or>
     (\<exists>k. boundary l R snap k \<and>
          length (frames (take k (last R))) \<le> synced l (seg_index (active l)))"

definition wal_inv :: "wlog \<Rightarrow> flush_pc \<Rightarrow> wal_record list list \<Rightarrow> nat \<Rightarrow> bool" where
  "wal_inv l f R m \<longleftrightarrow>
     log_rel l R \<and> commit_at l R m \<and> durable l R m \<and> pc_ok l R f \<and>
     syncMode l \<noteq> SyncNone \<and> linked l = map seg_index (segments l)"

definition abs_log :: "wlog \<Rightarrow> wal_record list list \<Rightarrow> nat \<Rightarrow> alog" where
  "abs_log l R m = \<lparr>a_floor = log_floor l, a_off = log_off l, a_recs = concat R,
                   a_commit = length (concat (butlast R)) + m\<rparr>"

text \<open>
  What a step keeps of the segments: some of the oldest go, the others keep their place, and their
  record lists only grow.
\<close>

definition log_grows ::
    "nat \<Rightarrow> wlog \<Rightarrow> wal_record list list \<Rightarrow> wlog \<Rightarrow> wal_record list list \<Rightarrow> bool" where
  "log_grows n l R l' R' \<longleftrightarrow>
     length R \<le> n + length R' \<and>
     (\<forall>j. n + j < length R \<longrightarrow>
        seg_index (segments l' ! j) = seg_index (segments l ! (n + j)) \<and>
        baseByteOffset (segments l' ! j) = baseByteOffset (segments l ! (n + j)) \<and>
        baseMsgID (segments l' ! j) = baseMsgID (segments l ! (n + j)) \<and>
        prefix (R ! (n + j)) (R' ! j))"

lemma log_grows_same: "segments l' = segments l \<Longrightarrow> log_grows 0 l R l' R"
  by (simp add: log_grows_def)

lemma log_grows_trans:
  "log_grows 0 l R l1 R1 \<Longrightarrow> log_grows 0 l1 R1 l2 R2 \<Longrightarrow> log_grows 0 l R l2 R2"
  unfolding log_grows_def by (auto intro: prefix_order.trans)

lemma log_grows_stored:
  assumes "log_rel l R"
  shows "log_grows 0 l R (stored r l) (butlast R @ [last R @ [r]])"
  unfolding log_grows_def
proof (intro conjI allI impI)
  have nn: "segments l \<noteq> []" "R \<noteq> []" and len: "length (segments l) = length R"
    using log_rel_not_Nil [OF assms] log_rel_length [OF assms] by simp_all
  then show "length R \<le> 0 + length (butlast R @ [last R @ [r]])" by simp
  fix j assume j: "0 + j < length R"
  show "seg_index (segments (stored r l) ! j) = seg_index (segments l ! (0 + j))"
    "baseByteOffset (segments (stored r l) ! j) = baseByteOffset (segments l ! (0 + j))"
    "baseMsgID (segments (stored r l) ! j) = baseMsgID (segments l ! (0 + j))"
    "prefix (R ! (0 + j)) ((butlast R @ [last R @ [r]]) ! j)"
    using j nn len
    by (cases "Suc j = length R";
        auto simp: nth_append nth_butlast active_def last_conv_nth dest: sym [of "Suc j"])+
qed

lemma log_grows_rotated: "log_rel l R \<Longrightarrow> log_grows 0 l R (rotated l) (R @ [[]])"
  unfolding log_grows_def by (auto simp: rotated_def Let_def nth_append dest: log_rel_length)

lemma log_grows_drop:
  "log_rel l R \<Longrightarrow> segments l' = drop n (segments l) \<Longrightarrow> log_grows n l R l' (drop n R)"
  unfolding log_grows_def by (auto dest: log_rel_length)

lemma frames_take_less:
  "length (frames (take i rs)) < length (frames (take j rs)) \<Longrightarrow> i < j"
proof (rule ccontr)
  assume a: "length (frames (take i rs)) < length (frames (take j rs))" and "\<not> i < j"
  then have "take i rs = take j rs @ take (i - j) (drop j rs)" by (simp add: take_split_drop)
  with a show False by simp
qed

lemma frames_take_le:
  "i \<le> j \<Longrightarrow> length (frames (take i rs)) \<le> length (frames (take j rs))"
  by (simp add: take_split_drop [of i j])

lemma wal_inv_commit_le: "wal_inv l f R m \<Longrightarrow> a_commit (abs_log l R m) \<le> length (a_recs (abs_log l R m))"
proof -
  assume "wal_inv l f R m"
  then have "log_rel l R" "m \<le> length (last R)" by (simp_all add: wal_inv_def commit_at_def)
  then show ?thesis using concat_snoc [of R] log_rel_not_Nil [of l R] by (simp add: abs_log_def)
qed

section \<open>Every step keeps the invariant and refines the abstract log\<close>

lemma boundary_le_written:
  assumes "log_rel l R" "boundary l R c k"
  shows "c \<le> written l"
proof -
  have "unat (written l) = unat (baseByteOffset (active l)) + length (frames (last R))"
    using active_local_size [OF assms(1)] unat_diff_no_wrap [of "baseByteOffset (active l)" "written l"]
    by (simp add: u64_le_iff)
  moreover have "length (frames (take k (last R))) \<le> length (frames (last R))"
    using frames_take_le [of k "length (last R)" "last R"] assms(2) by (simp add: boundary_def)
  ultimately show ?thesis using assms(2) by (simp add: boundary_def u64_le_iff)
qed

lemma pc_ok_committed:
  "log_rel l R \<Longrightarrow> committed l' = written l \<Longrightarrow> pc_ok l R f \<Longrightarrow> commit_at l R m \<Longrightarrow> pc_ok l' R' f"
proof -
  assume rel: "log_rel l R" and c: "committed l' = written l" and pc: "pc_ok l R f"
    and cm: "commit_at l R m"
  have "committed l \<le> written l" using commit_le_written [OF rel cm] .
  then show ?thesis
    using pc c boundary_le_written [OF rel] by (cases f) (auto intro: order.trans)
qed

lemma active_stored [simp]: "active (stored r l) = note_record r (active l)"
  by (simp add: active_def)

lemma disk_stored:
  "disk (stored r l) i =
     (if i = seg_index (active l) then disk l i @ frame r else disk l i)"
  by (simp add: stored_def)

lemma wal_inv_stored:
  assumes inv: "wal_inv l f R m" and enc: "encodable r" and id: "rec_MsgID r = nextMsgID l"
    and w: "unat (written l) + length (frame r) < 2 ^ 64"
    and n: "Suc (unat (nextMsgID l)) < 2 ^ 64"
  defines "R' \<equiv> butlast R @ [last R @ [r]]"
  shows "wal_inv (stored r l) f R' m" and "alog_step (abs_log l R m) (abs_log (stored r l) R' m)"
proof -
  have rel: "log_rel l R" and c: "commit_at l R m" and d: "durable l R m" and pc: "pc_ok l R f"
    and md: "syncMode l \<noteq> SyncNone" and lk: "linked l = map seg_index (segments l)"
    using inv by (simp_all add: wal_inv_def)
  have nn: "segments l \<noteq> []" "R \<noteq> []" using log_rel_not_Nil [OF rel] by simp_all
  have mle: "m \<le> length (last R)" using c by (simp add: commit_at_def)
  have six: "s \<in> set (butlast (segments l)) \<Longrightarrow> seg_index s \<noteq> seg_index (active l)" for s
    using log_rel_sealed_index [OF rel] by fastforce
  have bd: "boundary l R s k \<Longrightarrow> boundary (stored r l) R' s k \<and> take k (last R') = take k (last R)" for s k
    by (auto simp: boundary_def R'_def)
  have "durable (stored r l) R' m"
    using d mle six by (auto simp: durable_def disk_stored R'_def)
  moreover have "pc_ok (stored r l) R' f"
  proof (cases f)
    case (F_Snap s i) then show ?thesis using pc bd by auto
  next
    case (F_Synced s) then show ?thesis using pc bd by fastforce
  qed simp
  moreover have "linked (stored r l) = map seg_index (segments (stored r l))"
  proof -
    have "map seg_index (butlast (segments l) @ [last (segments l)]) = map seg_index (segments l)"
      using nn by simp
    then show ?thesis using lk by (simp add: active_def)
  qed
  ultimately show "wal_inv (stored r l) f R' m"
    using log_rel_stored [OF rel enc id w n] commit_at_stored [OF rel c] md
    by (simp add: wal_inv_def R'_def)
  have "concat R' = concat R @ [r]" using nn concat_snoc [of R] by (simp add: R'_def)
  moreover have "unat (rec_MsgID r) = log_floor l + length (concat R)"
    using rel id by (simp add: log_rel_def)
  moreover have "butlast R' = butlast R" by (simp add: R'_def)
  ultimately show "alog_step (abs_log l R m) (abs_log (stored r l) R' m)"
    using as_append [of r "abs_log l R m"] nn by (simp add: abs_log_def)
qed

lemma abs_commit_step:
  assumes "wal_inv l f R m" "m \<le> k" "k \<le> length (last R)"
    and "log_floor l' = log_floor l" "log_off l' = log_off l"
  shows "alog_step (abs_log l R m) (abs_log l' R k)"
proof -
  have "R \<noteq> []" using assms(1) log_rel_not_Nil [of l R] by (simp add: wal_inv_def)
  then have "length (concat (butlast R)) + k \<le> length (concat R)"
    using assms(3) concat_snoc [of R] by simp
  with as_commit [of "abs_log l R m" "length (concat (butlast R)) + k"] assms
  show ?thesis by (simp add: abs_log_def)
qed

lemma wal_inv_commit_all:
  fixes n :: u64
  assumes inv: "wal_inv l f R m"
  defines "l' \<equiv> (fsync (seg_index (active l)) l)\<lparr>syncCount := n, committed := written l\<rparr>"
  shows "wal_inv l' f R (length (last R))"
    and "alog_step (abs_log l R m) (abs_log l' R (length (last R)))"
proof -
  have rel: "log_rel l R" and c: "commit_at l R m" and d: "durable l R m" and pc: "pc_ok l R f"
    and md: "syncMode l \<noteq> SyncNone" and lk: "linked l = map seg_index (segments l)"
    using inv by (simp_all add: wal_inv_def)
  have disk: "disk l (seg_index (active l)) = frames (last R)"
    using log_rel_split(3) [OF rel] by (simp add: seg_rel_def)
  have rel': "log_rel l' R" using rel by (simp add: l'_def)
  moreover have "commit_at l' R (length (last R))"
    by (rule commit_all [OF rel']) (simp add: l'_def)
  moreover have "durable l' R (length (last R))"
    using d disk by (auto simp: durable_def l'_def active_def)
  moreover have "pc_ok l' R f"
    by (rule pc_ok_committed [OF rel _ pc c]) (simp add: l'_def)
  ultimately show "wal_inv l' f R (length (last R))"
    using md lk by (simp add: wal_inv_def l'_def)
  show "alog_step (abs_log l R m) (abs_log l' R (length (last R)))"
    by (rule abs_commit_step [OF inv]) (use c in \<open>simp_all add: l'_def commit_at_def\<close>)
qed

text \<open>When everything written is committed, the commit mark can be taken to be the last record.\<close>

lemma wal_inv_committed_all:
  assumes inv: "wal_inv l f R m" and eq: "committed l = written l"
  shows "wal_inv l f R (length (last R))"
    and "alog_step (abs_log l R m) (abs_log l R (length (last R)))"
proof -
  have rel: "log_rel l R" and c: "commit_at l R m" and d: "durable l R m"
    using inv by (simp_all add: wal_inv_def)
  have c': "commit_at l R (length (last R))" by (rule commit_all [OF rel eq])
  then have "length (frames (take m (last R))) = length (frames (last R))"
    using c by (simp add: commit_at_def)
  then have "durable l R (length (last R))" using d by (simp add: durable_def)
  with inv c' show "wal_inv l f R (length (last R))" by (simp add: wal_inv_def)
  show "alog_step (abs_log l R m) (abs_log l R (length (last R)))"
    by (rule abs_commit_step [OF inv]) (use c in \<open>simp_all add: commit_at_def\<close>)
qed

lemma wal_inv_rotated:
  assumes inv: "wal_inv l f R (length (last R))" and eq: "committed l = written l"
    and ne: "last R \<noteq> []" and ix: "Suc (unat (seg_index (active l))) < 2 ^ 64"
  shows "wal_inv (rotated l) f (R @ [[]]) 0"
    and "abs_log (rotated l) (R @ [[]]) 0 = abs_log l R (length (last R))"
proof -
  have rel: "log_rel l R" and c: "commit_at l R (length (last R))"
    and d: "durable l R (length (last R))" and pc: "pc_ok l R f"
    and md: "syncMode l \<noteq> SyncNone" and lk: "linked l = map seg_index (segments l)"
    using inv by (simp_all add: wal_inv_def)
  have nn: "segments l \<noteq> []" "R \<noteq> []" using log_rel_not_Nil [OF rel] by simp_all
  let ?i = "seg_index (active l) + 1"
  have disk: "disk l (seg_index (active l)) = frames (last R)"
    using log_rel_split(3) [OF rel] by (simp add: seg_rel_def)
  have sy: "synced l (seg_index s) = length (disk l (seg_index s))" if "s \<in> set (segments l)" for s
  proof -
    have "s \<in> set (butlast (segments l) @ [active l])" using that nn by (simp add: active_def)
    then show ?thesis using d disk by (auto simp: durable_def)
  qed
  have fresh: "seg_index s \<noteq> ?i" if "s \<in> set (segments l)" for s
    using log_rel_next_index(2) [OF rel ix] lk that by (metis image_eqI set_map)
  have "durable (rotated l) (R @ [[]]) 0"
    using sy fresh nn
    by (auto simp: durable_def rotated_def Let_def active_def)
  moreover have "pc_ok (rotated l) (R @ [[]]) f"
    by (rule pc_ok_committed [OF rel _ pc c]) (simp add: rotated_def Let_def)
  moreover have "linked (rotated l) = map seg_index (segments (rotated l))"
    "syncMode (rotated l) \<noteq> SyncNone"
    using lk md by (simp_all add: rotated_def Let_def)
  ultimately show "wal_inv (rotated l) f (R @ [[]]) 0"
    using log_rel_rotated [OF rel ne ix] commit_at_rotated [OF rel] by (simp add: wal_inv_def)
  show "abs_log (rotated l) (R @ [[]]) 0 = abs_log l R (length (last R))"
    using nn concat_snoc [of R]
    by (simp add: abs_log_def rotated_def log_floor_def log_off_def Let_def)
qed

text \<open>Rotation on every outcome of its system calls.\<close>

lemma rotate_inv:
  assumes inv: "wal_inv l f R m" and ne: "last R \<noteq> []"
    and ix: "Suc (unat (seg_index (active l))) < 2 ^ 64"
    and rot: "rotate io l = (e, l')"
  shows "\<exists>R' m'. wal_inv l' f R' m' \<and> alog_step\<^sup>*\<^sup>* (abs_log l R m) (abs_log l' R' m') \<and>
           written l' = written l \<and> nextMsgID l' = nextMsgID l \<and> log_grows 0 l R l' R' \<and>
           concat R' = concat R"
proof -
  have rel: "log_rel l R" and c: "commit_at l R m" using inv by (simp_all add: wal_inv_def)
  define l1 where "l1 = (if written l > committed l
      then (fsync (seg_index (active l)) l)\<lparr>syncCount := syncCount l + 1, committed := written l\<rparr>
      else l)"
  have eq: "committed l1 = written l1" and wn: "written l1 = written l" "nextMsgID l1 = nextMsgID l"
    and act: "active l1 = active l"
    using commit_le_written [OF rel c] by (auto simp: l1_def active_def)
  have inv1: "wal_inv l1 f R (length (last R))"
    and st1: "alog_step (abs_log l R m) (abs_log l1 R (length (last R)))"
    using wal_inv_commit_all [OF inv, where n = "syncCount l + 1"] wal_inv_committed_all [OF inv] eq
    by (simp_all add: l1_def split: if_splits)
  have g1: "log_grows 0 l R l1 R" by (rule log_grows_same) (simp add: l1_def)
  have ix1: "Suc (unat (seg_index (active l1))) < 2 ^ 64" using ix act by simp
  consider (refused) "l' = l" | (unopened) "l' = l1" | (rolled) "l' = rotated l1"
  proof (cases "written l > committed l \<and> \<not> io_seal_sync io")
    case True
    then show ?thesis using rot that(1) by (simp add: rotate_def Let_def)
  next
    case False
    note np = that
    have fresh: "seg_index (active l1) + 1 \<notin> set (linked l1)"
      using log_rel_next_index(2) [of l1 R] inv1 ix1 by (simp add: wal_inv_def)
    have rt: "rotate io l = (if \<not> io_open io then (Some LE_Open, l1)
        else let (seg, l2) = openSegment (seg_index (active l1) + 1) (nextMsgID l1) (written l1) l1
             in (None, l2\<lparr>segments := segments l2 @ [seg], syncSeg := seg_index seg\<rparr>))"
      using False by (auto simp: rotate_def Let_def l1_def active_def)
    show ?thesis
    proof (cases "io_open io")
      case True
      then have "l' = rotated l1"
        using rot rt fresh eq by (auto simp: openSegment_def rotated_def Let_def)
      then show ?thesis by (rule np(3))
    next
      case False
      then show ?thesis using rot rt np(2) by simp
    qed
  qed
  then show ?thesis
  proof cases
    case refused
    then show ?thesis using inv log_grows_same [of l l] by blast
  next
    case unopened
    then show ?thesis using inv1 st1 wn g1 by blast
  next
    case rolled
    have "written (rotated l1) = written l1" "nextMsgID (rotated l1) = nextMsgID l1"
      by (simp_all add: rotated_def Let_def)
    moreover have "log_grows 0 l R (rotated l1) (R @ [[]])"
      using log_grows_trans [OF g1 log_grows_rotated] inv1 by (simp add: wal_inv_def)
    ultimately show ?thesis
      using wal_inv_rotated [OF inv1 eq ne ix1] st1 wn rolled
      by (metis r_into_rtranclp concat_append concat.simps append_Nil2)
  qed
qed

lemma append_write_inv:
  assumes inv: "wal_inv l f R m" and enc: "encodable r" and id: "rec_MsgID r = nextMsgID l"
    and w: "unat (written l) + length (frame r) < 2 ^ 64"
    and n: "Suc (unat (nextMsgID l)) < 2 ^ 64"
    and io: "io_write io = None" and aw: "append_write io r (frame r) l = (res, l')"
  shows "\<exists>m'. wal_inv l' f (butlast R @ [last R @ [r]]) m' \<and>
           alog_step\<^sup>*\<^sup>* (abs_log l R m) (abs_log l' (butlast R @ [last R @ [r]]) m')"
    and "res = App_Err LE_Sync \<or> res = App_Wait (rec_MsgID r) (written l') \<or>
         res = App_OK (rec_MsgID r) (written l') \<and> committed l' = written l'"
    and "nextMsgID l' = nextMsgID l + 1" and "log_grows 0 l R l' (butlast R @ [last R @ [r]])"
proof -
  note st = wal_inv_stored [OF inv enc id w n]
  have sy: "syncSeg l = seg_index (active l)" and md: "syncMode l \<noteq> SyncNone"
    using inv by (simp_all add: wal_inv_def log_rel_def active_def)
  have sel: "nextMsgID (stored r l) = nextMsgID l + 1" by (simp add: stored_def)
  let ?c = "(fsync (syncSeg l) (stored r l))\<lparr>syncCount := syncCount l + 1,
                                            committed := written (stored r l)\<rparr>"
  have cases: "l' = stored r l \<and> res \<in> {App_Err LE_Sync, App_Wait (rec_MsgID r) (written l')} \<or>
      l' = ?c \<and> res = App_OK (rec_MsgID r) (written l')"
    using aw md by (auto simp: append_write_stored [OF io] split: SyncMode.splits if_splits)
  then show "res = App_Err LE_Sync \<or> res = App_Wait (rec_MsgID r) (written l') \<or>
         res = App_OK (rec_MsgID r) (written l') \<and> committed l' = written l'"
    and "nextMsgID l' = nextMsgID l + 1"
    using sel by auto
  have "log_grows 0 l R (stored r l) (butlast R @ [last R @ [r]])"
    using inv log_grows_stored by (simp add: wal_inv_def)
  moreover have "segments l' = segments (stored r l)" using cases by auto
  ultimately show "log_grows 0 l R l' (butlast R @ [last R @ [r]])"
    using log_grows_same log_grows_trans by blast
  show "\<exists>m'. wal_inv l' f (butlast R @ [last R @ [r]]) m' \<and>
           alog_step\<^sup>*\<^sup>* (abs_log l R m) (abs_log l' (butlast R @ [last R @ [r]]) m')"
  proof (cases "l' = stored r l")
    case True
    then show ?thesis using st by blast
  next
    case False
    note all = wal_inv_commit_all [OF st(1), where n = "syncCount l + 1"]
    have l': "l' = (fsync (seg_index (active (stored r l))) (stored r l))\<lparr>
        syncCount := syncCount l + 1, committed := written (stored r l)\<rparr>" using False cases sy by simp
    show ?thesis
      using all [folded l'] st(2) by (meson r_into_rtranclp rtranclp.rtrancl_into_rtrancl)
  qed
qed

text \<open>What each result says about the records of the log.\<close>

definition append_stores ::
    "wal_record \<Rightarrow> wlog \<Rightarrow> wal_record list list \<Rightarrow> append_res \<Rightarrow> wlog \<Rightarrow> wal_record list list \<Rightarrow> bool" where
  "append_stores r l R res l' R' \<longleftrightarrow>
     (\<exists>e. res = App_Err e) \<and> (concat R' = concat R \<or> concat R' = concat R @ [stamped r l]) \<or>
     ((res = App_Wait (nextMsgID l) (written l') \<or>
       res = App_OK (nextMsgID l) (written l') \<and> committed l' = written l') \<and>
      nextMsgID l' = nextMsgID l + 1 \<and> concat R' = concat R @ [stamped r l])"

lemma Append_inv:
  assumes inv: "wal_inv l f R m" and io: "io_write io = None" and room: "log_room l r"
    and app: "Append io r l = (res, l')"
  shows "\<exists>R' m'. wal_inv l' f R' m' \<and> alog_step\<^sup>*\<^sup>* (abs_log l R m) (abs_log l' R' m') \<and>
           append_stores r l R res l' R' \<and> log_grows 0 l R l' R'"
proof (cases "encodable (stamped r l)")
  case False
  then have "Append io r l = (App_Err (LE_Encode ErrTooLarge), l)"
    by (simp add: Append_def Let_def stamped_def [symmetric] Encode_too_large)
  then have "l' = l" "append_stores r l R res l' R" using app by (auto simp: append_stores_def)
  with inv log_grows_same [of l l R] show ?thesis by blast
next
  case True
  have rel: "log_rel l R" using inv by (simp add: wal_inv_def)
  let ?r = "stamped r l"
  define rl where "rl = (if must_rotate l (length (frame ?r)) then rotate io l else (None, l))"
  obtain e l1 where rl: "rl = (e, l1)" by (cases rl)
  have "\<exists>R1 m1. wal_inv l1 f R1 m1 \<and> alog_step\<^sup>*\<^sup>* (abs_log l R m) (abs_log l1 R1 m1) \<and>
          written l1 = written l \<and> nextMsgID l1 = nextMsgID l \<and> log_grows 0 l R l1 R1 \<and>
          concat R1 = concat R"
  proof (cases "must_rotate l (length (frame ?r))")
    case True
    then show ?thesis
      using rotate_inv [OF inv must_rotate_nonempty [OF rel True], of io e l1] room rl
      by (simp add: rl_def log_room_def)
  next
    case False
    then have "l1 = l" using rl by (simp add: rl_def)
    then show ?thesis using inv log_grows_same [of l l R] by blast
  qed
  then obtain R1 m1 where i1: "wal_inv l1 f R1 m1"
    and s1: "alog_step\<^sup>*\<^sup>* (abs_log l R m) (abs_log l1 R1 m1)"
    and wn: "written l1 = written l" "nextMsgID l1 = nextMsgID l" and g1: "log_grows 0 l R l1 R1"
    and cc: "concat R1 = concat R" by blast
  have ap: "Append io r l =
      (case e of Some e' \<Rightarrow> (App_Err e', l1) | None \<Rightarrow> append_write io ?r (frame ?r) l1)"
    using True rl by (simp add: Append_def Let_def stamped_def [symmetric] Encode_frame rl_def)
  show ?thesis
  proof (cases e)
    case (Some e')
    then have "l' = l1" "append_stores r l R res l' R1" using ap app cc by (auto simp: append_stores_def)
    then show ?thesis using i1 s1 g1 by blast
  next
    case None
    then have aw: "append_write io ?r (frame ?r) l1 = (res, l')" using ap app by simp
    have pre: "rec_MsgID ?r = nextMsgID l1" "unat (written l1) + length (frame ?r) < 2 ^ 64"
        "Suc (unat (nextMsgID l1)) < 2 ^ 64"
      using room wn by (simp_all add: log_room_def stamped_def)
    note aw' = append_write_inv [OF i1 True pre io aw]
    have "R1 \<noteq> []" using i1 log_rel_not_Nil [of l1 R1] by (simp add: wal_inv_def)
    then have "concat (butlast R1 @ [last R1 @ [?r]]) = concat R @ [?r]"
      using concat_snoc [of R1] cc by simp
    then have "append_stores r l R res l' (butlast R1 @ [last R1 @ [?r]])"
      using aw'(2,3) pre(1) wn by (auto simp: append_stores_def)
    moreover have "log_grows 0 l R l' (butlast R1 @ [last R1 @ [?r]])"
      by (rule log_grows_trans [OF g1 aw'(4)])
    ultimately show ?thesis using aw'(1) s1 by (meson rtranclp_trans)
  qed
qed

text \<open>The committer's three parts.\<close>

lemma flush_begin_ok:
  assumes "wal_inv l F_Idle R m" "flush_begin l = Some (snap, i)"
  shows "wal_inv l (F_Snap snap i) R m"
proof -
  have rel: "log_rel l R" using assms(1) by (simp add: wal_inv_def)
  have "snap = written l" "i = seg_index (active l)"
    using assms rel by (auto simp: flush_begin_def log_rel_def active_def split: if_splits)
  moreover have "boundary l R (written l) (length (last R))"
    using active_local_size [OF rel] unat_diff_no_wrap [of "baseByteOffset (active l)" "written l"]
    by (simp add: boundary_def u64_le_iff)
  ultimately show ?thesis using assms(1) by (auto simp: wal_inv_def)
qed

lemma fsync_ok:
  assumes inv: "wal_inv l (F_Snap snap i) R m"
  shows "wal_inv (fsync i l) (F_Synced snap) R m"
proof -
  have rel: "log_rel l R" and d: "durable l R m" and pc: "pc_ok l R (F_Snap snap i)"
    using inv by (simp_all add: wal_inv_def)
  have disk: "disk l (seg_index (active l)) = frames (last R)"
    using log_rel_split(3) [OF rel] by (simp add: seg_rel_def)
  have "durable (fsync i l) R m" using d by (auto simp: durable_def)
  moreover have "pc_ok (fsync i l) R (F_Synced snap)"
  proof (cases "snap \<le> committed l")
    case True then show ?thesis by simp
  next
    case False
    with pc obtain k where k: "i = seg_index (active l)" "boundary l R snap k" by auto
    have "length (frames (take k (last R))) \<le> length (frames (last R))"
      using frames_take_le [of k "length (last R)" "last R"] k(2) by (simp add: boundary_def)
    with k show ?thesis by (auto simp: boundary_def disk intro!: exI [of _ k])
  qed
  ultimately show ?thesis using inv by (simp add: wal_inv_def)
qed

lemma durable_cong [simp]:
  "durable (l\<lparr>syncCount := n\<rparr>) R m = durable l R m"
  "durable (l\<lparr>commitErr := b\<rparr>) R m = durable l R m"
  "durable (l\<lparr>committed := c\<rparr>) R m = durable l R m"
  by (simp_all add: durable_def active_def)

lemma flush_end_ok:
  assumes inv: "wal_inv l (F_Synced snap) R m"
  shows "\<exists>m'. wal_inv (flush_end True snap l) F_Idle R m' \<and>
              alog_step\<^sup>*\<^sup>* (abs_log l R m) (abs_log (flush_end True snap l) R m')"
proof (cases "snap \<le> committed l")
  case True
  then have "flush_end True snap l = l\<lparr>syncCount := syncCount l + 1\<rparr>" by (auto simp: flush_end_def)
  with inv have "wal_inv (flush_end True snap l) F_Idle R m" by (simp add: wal_inv_def)
  moreover have "abs_log (flush_end True snap l) R m = abs_log l R m"
    using True by (simp add: abs_log_def flush_end_def)
  ultimately show ?thesis by (metis rtranclp.rtrancl_refl)
next
  case False
  then obtain k where k: "boundary l R snap k"
      "length (frames (take k (last R))) \<le> synced l (seg_index (active l))"
    using inv by (auto simp: wal_inv_def)
  let ?l = "l\<lparr>syncCount := syncCount l + 1, committed := snap\<rparr>"
  have l: "flush_end True snap l = ?l" using False by (simp add: flush_end_def)
  have rel: "log_rel l R" and c: "commit_at l R m" and d: "durable l R m"
    using inv by (simp_all add: wal_inv_def)
  have rel': "log_rel ?l R" using rel by simp
  have "commit_at ?l R k"
    using k by (simp add: commit_at_boundary [OF rel']) (simp add: boundary_def active_def)
  moreover have "durable ?l R k" using d k by (simp add: durable_def active_def)
  ultimately have inv': "wal_inv ?l F_Idle R k" using inv by (simp add: wal_inv_def)
  have "unat (committed l) < unat snap" using False by (simp add: u64_less_iff not_le)
  then have "m < k"
    using c k by (intro frames_take_less [of m "last R" k])
       (auto simp: commit_at_boundary [OF rel] boundary_def)
  moreover have "k \<le> length (last R)" using k by (simp add: boundary_def)
  ultimately have "alog_step (abs_log l R m) (abs_log ?l R k)"
    by (intro abs_commit_step [OF inv]) simp_all
  with inv' l show ?thesis by (metis r_into_rtranclp)
qed

lemma flush_fail_ok:
  assumes "wal_inv l (F_Snap snap i) R m"
  shows "wal_inv (flush_end False snap l) F_Idle R m"
    and "abs_log (flush_end False snap l) R m = abs_log l R m"
  using assms by (simp_all add: wal_inv_def flush_end_def abs_log_def)

section \<open>Dropping sealed segments\<close>

definition dropped :: "nat \<Rightarrow> (u64 \<Rightarrow> bool) \<Rightarrow> wlog \<Rightarrow> wlog" where
  "dropped n rm_fail l =
     l\<lparr>segments := drop n (segments l),
       linked := filter (\<lambda>i. i \<notin> seg_index ` set (take n (segments l)) \<or> rm_fail i) (linked l)\<rparr>"

lemma Drop_dropped:
  assumes "log_rel l R"
  shows "\<exists>n e. DropSegmentsBefore rm_fail k l =
             ((n, baseMsgID (hd (drop n (segments l))), e), dropped n rm_fail l) \<and>
           n < length (segments l)"
proof -
  let ?P = "\<lambda>s. seg_index s < (if k > seg_index (active l) then seg_index (active l) else k)"
  define n where "n = length (takeWhile ?P (segments l))"
  have tk: "takeWhile ?P (segments l) = take n (segments l)"
    unfolding n_def by (rule takeWhile_eq_take)
  have dr: "dropWhile ?P (segments l) = drop n (segments l)"
    unfolding n_def by (rule dropWhile_eq_drop)
  have nn: "segments l \<noteq> []" using log_rel_not_Nil [OF assms] by simp
  have "\<not> ?P (last (segments l))" by (auto simp: active_def)
  then have lt: "n < length (segments l)"
    unfolding n_def using nn by (metis last_in_set length_takeWhile_le nat_less_le
        set_takeWhileD takeWhile_eq_take take_all order.refl)
  show ?thesis
  proof (cases "n = 0")
    case True
    then have "dropped n rm_fail l = l" by (simp add: dropped_def)
    then show ?thesis using tk True nn
      by (intro exI [of _ n] exI [of _ None]) (simp add: DropSegmentsBefore_def Let_def)
  next
    case False
    then have "take n (segments l) \<noteq> []" using nn by simp
    then show ?thesis using tk dr lt
      by (intro exI [of _ n]) (simp add: DropSegmentsBefore_def Let_def dropped_def)
  qed
qed

lemma dropped_rel:
  assumes rel: "log_rel l R" and n: "n < length (segments l)"
  shows "log_rel (dropped n rm l) (drop n R)"
    and "log_off (dropped n rm l) = log_off l + length (frames (concat (take n R)))"
    and "log_floor (dropped n rm l) = log_floor l + length (concat (take n R))"
    and "active (dropped n rm l) = active l"
proof -
  let ?l = "dropped n rm l"
  have len: "length (segments l) = length R" using rel by (auto simp: log_rel_def dest: segs_rel_length)
  have "segs_rel (disk l) (log_off l) (log_floor l)
          (take n (segments l) @ drop n (segments l)) (take n R @ drop n R)"
    using rel by (simp add: log_rel_def)
  then have sr: "segs_rel (disk l) (log_off l + length (frames (concat (take n R))))
      (log_floor l + length (concat (take n R))) (drop n (segments l)) (drop n R)"
    using len by (subst (asm) segs_rel_append) simp_all
  obtain s ss where ss: "drop n (segments l) = s # ss" using n by (cases "drop n (segments l)") auto
  obtain q Q where Q: "drop n R = q # Q" using n len by (cases "drop n R") auto
  show off: "log_off ?l = log_off l + length (frames (concat (take n R)))"
    and fl: "log_floor ?l = log_floor l + length (concat (take n R))"
    using sr by (simp_all add: dropped_def log_off_def log_floor_def ss Q seg_rel_def)
  show act: "active ?l = active l" using n by (simp add: dropped_def active_def)
  have cc: "concat R = concat (take n R) @ concat (drop n R)"
    by (metis append_take_drop_id concat_append)
  have bl: "[] \<notin> set (butlast (drop n R))"
    using rel by (auto simp: log_rel_def butlast_drop dest: in_set_dropD)
  have srt: "sorted_wrt (<) (map seg_index (take n (segments l)) @ map seg_index (drop n (segments l)))"
    using rel by (simp add: log_rel_def flip: map_append)
  have srt': "sorted_wrt (<) (map seg_index (drop n (segments l)))"
    using srt by (simp add: sorted_wrt_append)
  have kept: "seg_index t \<notin> seg_index ` set (take n (segments l))" if "t \<in> set (drop n (segments l))" for t
    using srt that by (fastforce simp: sorted_wrt_append)
  have lk: "seg_index ` set (drop n (segments l)) \<subseteq> set (linked ?l)"
    using rel kept by (force simp: log_rel_def dropped_def dest: in_set_dropD)
  show "log_rel ?l (drop n R)"
    unfolding log_rel_def off fl
    using rel sr n bl lk srt' cc
    by (auto simp: dropped_def log_rel_def last_drop)
qed

lemma Drop_inv:
  assumes inv: "wal_inv l f R m" and dr: "DropSegmentsBefore (\<lambda>_. False) k l = (res, l')"
  shows "\<exists>R'. wal_inv l' f R' m \<and> alog_step\<^sup>*\<^sup>* (abs_log l R m) (abs_log l' R' m) \<and>
           (\<exists>n < length R. log_grows n l R l' R')"
proof -
  have rel: "log_rel l R" and c: "commit_at l R m" and d: "durable l R m" and pc: "pc_ok l R f"
    and md: "syncMode l \<noteq> SyncNone" and lk: "linked l = map seg_index (segments l)"
    using inv by (simp_all add: wal_inv_def)
  have len: "length (segments l) = length R" using rel by (auto simp: log_rel_def dest: segs_rel_length)
  obtain n where n: "n < length (segments l)" and l': "l' = dropped n (\<lambda>_. False) l"
    using Drop_dropped [OF rel, of "\<lambda>_. False" k] dr by auto
  note dd = dropped_rel [OF rel n, of "\<lambda>_. False", folded l']
  have last: "last (drop n R) = last R" using n len by (simp add: last_drop)
  have cong: "committed l' = committed l" "synced l' = synced l" "disk l' = disk l"
      "syncMode l' = syncMode l" "segments l' = drop n (segments l)" by (simp_all add: l' dropped_def)
  have bd: "boundary l' (drop n R) = boundary l R"
    by (intro ext) (simp add: boundary_def last dd(4))
  have "commit_at l' (drop n R) m"
    using c by (simp add: commit_at_boundary [OF dd(1)] commit_at_boundary [OF rel] bd cong)
  moreover have "durable l' (drop n R) m"
    using d by (auto simp: durable_def cong last dd(4) butlast_drop dest: in_set_dropD)
  moreover have "pc_ok l' (drop n R) f"
    using pc by (cases f) (simp_all add: bd cong last dd(4))
  moreover have "linked l' = map seg_index (segments l')"
  proof -
    have srt: "sorted_wrt (<) (map seg_index (take n (segments l)) @ map seg_index (drop n (segments l)))"
      using rel by (simp add: log_rel_def flip: map_append)
    have "filter (\<lambda>i. i \<notin> set xs) (xs @ ys) = ys" if "sorted_wrt (<) (xs @ ys)" for xs ys :: "u64 list"
      using that by (force simp: sorted_wrt_append filter_id_conv)
    from this [OF srt] show ?thesis
      by (simp add: l' dropped_def lk flip: map_append)
  qed
  ultimately have inv': "wal_inv l' f (drop n R) m" using dd(1) md by (simp add: wal_inv_def cong)
  have cc: "concat R = concat (take n R) @ concat (drop n R)"
    by (metis append_take_drop_id concat_append)
  have cb: "concat (butlast R) = concat (take n R) @ concat (butlast (drop n R))"
    using n len by (metis append_take_drop_id butlast_append concat_append drop_eq_Nil not_le)
  have "alog_step (abs_log l R m) (abs_log l' (drop n R) m)"
    using as_drop [of "length (concat (take n R))" "abs_log l R m"]
    by (simp add: abs_log_def dd(2,3) cc cb)
  with inv' log_grows_drop [OF rel cong(5)] n len show ?thesis by auto
qed

text \<open>One step of the system is zero or more steps of the abstract log.\<close>

lemma wal_step_inv:
  assumes "wal_step (l, f) (l', f')" "wal_inv l f R m"
  shows "\<exists>R' m'. wal_inv l' f' R' m' \<and> alog_step\<^sup>*\<^sup>* (abs_log l R m) (abs_log l' R' m') \<and>
           (\<exists>n < length R. log_grows n l R l' R')"
proof -
  have "log_rel l R" using assms(2) by (simp add: wal_inv_def)
  then have pos: "0 < length R" using log_rel_not_Nil [of l R] by simp
  show ?thesis using assms(1)
  proof cases
    case (ws_append io r res)
    then show ?thesis using Append_inv assms(2) pos by blast
  next
    case (ws_begin snap i)
    then show ?thesis using flush_begin_ok assms(2) log_grows_same [of l l R] pos by blast
  next
    case (ws_sync snap i)
    moreover have "abs_log (fsync i l) R m = abs_log l R m" by (simp add: abs_log_def)
    moreover have "log_grows 0 l R (fsync i l) R" by (rule log_grows_same) simp
    ultimately show ?thesis using fsync_ok assms(2) pos by (metis rtranclp.rtrancl_refl)
  next
    case (ws_publish snap)
    moreover have "log_grows 0 l R (flush_end True snap l) R"
      by (rule log_grows_same) (simp add: flush_end_def)
    ultimately show ?thesis using flush_end_ok assms(2) pos by blast
  next
    case (ws_fail snap i)
    moreover have "log_grows 0 l R (flush_end False snap l) R"
      by (rule log_grows_same) (simp add: flush_end_def)
    ultimately show ?thesis using flush_fail_ok assms(2) pos by (metis rtranclp.rtrancl_refl)
  next
    case (ws_drop k res)
    then show ?thesis using Drop_inv assms(2) by blast
  qed
qed

lemma wal_steps_inv:
  assumes "wal_step\<^sup>*\<^sup>* (l, f) (l', f')" "wal_inv l f R m"
  shows "\<exists>R' m'. wal_inv l' f' R' m' \<and> alog_step\<^sup>*\<^sup>* (abs_log l R m) (abs_log l' R' m')"
  using assms(1)
proof (induction "(l', f')" arbitrary: l' f' rule: rtranclp_induct)
  case base
  then show ?case using assms(2) by blast
next
  case (step s)
  obtain l1 f1 where s: "s = (l1, f1)" by (cases s)
  with step obtain R1 m1 where "wal_inv l1 f1 R1 m1"
      "alog_step\<^sup>*\<^sup>* (abs_log l R m) (abs_log l1 R1 m1)" by blast
  with wal_step_inv [of l1 f1 l' f' R1 m1] step(2) s show ?case by (meson rtranclp_trans)
qed

section \<open>What is found after a crash\<close>

lemma records_of_take:
  assumes "list_all encodable rs"
  shows "records_of (take k (frames rs)) = take (fit k rs) rs"
proof -
  obtain t where t: "take k (frames rs) = frames (take (fit k rs) rs) @ t" "torn t"
    using take_frames_fit [OF assms] by blast
  have enc: "list_all encodable (take (fit k rs) rs)"
    using assms by (auto simp: list_all_iff dest: in_set_takeD)
  have tail: "snd (recover_loop \<lparr>sbuf = t, send = At_EOF\<rparr> a) = a" for a
    using recover_loop_torn [OF t(2), of a] by auto
  show ?thesis
    unfolding records_of_def t(1) recover_loop_frames [OF enc] tail scan_all_fields scan_init_def
    by simp
qed

lemma fit_exact: "m \<le> length rs \<Longrightarrow> fit (length (frames (take m rs))) rs = m"
proof (induction rs arbitrary: m)
  case Nil
  then show ?case by simp
next
  case (Cons r rs)
  then show ?case by (cases m) (simp_all add: length_frame)
qed

lemma records_of_frames: "list_all encodable rs \<Longrightarrow> records_of (frames rs) = rs"
  using records_of_take [of rs "length (frames rs)"] fit_exact [of "length rs" rs] by simp

lemma records_of_sealed:
  assumes "segs_rel d off mid ss R"
  shows "map (\<lambda>s. records_of (d (seg_index s))) ss = R"
  using assms by (induction d off mid ss R rule: segs_rel.induct)
    (auto simp: seg_rel_def records_of_frames)

lemma retained_records_rel: "log_rel l R \<Longrightarrow> retained_records l = concat R"
  by (auto simp: retained_records_def log_rel_def records_of_sealed)

lemma committed_records_rel:
  assumes rel: "log_rel l R" and c: "commit_at l R m"
  shows "committed_records l = concat (butlast R) @ take m (last R)"
proof -
  let ?f = "\<lambda>s. records_of (take (unat (fst (readableLenLocked l s))) (disk l (seg_index s)))"
  note sp = log_rel_split [OF rel]
  have nn: "segments l \<noteq> []" "R \<noteq> []" using log_rel_not_Nil [OF rel] by simp_all
  have enc: "list_all encodable (last R)" and dk: "disk l (seg_index (active l)) = frames (last R)"
    using sp(3) by (simp_all add: seg_rel_def)
  have "map ?f (butlast (segments l)) = map (\<lambda>s. records_of (disk l (seg_index s))) (butlast (segments l))"
  proof (rule map_cong [OF refl])
    fix s assume s: "s \<in> set (butlast (segments l))"
    then obtain j where j: "j < length (butlast (segments l))" "s = butlast (segments l) ! j"
      by (metis in_set_conv_nth)
    then have j': "Suc j < length (segments l)" "s = segments l ! j" by (simp_all add: nth_butlast)
    then have "j < length R" using log_rel_length [OF rel] by simp
    from log_rel_nth [OF rel this] have "disk l (seg_index s) = frames (R ! j)"
      by (simp add: seg_rel_def j'(2))
    moreover have "unat (fst (readableLenLocked l s)) = length (frames (R ! j))"
      using readable_sealed(1) [OF rel j'(1)] j'(2) by (simp only:)
    ultimately show "?f s = records_of (disk l (seg_index s))" by simp
  qed
  also have "\<dots> = butlast R" by (rule records_of_sealed [OF sp(2)])
  finally have sealed: "map ?f (butlast (segments l)) = butlast R" .
  have act: "?f (active l) = take m (last R)"
    using readable_active [OF rel c] records_of_take [OF enc] fit_exact [of m "last R"] dk c
    by (simp add: commit_at_def)
  have "segments l = butlast (segments l) @ [active l]" using nn by (simp add: active_def)
  then have "map ?f (segments l) = map ?f (butlast (segments l) @ [active l])" by (rule arg_cong)
  also have "\<dots> = butlast R @ [take m (last R)]"
    using sealed act by (simp only: map_append list.map)
  finally show ?thesis by (simp add: committed_records_def)
qed

text \<open>
  A crash in any state of the system, then \<^verbatim>\<open>Open\<close>: the log stands for the committed records
  and possibly some more of those that were written, and satisfies the invariant again.
\<close>

lemma crash_open:
  assumes inv: "wal_inv l f R m" and crash: "crash_image l d"
    and small: "\<forall>i \<in> set (linked l). unat i < 10 ^ 6"
    and start: "log_floor l = 0 \<or> concat (butlast R) @ take m (last R) \<noteq> []"
    and mode: "mode \<noteq> SyncNone"
  shows "\<exists>l' n. m \<le> n \<and> n \<le> length (last R) \<and>
     Open open_ok mode sb (log_entries l) d = Inr (l', concat (butlast R) @ take n (last R)) \<and>
     wal_inv l' F_Idle (butlast R @ [take n (last R)]) n \<and> log_floor l' = log_floor l"
proof -
  have rel: "log_rel l R" and c: "commit_at l R m" and dur: "durable l R m"
    and lk: "linked l = map seg_index (segments l)" using inv by (simp_all add: wal_inv_def)
  have nn: "segments l \<noteq> []" "R \<noteq> []" using log_rel_not_Nil [OF rel] by simp_all
  note len = log_rel_length [OF rel] and srt = log_rel_sorted [OF rel]
  let ?idxs = "map seg_index (segments l)"
  have disc: "discover_indices (log_entries l) = ?idxs"
    using discover_log_entries [OF small] srt
    by (simp add: lk sorted_sort_id strict_sorted_imp_sorted)
  have enc: "list_all encodable (last R)" and dk: "disk l (seg_index (active l)) = frames (last R)"
    using log_rel_split(3) [OF rel] by (simp_all add: seg_rel_def)
  obtain k where k: "synced l (seg_index (active l)) \<le> k"
      "d (seg_index (active l)) = take k (frames (last R))"
    using crash dk by (metis crash_image_def)
  define n where "n = fit k (last R)"
  have mle: "m \<le> length (last R)" using c by (simp add: commit_at_def)
  have mn: "m \<le> n" unfolding n_def
    using dur k(1) mle by (intro fit_ge) (auto simp: durable_def)
  have nl: "n \<le> length (last R)" by (simp add: n_def fit_le)
  obtain t where t: "d (seg_index (active l)) = frames (take n (last R)) @ t" "torn t"
    using take_frames_fit [OF enc, of k] k(2) by (auto simp: n_def)
  let ?R = "butlast R @ [take n (last R)]"
  have cR: "concat R = concat ?R @ drop n (last R)" using concat_snoc [OF nn(2)] by simp
  have sealed: "d (?idxs ! j) = frames (?R ! j)" if "Suc j < length ?R" for j
  proof -
    have j: "j < length (butlast (segments l))" "Suc j < length R" "j < length (butlast R)"
      using that len by simp_all
    then have s: "segments l ! j \<in> set (butlast (segments l))" by (metis nth_butlast nth_mem)
    obtain k' where "synced l (?idxs ! j) \<le> k'" "d (?idxs ! j) = take k' (disk l (?idxs ! j))"
      using crash by (metis crash_image_def)
    moreover have "synced l (?idxs ! j) = length (disk l (?idxs ! j))" "disk l (?idxs ! j) = frames (R ! j)"
      using dur s j len log_rel_nth [OF rel, of j] by (auto simp: durable_def seg_rel_def)
    ultimately show ?thesis using j by (simp add: nth_append nth_butlast)
  qed
  have st: "hd ?R \<noteq> [] \<or> log_floor l = 0"
  proof (cases "butlast R")
    case Nil
    then show ?thesis using start mn by (auto simp: take_eq_Nil)
  next
    case (Cons q Q)
    then have "hd ?R \<in> set (butlast R)" by simp
    then show ?thesis using rel by (auto simp: log_rel_def)
  qed
  have lr: "list_all encodable (concat R)" "ids_from (log_floor l) (concat R)"
    using log_rel_all [OF rel] by simp_all
  have b1: "length (frames (concat R)) < 2 ^ 64" "log_floor l + length (concat R) < 2 ^ 64"
    using rel unsigned_less [of "written l", where ?'a = nat]
      unsigned_less [of "nextMsgID l", where ?'a = nat] by (simp_all add: log_rel_def)
  have "\<exists>l'. Open open_ok mode sb (log_entries l) d = Inr (l', concat ?R) \<and> log_rel l' ?R \<and>
     commit_at l' ?R (length (last ?R)) \<and> log_floor l' = log_floor l \<and>
     map seg_index (segments l') = ?idxs \<and> disk l' = d(last ?idxs := frames (last ?R)) \<and>
     syncMode l' = mode \<and> segmentBytes l' = sb \<and> (\<forall>i. synced l' i = length (disk l' i)) \<and>
     \<not> commitErr l' \<and> linked l' = ?idxs"
  proof (rule Open_frames [OF disc _ srt _ _ _ _ _ _ sealed])
    show "[] \<notin> set (butlast ?R)" using rel by (simp add: log_rel_def)
    show "d (last ?idxs) = frames (last ?R) @ t"
      using t nn by (simp add: last_map active_def)
    show "list_all encodable (concat ?R)" "ids_from (log_floor l) (concat ?R)"
      using lr unfolding cR by (simp_all del: concat_append)
    show "length (frames (concat ?R)) < 2 ^ 64" "log_floor l + length (concat ?R) < 2 ^ 64"
      using b1 unfolding cR frames_simps length_append by linarith+
    show "length ?idxs = length ?R" "?idxs \<noteq> []" using nn len by simp_all
  qed (assumption | rule t(2) st)+
  then obtain l' where l': "Open open_ok mode sb (log_entries l) d = Inr (l', concat ?R)"
      "log_rel l' ?R" "commit_at l' ?R (length (last ?R))" "log_floor l' = log_floor l"
      "syncMode l' = mode" "\<forall>i. synced l' i = length (disk l' i)" "linked l' = ?idxs"
      "map seg_index (segments l') = ?idxs" by blast
  have "disk l' (seg_index (active l')) = frames (last ?R)"
    using log_rel_split(3) [OF l'(2)] by (simp add: seg_rel_def)
  then have "durable l' ?R n" using l'(6) nl by (simp add: durable_def)
  moreover have "commit_at l' ?R n" using l'(3) nl by simp
  moreover have "linked l' = map seg_index (segments l')" using l'(7,8) by simp
  ultimately have "wal_inv l' F_Idle ?R n"
    using l'(2,5) mode by (simp add: wal_inv_def)
  moreover have "concat ?R = concat (butlast R) @ take n (last R)" by simp
  ultimately show ?thesis using l'(1,4) mn nl
    by (intro exI [of _ l'] exI [of _ n] conjI) (simp_all only:)
qed

section \<open>Reachable states\<close>

text \<open>
  Two things \<^verbatim>\<open>Open\<close> relies on: the directory holds only indices its scan can read back, and
  some record tells it where the MsgIDs go on, unless they start at 0.
\<close>

definition recoverable :: "wlog \<Rightarrow> bool" where
  "recoverable l \<longleftrightarrow>
     (\<forall>i \<in> set (linked l). unat i < 10 ^ 6) \<and>
     (RetainedFloor l = 0 \<or> committed_records l \<noteq> [])"

inductive wal_reach :: "SyncMode \<Rightarrow> u64 \<Rightarrow> wal_sys \<Rightarrow> bool" for mode sb where
  wr_init: "Open open_ok mode sb [] d = Inr (l, rs) \<Longrightarrow> wal_reach mode sb (l, F_Idle)"
| wr_step: "wal_reach mode sb s \<Longrightarrow> wal_step s s' \<Longrightarrow> wal_reach mode sb s'"
| wr_crash: "wal_reach mode sb (l, f) \<Longrightarrow> crash_image l d \<Longrightarrow> recoverable l \<Longrightarrow>
    Open open_ok mode sb (log_entries l) d = Inr (l', rs) \<Longrightarrow> wal_reach mode sb (l', F_Idle)"

definition empty_log :: "SyncMode \<Rightarrow> u64 \<Rightarrow> (u64 \<Rightarrow> bytes) \<Rightarrow> wlog" where
  "empty_log mode sb d =
     \<lparr>segments = [new_segment 0], nextMsgID = 0, written = 0, committed = 0, syncMode = mode,
      syncSeg = 0, syncCount = 0, commitErr = False, segmentBytes = sb, disk = d(0 := []),
      synced = (\<lambda>i. length ((d(0 := [])) i)), linked = [0]\<rparr>"

lemma empty_log_sel [simp]:
  "segments (empty_log mode sb d) = [new_segment 0]" "nextMsgID (empty_log mode sb d) = 0"
  "written (empty_log mode sb d) = 0" "committed (empty_log mode sb d) = 0"
  "syncMode (empty_log mode sb d) = mode" "syncSeg (empty_log mode sb d) = 0"
  "segmentBytes (empty_log mode sb d) = sb" "linked (empty_log mode sb d) = [0]"
  "commitErr (empty_log mode sb d) = False" "active (empty_log mode sb d) = new_segment 0"
  by (simp_all add: empty_log_def active_def)

lemma Open_empty: "Open open_ok mode sb [] d = Inr (empty_log mode sb d, [])"
proof -
  have ix: "seg_index (new_segment 0) = 0" by (simp add: new_segment_def)
  have loop: "recover_loop \<lparr>sbuf = [], send = At_EOF\<rparr> a = (ErrEOF, a)" for a
    by (simp add: recover_loop.simps [of "\<lparr>sbuf = [], send = At_EOF\<rparr>"] Decode_def ReadFull_def)
  have rec: "recoverSegment open_ok (new_segment 0) True 0 False [] [] =
      Inr (scan_init 0 False [] (new_segment 0), [])"
    by (simp add: recoverSegment_def open_ok_def loop)
  have "discover_indices [] = []" by (simp add: discover_indices_def map_filter_simps)
  then show ?thesis
    unfolding Open_def Let_def
    by (simp add: ix rec fun_upd_idem scan_init_def empty_log_def)
       (simp add: open_ok_def new_segment_def)
qed

lemma wal_inv_empty: "mode \<noteq> SyncNone \<Longrightarrow> wal_inv (empty_log mode sb d) F_Idle [[]] 0"
  by (simp add: wal_inv_def log_rel_def commit_at_def durable_def empty_log_def log_off_def
      log_floor_def new_segment_def seg_rel_def active_def)

lemma floor_unat: "unat (RetainedFloor l) = log_floor l"
  by (simp add: RetainedFloor_def log_floor_def)

lemma recoverable_start:
  assumes "wal_inv l f R m" "recoverable l"
  shows "log_floor l = 0 \<or> concat (butlast R) @ take m (last R) \<noteq> []"
  using assms committed_records_rel [of l R m]
  by (auto simp: recoverable_def wal_inv_def RetainedFloor_def log_floor_def)

lemma wal_reach_inv:
  assumes "wal_reach mode sb s" "mode \<noteq> SyncNone"
  shows "\<exists>R m. wal_inv (fst s) (snd s) R m"
  using assms
proof (induction rule: wal_reach.induct)
  case (wr_init d l rs)
  then have "l = empty_log mode sb d" by (simp add: Open_empty)
  then show ?case using wal_inv_empty [OF wr_init(2)] by auto
next
  case (wr_step s s')
  then have "wal_step (fst s, snd s) (fst s', snd s')" by simp
  with wr_step wal_step_inv show ?case by blast
next
  case (wr_crash l f d l' rs)
  then obtain R m where inv: "wal_inv l f R m" by auto
  have small: "\<forall>i \<in> set (linked l). unat i < 10 ^ 6" using wr_crash(3) by (simp add: recoverable_def)
  from crash_open [OF inv wr_crash(2) small recoverable_start [OF inv wr_crash(3)] wr_crash(6), of sb]
  show ?case using wr_crash(4) by auto
qed

lemma wal_reach_step_star: "wal_step\<^sup>*\<^sup>* s s' \<Longrightarrow> wal_reach mode sb s \<Longrightarrow> wal_reach mode sb s'"
  by (induction rule: rtranclp_induct) (auto intro: wal_reach.wr_step)

text \<open>The abstract log a state stands for, computed from the files.\<close>

definition log_view :: "wlog \<Rightarrow> alog" where
  "log_view l = \<lparr>a_floor = unat (RetainedFloor l), a_off = unat (baseByteOffset (hd (segments l))),
                a_recs = retained_records l, a_commit = length (committed_records l)\<rparr>"

lemma log_view_abs: "wal_inv l f R m \<Longrightarrow> log_view l = abs_log l R m"
proof -
  assume inv: "wal_inv l f R m"
  then have rel: "log_rel l R" and c: "commit_at l R m" by (simp_all add: wal_inv_def)
  then have "m \<le> length (last R)" by (simp add: commit_at_def)
  with retained_records_rel [OF rel] committed_records_rel [OF rel c] show ?thesis
    by (simp add: log_view_def abs_log_def RetainedFloor_def log_floor_def log_off_def)
qed

lemma view_bytes:
  assumes "wal_inv l f R m"
  shows "unat (committed l) = a_off (log_view l) + length (frames (take (a_commit (log_view l)) (a_recs (log_view l))))"
    and "unat (written l) = a_off (log_view l) + length (frames (a_recs (log_view l)))"
    and "unat (nextMsgID l) = a_floor (log_view l) + length (a_recs (log_view l))"
proof -
  have rel: "log_rel l R" and c: "commit_at l R m" using assms by (simp_all add: wal_inv_def)
  have "R \<noteq> []" using log_rel_not_Nil [OF rel] by simp
  from concat_snoc [OF this]
  have "take (length (concat (butlast R)) + m) (concat R) = concat (butlast R) @ take m (last R)"
    by (metis add_diff_cancel_left' take_append append_same_eq le_add1 take_all_iff)
  then show "unat (committed l) = a_off (log_view l) + length (frames (take (a_commit (log_view l)) (a_recs (log_view l))))"
    using c by (simp add: log_view_abs [OF assms] abs_log_def commit_at_def)
  show "unat (written l) = a_off (log_view l) + length (frames (a_recs (log_view l)))"
    and "unat (nextMsgID l) = a_floor (log_view l) + length (a_recs (log_view l))"
    using rel by (simp_all add: log_view_abs [OF assms] abs_log_def log_rel_def)
qed

lemma crash_recovers_after:
  assumes inv: "wal_inv l f R m" and pre: "recoverable l" "crash_image l d" "mode \<noteq> SyncNone"
  shows "\<exists>l' ext. Open open_ok mode sb (log_entries l) d = Inr (l', committed_records l @ ext) \<and>
     prefix (committed_records l @ ext) (retained_records l) \<and>
     RetainedFloor l' = RetainedFloor l \<and>
     retained_records l' = committed_records l @ ext \<and>
     unat (nextMsgID l') = unat (RetainedFloor l) + length (committed_records l @ ext)"
proof -
  have small: "\<forall>i \<in> set (linked l). unat i < 10 ^ 6" using pre(1) by (simp add: recoverable_def)
  obtain l' n where n: "m \<le> n" "n \<le> length (last R)"
    and op: "Open open_ok mode sb (log_entries l) d = Inr (l', concat (butlast R) @ take n (last R))"
    and inv': "wal_inv l' F_Idle (butlast R @ [take n (last R)]) n"
    and fl: "log_floor l' = log_floor l"
    using crash_open [OF inv pre(2) small recoverable_start [OF inv pre(1)] pre(3)] by blast
  have rel: "log_rel l R" and c: "commit_at l R m" and rel': "log_rel l' (butlast R @ [take n (last R)])"
    using inv inv' by (simp_all add: wal_inv_def)
  have nn: "R \<noteq> []" using log_rel_not_Nil [OF rel] by simp
  define ext where "ext = take (n - m) (drop m (last R))"
  have eq: "concat (butlast R) @ take n (last R) = committed_records l @ ext"
    using committed_records_rel [OF rel c] take_split_drop [OF n(1), of "last R"] by (simp add: ext_def)
  have "prefix (concat (butlast R) @ take n (last R)) (concat R)"
    using concat_snoc [OF nn] by (simp add: take_is_prefix)
  moreover have "RetainedFloor l' = RetainedFloor l" using fl by (simp add: u64_eq_iff floor_unat)
  moreover have "retained_records l' = committed_records l @ ext"
    using retained_records_rel [OF rel'] eq by simp
  moreover have "unat (nextMsgID l') = unat (RetainedFloor l) + length (committed_records l @ ext)"
    using rel' fl by (simp add: log_rel_def floor_unat flip: eq)
  ultimately show ?thesis
    using op retained_records_rel [OF rel] unfolding eq by auto
qed

lemma frames_take_strict:
  "i < j \<Longrightarrow> j \<le> length rs \<Longrightarrow> length (frames (take i rs)) < length (frames (take j rs))"
proof -
  assume ij: "i < j" "j \<le> length rs"
  then have "take (j - i) (drop i rs) \<noteq> []" by simp
  then have "0 < length (frames (take (j - i) (drop i rs)))" by (metis frames_eq_Nil length_greater_0_conv)
  with ij show ?thesis by (simp add: take_split_drop [of i j])
qed

section \<open>Properties\<close>

text \<open>A log with one record, for the instances below.\<close>

definition sample_rec :: wal_record where
  "sample_rec = \<lparr>rec_MsgID = 0, rec_TsNs = 7, rec_DedupeKey = ''k'', rec_Payload = [1, 2, 3],
                 rec_VisibleAtNs = 0, rec_RaftIndex = 5\<rparr>"

definition sample_log :: wlog where
  "sample_log = snd (Append io_ok sample_rec (empty_log SyncPerMessage 0 (\<lambda>_. [])))"

lemma sample_encodable: "encodable sample_rec"
  by (simp add: encodable_def sample_rec_def encode_inner_def MaxRecordSize_def)

lemma sample_room: "log_room (empty_log SyncPerMessage 0 (\<lambda>_. [])) sample_rec"
  by (simp add: log_room_def empty_log_def active_def new_segment_def stamped_def sample_rec_def
      length_frame length_encode_inner)

lemma sample_stamped: "stamped sample_rec (empty_log SyncPerMessage 0 d) = sample_rec"
  by (simp add: stamped_def sample_rec_def empty_log_def)

lemma sample_log_stored:
  "sample_log =
     (fsync 0 (stored sample_rec (empty_log SyncPerMessage 0 (\<lambda>_. []))))\<lparr>syncCount := 1,
        committed := written (stored sample_rec (empty_log SyncPerMessage 0 (\<lambda>_. [])))\<rparr>"
  and sample_append: "Append io_ok sample_rec (empty_log SyncPerMessage 0 (\<lambda>_. [])) =
     (App_OK 0 (written sample_log), sample_log)"
proof -
  let ?e = "empty_log SyncPerMessage 0 (\<lambda>_. [])"
  have inv: "wal_inv ?e F_Idle [[]] 0" by (rule wal_inv_empty) simp
  have ap: "Append io_ok sample_rec ?e = append_write io_ok sample_rec (frame sample_rec) ?e"
    using Append_pre_write [of ?e "[[]]" 0 sample_rec io_ok] inv sample_encodable sample_room
    by (simp add: wal_inv_def sample_stamped io_ok_def pre_write_def must_rotate_def)
  have md: "syncMode ?e = SyncPerMessage" by (simp add: empty_log_def)
  have io: "io_write io_ok = None" "io_sync io_ok" by (simp_all add: io_ok_def)
  have sc: "syncCount ?e = 0" "syncSeg ?e = 0" by (simp_all add: empty_log_def)
  show "sample_log = (fsync 0 (stored sample_rec ?e))\<lparr>syncCount := 1,
      committed := written (stored sample_rec ?e)\<rparr>"
    unfolding sample_log_def ap append_write_stored [OF io(1)] md sc using io(2) by simp
  show "Append io_ok sample_rec ?e = (App_OK 0 (written sample_log), sample_log)"
    unfolding sample_log_def ap append_write_stored [OF io(1)] md
    using io(2) by (simp add: sample_rec_def)
qed

lemma sample_reach: "wal_reach SyncPerMessage 0 (sample_log, F_Idle)"
proof (rule wal_reach.wr_step)
  show "wal_reach SyncPerMessage 0 (empty_log SyncPerMessage 0 (\<lambda>_. []), F_Idle)"
    by (rule wal_reach.wr_init [OF Open_empty])
  show "wal_step (empty_log SyncPerMessage 0 (\<lambda>_. []), F_Idle) (sample_log, F_Idle)"
    by (rule ws_append [OF _ sample_room sample_append]) (simp add: io_ok_def)
qed

lemma sample_inv: "wal_inv sample_log F_Idle [[sample_rec]] 1"
proof -
  let ?e = "empty_log SyncPerMessage 0 (\<lambda>_. [])"
  have io: "io_write io_ok = None" by (simp add: io_ok_def)
  have inv: "wal_inv ?e F_Idle [[]] 0" by (rule wal_inv_empty) simp
  obtain R m where R: "wal_inv sample_log F_Idle R m"
      and st: "append_stores sample_rec ?e [[]] (App_OK 0 (written sample_log)) sample_log R"
    using Append_inv [OF inv io sample_room sample_append] by blast
  have rel: "log_rel sample_log R" and c: "commit_at sample_log R m" using R by (simp_all add: wal_inv_def)
  have fields: "segments sample_log = [note_record sample_rec (new_segment 0)]"
    by (simp add: sample_log_stored)
  have "length R = 1" using log_rel_length [OF rel] fields by simp
  then obtain rs where rs: "R = [rs]" by (cases R) auto
  have cm: "committed sample_log = written sample_log" and nx: "nextMsgID sample_log = 1"
    and q: "\<exists>q. rs = q @ [sample_rec]"
    using st rs by (auto simp: append_stores_def sample_stamped)
  have "log_floor sample_log = 0" by (simp add: log_floor_def fields new_segment_def)
  then have "length rs = 1" using rel rs nx by (simp add: log_rel_def)
  with q have R': "R = [[sample_rec]]" using rs by auto
  with wal_inv_committed_all(1) [OF R cm] show ?thesis by simp
qed

lemma sample_records:
  "committed_records sample_log = [sample_rec]" "retained_records sample_log = [sample_rec]"
  "RetainedFloor sample_log = 0" "linked sample_log = [0]"
proof -
  have inv: "log_rel sample_log [[sample_rec]]" "commit_at sample_log [[sample_rec]] 1"
    using sample_inv by (simp_all add: wal_inv_def)
  show "committed_records sample_log = [sample_rec]" "retained_records sample_log = [sample_rec]"
    using committed_records_rel [OF inv] retained_records_rel [OF inv(1)] by simp_all
  show "RetainedFloor sample_log = 0" "linked sample_log = [0]"
    by (simp_all add: sample_log_stored RetainedFloor_def new_segment_def)
qed

lemma sample_recoverable: "recoverable sample_log"
  by (simp add: recoverable_def sample_records)

lemma crash_image_disk: "(\<And>i. synced l i \<le> length (disk l i)) \<Longrightarrow> crash_image l (disk l)"
  unfolding crash_image_def by (metis order.refl take_all)

lemma sample_crash: "crash_image sample_log (disk sample_log)"
  by (rule crash_image_disk) (simp add: sample_log_stored stored_def empty_log_def)





text \<open>C10: Each step of the running log (append with rotation, the three parts of a flush, a
  retention drop) is a sequence of steps of an abstract log, a list of records with a commit mark
  that only appends at the end, moves the mark forward, and removes committed records from the
  front; in particular stored records never change and MsgIDs are never reused.\<close>

theorem wal_step_refines_alog:
  assumes "wal_reach mode sb (l, f)" "mode \<noteq> SyncNone" "wal_step (l, f) (l', f')"
  shows "alog_step\<^sup>*\<^sup>* (log_view l) (log_view l')"
proof -
  obtain R m where inv: "wal_inv l f R m" using wal_reach_inv [OF assms(1,2)] by auto
  then obtain R' m' where "wal_inv l' f' R' m'" "alog_step\<^sup>*\<^sup>* (abs_log l R m) (abs_log l' R' m')"
    using wal_step_inv [OF assms(3)] by blast
  then show ?thesis using log_view_abs inv by simp
qed

theorem wal_step_refines_alog_witness:
  "alog_step\<^sup>*\<^sup>* (log_view (empty_log SyncPerMessage 0 (\<lambda>_. []))) (log_view sample_log)"
  by (rule wal_step_refines_alog [OF wal_reach.wr_init [OF Open_empty] _
        ws_append [OF _ sample_room sample_append]]) (simp_all add: io_ok_def)



text \<open>The group committer releases every waiter.  One flush with the committer idle, whether
  its \<^verbatim>\<open>fsync\<close> succeeds or fails, leaves no appender of an offset written before it blocked.\<close>

theorem flush_releases_waiters:
  assumes "e \<le> written l"
  shows "append_wait (flush ok l) mid e \<noteq> None"
  using assms
  by (auto simp: append_wait_def flush_def flush_begin_def flush_end_def not_less
      split: option.splits if_splits)

theorem flush_releases_waiters_witness:
  "append_wait (flush False (stored sample_rec (empty_log SyncBatched 0 (\<lambda>_. [])))) 0 50 \<noteq> None"
  by (rule flush_releases_waiters)
     (simp add: stored_def length_frame length_encode_inner sample_rec_def)

end
