(* ===== verification/Wal_Reader.thy ===== *)
theory Wal_Reader
  imports Wal_Durability
begin

text \<open>
  The tailing cursor of \<^verbatim>\<open>internal/wal/reader.go\<close>.  A reader holds the segment it is in and its
  byte offset there; its buffered file reader yields the file's bytes from that offset on (the
  files are append-only while a log is open).  \<^verbatim>\<open>Next\<close> runs until it has a record, an error,
  or has to wait on the log's condition variable; \<open>op\<close> is the outcome of opening a file.
\<close>

section \<open>The cursor\<close>

record reader =
  rd_seg :: segment
  rd_pos :: u64

definition rd_stream :: "wlog \<Rightarrow> reader \<Rightarrow> stream" where
  "rd_stream l r = \<lparr>sbuf = drop (unat (rd_pos r)) (disk l (seg_index (rd_seg r))), send = At_EOF\<rparr>"

definition reader_openSegment :: "(u64 \<Rightarrow> bool) \<Rightarrow> wlog \<Rightarrow> segment \<Rightarrow> reader option" where
  "reader_openSegment op l seg =
     (if seg_index seg \<in> set (linked l) \<and> op (seg_index seg)
      then Some \<lparr>rd_seg = seg, rd_pos = 0\<rparr> else None)"

text \<open>The segment whose MsgID range contains the start; the active one by default.\<close>

fun start_segment :: "u64 \<Rightarrow> segment list \<Rightarrow> segment" where
  "start_segment frm (s # t # ss) =
     (if frm < baseMsgID t then s else start_segment frm (t # ss))"
| "start_segment frm ss = last ss"

function reader_scan :: "wlog \<Rightarrow> u64 \<Rightarrow> segment \<Rightarrow> stream \<Rightarrow> u64 \<Rightarrow> wal_err + u64" where
  "reader_scan l frm start s pos =
     (if pos \<ge> fst (readableLenLocked l start) then Inr pos
      else case Decode s of
             (Inl e, _) \<Rightarrow> Inl e
           | (Inr (r, n), s') \<Rightarrow>
               if rec_MsgID r \<ge> frm then Inr pos
               else reader_scan l frm start s' (pos + of_nat n))"
  by pat_completeness auto
termination
  by (relation "measure (\<lambda>(l, frm, start, s, pos). length (sbuf s))")
     (auto dest!: sym [of _ "Decode _"] Decode_shrinks)

declare reader_scan.simps [simp del]

definition NewReader :: "(u64 \<Rightarrow> bool) \<Rightarrow> wlog \<Rightarrow> u64 \<Rightarrow> log_err + reader" where
  "NewReader op l frm =
     (if frm < baseMsgID (hd (segments l)) then Inl LE_OutOfRange
      else let start = start_segment frm (segments l)
        in case reader_openSegment op l start of
             None \<Rightarrow> Inl LE_Open
           | Some r \<Rightarrow>
               (case reader_scan l frm start (rd_stream l r) 0 of
                  Inl e \<Rightarrow> Inl (LE_Read e)
                | Inr pos \<Rightarrow> Inr (r\<lparr>rd_pos := pos\<rparr>)))"

datatype next_res = NR_Rec wal_record | NR_Err log_err | NR_Wait | NR_Cancelled

lemma segmentAfter_later:
  "segmentAfterLocked i ss = Some t \<Longrightarrow> t \<in> set ss \<and> i < seg_index t"
  by (auto simp: segmentAfterLocked_def find_Some_iff)

function Next :: "(u64 \<Rightarrow> bool) \<Rightarrow> bool \<Rightarrow> wlog \<Rightarrow> reader \<Rightarrow> next_res \<times> reader" where
  "Next op cancelled l r =
     (if cancelled then (NR_Cancelled, r)
      else let (limit, isActive) = readableLenLocked l (rd_seg r)
        in if rd_pos r < limit
           then (case Decode (rd_stream l r) of
                   (Inl e, _) \<Rightarrow> (NR_Err (LE_Read e), r)
                 | (Inr (rc, n), _) \<Rightarrow> (NR_Rec rc, r\<lparr>rd_pos := rd_pos r + of_nat n\<rparr>))
           else if \<not> isActive
           then (case segmentAfterLocked (seg_index (rd_seg r)) (segments l) of
                   None \<Rightarrow> (NR_Wait, r)
                 | Some nxt \<Rightarrow>
                     (case reader_openSegment op l nxt of
                        None \<Rightarrow> (NR_Err LE_Open, r)
                      | Some r' \<Rightarrow> Next op cancelled l r'))
           else (NR_Wait, r))"
  by pat_completeness auto

text \<open>Each roll moves to a segment with a larger index.\<close>

lemma later_segments_shrink:
  assumes "t \<in> set ss" "i < seg_index t"
  shows "length (filter (\<lambda>s. seg_index t < seg_index s) ss) < length (filter (\<lambda>s. i < seg_index s) ss)"
proof -
  have "filter (\<lambda>s. seg_index t < seg_index s) ss =
        filter (\<lambda>s. seg_index t < seg_index s) (filter (\<lambda>s. i < seg_index s) ss)"
    using assms(2) by (auto intro: filter_cong)
  moreover have "t \<in> set (filter (\<lambda>s. i < seg_index s) ss)" using assms by simp
  ultimately show ?thesis by (metis length_filter_less less_irrefl)
qed

termination Next
proof (relation "measure (\<lambda>(op, c, l, r). length (filter (\<lambda>s. seg_index (rd_seg r) < seg_index s) (segments l)))",
    goal_cases)
  case (2 op c l r x y z nxt r')
  have "rd_seg r' = nxt" using 2 by (auto simp: reader_openSegment_def split: if_splits)
  with 2 segmentAfter_later later_segments_shrink show ?case by fastforce
qed simp

declare Next.simps [simp del]

section \<open>What a reader delivers\<close>

text \<open>The reader stands before record number \<open>p\<close> of the retained records.\<close>

definition reader_at :: "wlog \<Rightarrow> wal_record list list \<Rightarrow> reader \<Rightarrow> nat \<Rightarrow> bool" where
  "reader_at l R r p \<longleftrightarrow>
     (\<exists>j q. j < length R \<and> q \<le> length (R ! j) \<and>
        seg_index (rd_seg r) = seg_index (segments l ! j) \<and>
        baseByteOffset (rd_seg r) = baseByteOffset (segments l ! j) \<and>
        unat (rd_pos r) = length (frames (take q (R ! j))) \<and>
        p = length (concat (take j R)) + q)"

lemma readable_cong:
  "seg_index s = seg_index t \<Longrightarrow> baseByteOffset s = baseByteOffset t \<Longrightarrow>
   readableLenLocked l s = readableLenLocked l t"
  by (simp add: readableLenLocked_def cong: option.case_cong)

lemma drop_frames_take: "drop (length (frames (take q rs))) (frames rs) = frames (drop q rs)"
  by (metis append_eq_conv_conj append_take_drop_id frames_simps(3))

lemma drop_Cons_nth: "q < length rs \<Longrightarrow> frames (drop q rs) = frame (rs ! q) @ frames (drop (Suc q) rs)"
  by (simp add: Cons_nth_drop_Suc [symmetric])

lemma concat_nth:
  "j < length R \<Longrightarrow> q < length (R ! j) \<Longrightarrow> concat R ! (length (concat (take j R)) + q) = R ! j ! q"
  by (induction R arbitrary: j) (auto simp: nth_append nth_Cons split: nat.splits)

lemma frames_pos_bound:
  assumes "log_rel l R" "j < length R"
  shows "length (frames (R ! j)) < 2 ^ 64"
proof -
  have "length (frames (concat R)) < 2 ^ 64"
    using assms(1) unsigned_less [of "written l", where ?'a = nat] by (simp add: log_rel_def)
  moreover have "concat R = concat (take j R) @ R ! j @ concat (drop (Suc j) R)"
    using arg_cong [OF id_take_nth_drop [OF assms(2)], of concat] by simp
  ultimately show ?thesis by simp
qed

text \<open>Reading inside a segment.\<close>

lemma Next_in_segment:
  assumes rel: "log_rel l R" and j: "j < length R" and q: "q < length (R ! j)"
    and seg: "seg_index (rd_seg r) = seg_index (segments l ! j)"
      "baseByteOffset (rd_seg r) = baseByteOffset (segments l ! j)"
    and pos: "unat (rd_pos r) = length (frames (take q (R ! j)))"
    and lim: "rd_pos r < fst (readableLenLocked l (segments l ! j))"
  shows "\<exists>r'. Next op False l r = (NR_Rec (R ! j ! q), r') \<and> rd_seg r' = rd_seg r \<and>
     unat (rd_pos r') = length (frames (take (Suc q) (R ! j)))"
proof -
  have sr: "disk l (seg_index (segments l ! j)) = frames (R ! j)" "list_all encodable (R ! j)"
    using log_rel_nth [OF rel j] by (simp_all add: seg_rel_def)
  have enc: "encodable (R ! j ! q)" using sr(2) q by (simp add: list_all_length)
  have str: "rd_stream l r = \<lparr>sbuf = frame (R ! j ! q) @ frames (drop (Suc q) (R ! j)), send = At_EOF\<rparr>"
    by (simp add: rd_stream_def seg pos sr(1) drop_frames_take drop_Cons_nth [OF q])
  have tk: "take (Suc q) (R ! j) = take q (R ! j) @ [R ! j ! q]" by (rule take_Suc_conv_app_nth [OF q])
  have le: "length (frames (take (Suc q) (R ! j))) \<le> length (frames (R ! j))"
    using frames_take_le [of "Suc q" "length (R ! j)" "R ! j"] q by simp
  have up: "unat (rd_pos r + of_nat (length (frame (R ! j ! q)))) = length (frames (take (Suc q) (R ! j)))"
    using le frames_pos_bound [OF rel j] pos by (subst unat_add_of_nat) (simp_all add: tk)
  have "Next op False l r =
      (NR_Rec (R ! j ! q), r\<lparr>rd_pos := rd_pos r + of_nat (length (frame (R ! j ! q)))\<rparr>)"
    using lim by (simp add: Next.simps [of op False l r] readable_cong [OF seg] case_prod_unfold
        str Decode_frame [OF enc])
  with up show ?thesis by simp
qed

text \<open>The number of records readers may see.\<close>

abbreviation ncommitted :: "wal_record list list \<Rightarrow> nat \<Rightarrow> nat" where
  "ncommitted R m \<equiv> length (concat (butlast R)) + m"

definition next_post :: "wlog \<Rightarrow> wal_record list list \<Rightarrow> nat \<Rightarrow> nat \<Rightarrow> next_res \<times> reader \<Rightarrow> bool" where
  "next_post l R m p res \<longleftrightarrow>
     (if p < ncommitted R m then fst res = NR_Rec (concat R ! p) \<and> reader_at l R (snd res) (Suc p)
      else fst res = NR_Wait \<and> reader_at l R (snd res) p)"

lemma reader_atI:
  "j < length R \<Longrightarrow> q \<le> length (R ! j) \<Longrightarrow> seg_index (rd_seg r) = seg_index (segments l ! j) \<Longrightarrow>
   baseByteOffset (rd_seg r) = baseByteOffset (segments l ! j) \<Longrightarrow>
   unat (rd_pos r) = length (frames (take q (R ! j))) \<Longrightarrow>
   p = length (concat (take j R)) + q \<Longrightarrow> reader_at l R r p"
  unfolding reader_at_def by blast

lemma sealed_before_commit:
  assumes "Suc j < length R"
  shows "length (concat (take j R)) + length (R ! j) \<le> length (concat (butlast R))"
proof -
  have "j < length (butlast R)" using assms by simp
  then have "concat (butlast R) =
      concat (take j (butlast R)) @ butlast R ! j @ concat (drop (Suc j) (butlast R))"
    by (metis append_assoc concat.simps(2) concat_append id_take_nth_drop)
  then show ?thesis using assms by (simp add: nth_butlast take_butlast)
qed

lemma Next_in_segment_at:
  assumes rel: "log_rel l R" and j: "j < length R" and q: "q < length (R ! j)"
    and seg: "seg_index (rd_seg r) = seg_index (segments l ! j)"
      "baseByteOffset (rd_seg r) = baseByteOffset (segments l ! j)"
    and pos: "unat (rd_pos r) = length (frames (take q (R ! j)))"
    and lim: "rd_pos r < fst (readableLenLocked l (segments l ! j))"
    and p: "length (concat (take j R)) + q < ncommitted R m"
  shows "next_post l R m (length (concat (take j R)) + q) (Next op False l r)"
proof -
  obtain r' where r': "Next op False l r = (NR_Rec (R ! j ! q), r')" "rd_seg r' = rd_seg r"
      "unat (rd_pos r') = length (frames (take (Suc q) (R ! j)))"
    using Next_in_segment [OF rel j q seg pos lim] by blast
  have "reader_at l R r' (Suc (length (concat (take j R)) + q))"
    by (rule reader_atI [OF j, of "Suc q"]) (use q seg r' in simp_all)
  with r'(1) p concat_nth [OF j q] show ?thesis by (simp add: next_post_def)
qed

lemma Next_active:
  assumes rel: "log_rel l R" and c: "commit_at l R m" and j: "Suc j = length R"
    and q: "q \<le> length (R ! j)"
    and seg: "seg_index (rd_seg r) = seg_index (segments l ! j)"
      "baseByteOffset (rd_seg r) = baseByteOffset (segments l ! j)"
    and pos: "unat (rd_pos r) = length (frames (take q (R ! j)))"
  shows "next_post l R m (length (concat (take j R)) + q) (Next op False l r)"
proof -
  have nn: "R \<noteq> []" "segments l \<noteq> []" using log_rel_not_Nil [OF rel] by simp_all
  have ix: "j = length R - 1" "j = length (segments l) - 1" using j log_rel_length [OF rel] by simp_all
  have act: "segments l ! j = active l" using ix(2) nn(2) by (simp add: active_def last_conv_nth)
  have la: "R ! j = last R" using ix(1) nn(1) by (simp add: last_conv_nth)
  have bl: "take j R = butlast R" using ix(1) by (simp add: butlast_conv_take)
  have mle: "m \<le> length (last R)" using c by (simp add: commit_at_def)
  note ra = readable_active [OF rel c]
  show ?thesis
  proof (cases "q < m")
    case True
    then have "q < length (R ! j)" using mle la by simp
    moreover have "rd_pos r < fst (readableLenLocked l (segments l ! j))"
      using frames_take_strict [OF True mle] pos ra(1) unfolding act la by (simp add: u64_less_iff)
    ultimately show ?thesis
      using Next_in_segment_at [OF rel _ _ seg pos] j True by (simp add: bl)
  next
    case False
    then have "\<not> rd_pos r < fst (readableLenLocked l (segments l ! j))"
      using frames_take_le [of m q "last R"] pos ra(1) unfolding act la by (simp add: u64_less_iff)
    then have "Next op False l r = (NR_Wait, r)"
      using ra(2) act by (simp add: Next.simps [of op False l r] readable_cong [OF seg] case_prod_unfold)
    moreover have "reader_at l R r (length (concat (take j R)) + q)"
      by (rule reader_atI [OF _ q seg pos]) (use j in simp_all)
    ultimately show ?thesis using False by (simp add: next_post_def bl)
  qed
qed

lemma Next_at:
  assumes rel: "log_rel l R" and c: "commit_at l R m" and op: "\<forall>i \<in> set (linked l). op i"
    and j: "j < length R" and q: "q \<le> length (R ! j)"
    and seg: "seg_index (rd_seg r) = seg_index (segments l ! j)"
      "baseByteOffset (rd_seg r) = baseByteOffset (segments l ! j)"
    and pos: "unat (rd_pos r) = length (frames (take q (R ! j)))"
  shows "next_post l R m (length (concat (take j R)) + q) (Next op False l r)"
  using j q seg pos
proof (induction "length R - j" arbitrary: j q r)
  case 0
  then show ?case by simp
next
  case (Suc n)
  note len = log_rel_length [OF rel]
  show ?case
  proof (cases "Suc j = length R")
    case True
    from Next_active [OF rel c True Suc.prems(2-5)] show ?thesis .
  next
    case False
    with Suc.prems(1) have sj: "Suc j < length R" "Suc j < length (segments l)" using len by simp_all
    note rs = readable_sealed [OF rel sj(2)]
    note sb = sealed_before_commit [OF sj(1)]
    show ?thesis
    proof (cases "q < length (R ! j)")
      case True
      then have "rd_pos r < fst (readableLenLocked l (segments l ! j))"
        using frames_take_strict [OF True order.refl] Suc.prems(5) rs(1) by (simp add: u64_less_iff)
      from Next_in_segment_at [OF rel Suc.prems(1) True Suc.prems(3-5) this] True sb
      show ?thesis by simp
    next
      case False
      with Suc.prems have qe: "q = length (R ! j)" by simp
      then have lim: "\<not> rd_pos r < fst (readableLenLocked l (segments l ! j))"
        using Suc.prems(5) rs(1) by (simp add: u64_less_iff)
      let ?t = "segments l ! Suc j"
      have nx: "segmentAfterLocked (seg_index (segments l ! j)) (segments l) = Some ?t"
        using segmentAfter_nth [OF log_rel_sorted [OF rel], of j] sj(2) by simp
      have "seg_index ?t \<in> set (linked l)" using rel sj(2) by (auto simp: log_rel_def)
      then have "reader_openSegment op l ?t = Some \<lparr>rd_seg = ?t, rd_pos = 0\<rparr>"
        using op by (simp add: reader_openSegment_def)
      with lim rs(2) nx have step: "Next op False l r = Next op False l \<lparr>rd_seg = ?t, rd_pos = 0\<rparr>"
        by (simp add: Next.simps [of op False l r] readable_cong [OF Suc.prems(3,4)] case_prod_unfold
            Suc.prems(3))
      have "next_post l R m (length (concat (take (Suc j) R)) + 0)
          (Next op False l \<lparr>rd_seg = ?t, rd_pos = 0\<rparr>)"
        by (rule Suc.hyps(1)) (use Suc.hyps(2) sj in simp_all)
      then show ?thesis using step qe sj(1) by (simp add: take_Suc_conv_app_nth)
    qed
  qed
qed

section \<open>Opening a reader\<close>

lemma start_segment_nth:
  assumes "ss \<noteq> []"
  shows "\<exists>j < length ss. start_segment frm ss = ss ! j \<and> (j = 0 \<or> \<not> frm < baseMsgID (ss ! j)) \<and>
     (Suc j < length ss \<longrightarrow> frm < baseMsgID (ss ! Suc j))"
  using assms
proof (induction frm ss rule: start_segment.induct)
  case (1 frm s t ss)
  show ?case
  proof (cases "frm < baseMsgID t")
    case True
    then show ?thesis by (intro exI [of _ 0]) simp
  next
    case False
    then obtain j where j: "j < length (t # ss)" "start_segment frm (t # ss) = (t # ss) ! j"
        "j = 0 \<or> \<not> frm < baseMsgID ((t # ss) ! j)"
        "Suc j < length (t # ss) \<longrightarrow> frm < baseMsgID ((t # ss) ! Suc j)"
      using 1 by auto
    with False show ?thesis by (intro exI [of _ "Suc j"]) (auto simp: nth_Cons split: nat.splits)
  qed
qed auto

lemma reader_scan_at:
  assumes ids: "ids_from mid rs" and enc: "list_all encodable rs" and mid: "mid \<le> unat frm"
    and lim: "unat (fst (readableLenLocked l start)) = length (frames (take K rs))" and K: "K \<le> length rs"
    and b: "length (frames rs) < 2 ^ 64" and q: "q \<le> min K (unat frm - mid)"
    and pos: "unat pos = length (frames (take q rs))"
  shows "\<exists>pos'. reader_scan l frm start \<lparr>sbuf = frames (drop q rs), send = At_EOF\<rparr> pos = Inr pos' \<and>
     unat pos' = length (frames (take (min K (unat frm - mid)) rs))"
  using q pos
proof (induction "K - q" arbitrary: q pos)
  case 0
  then have q: "q = K" and mn: "min K (unat frm - mid) = K" by simp_all
  then show ?case using 0 lim
    by (simp only: reader_scan.simps [of l frm start _ pos] u64_le_iff order.refl if_True) simp
next
  case (Suc n)
  then have qK: "q < K" "q < length rs" using K by simp_all
  have nlim: "\<not> fst (readableLenLocked l start) \<le> pos"
    using frames_take_strict [OF qK(1) K] lim Suc.prems(2) by (simp add: u64_le_iff)
  have "encodable (rs ! q)" using enc qK by (simp add: list_all_length)
  note dec = Decode_frame [OF this, of "frames (drop (Suc q) rs)" At_EOF]
  have id: "unat (rec_MsgID (rs ! q)) = mid + q" by (rule ids_from_nth [OF ids qK(2)])
  have unf: "reader_scan l frm start \<lparr>sbuf = frames (drop q rs), send = At_EOF\<rparr> pos =
      (if frm \<le> rec_MsgID (rs ! q) then Inr pos
       else reader_scan l frm start \<lparr>sbuf = frames (drop (Suc q) rs), send = At_EOF\<rparr>
              (pos + of_nat (length (frame (rs ! q)))))"
    using nlim by (simp add: reader_scan.simps [of l frm start _ pos] drop_Cons_nth [OF qK(2)] dec)
  show ?case
  proof (cases "frm \<le> rec_MsgID (rs ! q)")
    case True
    then have "q = min K (unat frm - mid)" using Suc.prems(1) qK id by (simp add: u64_le_iff)
    with True unf Suc.prems(2) show ?thesis by auto
  next
    case False
    have tk: "take (Suc q) rs = take q rs @ [rs ! q]" by (rule take_Suc_conv_app_nth [OF qK(2)])
    have "length (frames (take (Suc q) rs)) \<le> length (frames rs)"
      using frames_take_le [of "Suc q" "length rs" rs] qK by simp
    then have "unat (pos + of_nat (length (frame (rs ! q)))) = length (frames (take (Suc q) rs))"
      using b Suc.prems(2) by (subst unat_add_of_nat) (simp_all add: tk)
    moreover have "Suc q \<le> min K (unat frm - mid)" using False qK id by (simp add: u64_le_iff)
    moreover have "n = K - Suc q" using Suc.hyps(2) by simp
    ultimately show ?thesis using Suc.hyps(1) [of "Suc q"] False unf by simp
  qed
qed

lemma NewReader_at:
  assumes rel: "log_rel l R" and c: "commit_at l R m" and op: "\<forall>i \<in> set (linked l). op i"
    and fl: "log_floor l \<le> unat frm"
  shows "\<exists>r. NewReader op l frm = Inr r \<and>
     reader_at l R r (min (unat frm - log_floor l) (ncommitted R m))"
proof -
  have nn: "R \<noteq> []" "segments l \<noteq> []" using log_rel_not_Nil [OF rel] by simp_all
  note len = log_rel_length [OF rel]
  obtain j where j: "j < length (segments l)" and st: "start_segment frm (segments l) = segments l ! j"
    and lo: "j = 0 \<or> \<not> frm < baseMsgID (segments l ! j)"
    and hi: "Suc j < length (segments l) \<longrightarrow> frm < baseMsgID (segments l ! Suc j)"
    using start_segment_nth [OF nn(2), of frm] by blast
  have jR: "j < length R" using j len by simp
  let ?mid = "log_floor l + length (concat (take j R))"
  have sr: "seg_rel (disk l) (log_off l + length (frames (concat (take j R)))) ?mid (segments l ! j) (R ! j)"
    by (rule log_rel_nth [OF rel jR])
  then have dk: "disk l (seg_index (segments l ! j)) = frames (R ! j)" and ids: "ids_from ?mid (R ! j)"
    and enc: "list_all encodable (R ! j)" and bm: "unat (baseMsgID (segments l ! j)) = ?mid"
    by (simp_all add: seg_rel_def)
  have lo': "?mid \<le> unat frm"
    using lo fl bm by (auto simp: u64_less_iff)
  define K where "K = (if Suc j < length R then length (R ! j) else m)"
  have "unat (fst (readableLenLocked l (segments l ! j))) = length (frames (take K (R ! j))) \<and>
      K \<le> length (R ! j) \<and>
      length (concat (take j R)) + min K (unat frm - ?mid) = min (unat frm - log_floor l) (ncommitted R m)"
  proof (cases "Suc j < length R")
      case True
      have "unat (baseMsgID (segments l ! Suc j)) = ?mid + length (R ! j)"
        using log_rel_nth [OF rel True] True by (simp add: seg_rel_def take_Suc_conv_app_nth)
      then have "unat frm < ?mid + length (R ! j)" using hi True len by (simp add: u64_less_iff)
      then show ?thesis
        using True readable_sealed(1) [OF rel, of j] len lo' sealed_before_commit [OF True]
        by (auto simp: K_def)
    next
      case False
      then have ix: "j = length R - 1" "j = length (segments l) - 1" using jR len by simp_all
      have "segments l ! j = active l" "R ! j = last R" "take j R = butlast R"
        using ix nn by (simp_all only: active_def last_conv_nth butlast_conv_take not_False_eq_True)
      then show ?thesis
        using False readable_active(1) [OF rel c] c lo' by (auto simp: K_def commit_at_def)
  qed
  then have lim: "unat (fst (readableLenLocked l (segments l ! j))) = length (frames (take K (R ! j)))"
    and K: "K \<le> length (R ! j)"
    and p: "length (concat (take j R)) + min K (unat frm - ?mid) =
            min (unat frm - log_floor l) (ncommitted R m)" by blast+
  have "seg_index (segments l ! j) \<in> set (linked l)" using rel j by (auto simp: log_rel_def)
  then have opn: "reader_openSegment op l (segments l ! j) = Some \<lparr>rd_seg = segments l ! j, rd_pos = 0\<rparr>"
    using op by (simp add: reader_openSegment_def)
  obtain pos' where scan: "reader_scan l frm (segments l ! j) \<lparr>sbuf = frames (R ! j), send = At_EOF\<rparr> 0 = Inr pos'"
    and pos': "unat pos' = length (frames (take (min K (unat frm - ?mid)) (R ! j)))"
    using reader_scan_at [OF ids enc lo' lim K frames_pos_bound [OF rel jR], of 0 0] by auto
  have "\<not> frm < baseMsgID (hd (segments l))" using fl by (simp add: u64_less_iff log_floor_def)
  then have nr: "NewReader op l frm = Inr \<lparr>rd_seg = segments l ! j, rd_pos = pos'\<rparr>"
    by (simp add: NewReader_def st opn rd_stream_def dk scan)
  have "reader_at l R \<lparr>rd_seg = segments l ! j, rd_pos = pos'\<rparr> (min (unat frm - log_floor l) (ncommitted R m))"
    by (rule reader_atI [OF jR, of "min K (unat frm - ?mid)"]) (use K pos' p in simp_all)
  with nr show ?thesis by blast
qed

section \<open>Readers beside a running log\<close>

text \<open>
  A reader and the log interleave; a drop may take any segments but the one the reader is in.  The
  last component collects what the reader has returned.
\<close>

inductive tail_step ::
    "wal_sys \<times> reader \<times> wal_record list \<Rightarrow> wal_sys \<times> reader \<times> wal_record list \<Rightarrow> bool" where
  ts_log: "wal_step s s' \<Longrightarrow> \<exists>g \<in> set (segments (fst s')). seg_index g = seg_index (rd_seg r) \<Longrightarrow>
    tail_step (s, r, out) (s', r, out)"
| ts_read: "Next (\<lambda>_. True) False (fst s) r = (NR_Rec x, r') \<Longrightarrow> tail_step (s, r, out) (s, r', out @ [x])"
| ts_wait: "Next (\<lambda>_. True) False (fst s) r = (NR_Wait, r') \<Longrightarrow> tail_step (s, r, out) (s, r', out)"

lemma segment_floor:
  "log_rel l R \<Longrightarrow> j < length R \<Longrightarrow>
   unat (baseMsgID (segments l ! j)) = log_floor l + length (concat (take j R))"
  using log_rel_nth by (simp add: seg_rel_def)

lemma reader_at_grows:
  assumes rel: "log_rel l R" and rel': "log_rel l' R'" and gr: "log_grows n l R l' R'" and n: "n < length R"
    and at: "reader_at l R r p" and kept: "\<exists>g \<in> set (segments l'). seg_index g = seg_index (rd_seg r)"
  shows "\<exists>p'. reader_at l' R' r p' \<and> log_floor l' + p' = log_floor l + p"
proof -
  obtain j q where j: "j < length R" and q: "q \<le> length (R ! j)"
    and seg: "seg_index (rd_seg r) = seg_index (segments l ! j)"
      "baseByteOffset (rd_seg r) = baseByteOffset (segments l ! j)"
    and pos: "unat (rd_pos r) = length (frames (take q (R ! j)))"
    and p: "p = length (concat (take j R)) + q"
    using at unfolding reader_at_def by blast
  note len = log_rel_length [OF rel] log_rel_length [OF rel']
  have grow: "n + i < length R \<Longrightarrow>
        seg_index (segments l' ! i) = seg_index (segments l ! (n + i)) \<and>
        baseByteOffset (segments l' ! i) = baseByteOffset (segments l ! (n + i)) \<and>
        baseMsgID (segments l' ! i) = baseMsgID (segments l ! (n + i)) \<and> prefix (R ! (n + i)) (R' ! i)" for i
    using gr unfolding log_grows_def by blast
  have g0: "seg_index (segments l' ! 0) = seg_index (segments l ! n)" using grow [of 0] n by simp
  have "\<not> j < n"
  proof
    assume "j < n"
    then have lt: "seg_index (segments l ! j) < seg_index (segments l ! n)"
      using log_rel_sorted [OF rel] n len(1) by (simp add: sorted_wrt_iff_nth_less)
    obtain i where i: "i < length (segments l')" "seg_index (segments l' ! i) = seg_index (segments l ! j)"
      using kept seg(1) by (metis in_set_conv_nth)
    have "seg_index (segments l' ! 0) \<le> seg_index (segments l' ! i)"
      using log_rel_sorted [OF rel'] i(1) by (cases i) (auto simp: sorted_wrt_iff_nth_less less_imp_le)
    with lt i(2) g0 show False by simp
  qed
  then obtain k where k: "j = n + k" by (metis le_Suc_ex not_le)
  have kR: "k < length R'" using gr j k by (simp add: log_grows_def)
  have g: "seg_index (segments l' ! k) = seg_index (segments l ! j)"
      "baseByteOffset (segments l' ! k) = baseByteOffset (segments l ! j)"
      "baseMsgID (segments l' ! k) = baseMsgID (segments l ! j)" "prefix (R ! j) (R' ! k)"
    using grow [of k] j k by simp_all
  have tk: "take q (R' ! k) = take q (R ! j)" "q \<le> length (R' ! k)"
    using g(4) q by (auto simp: prefix_def)
  have "reader_at l' R' r (length (concat (take k R')) + q)"
    by (rule reader_atI [OF kR tk(2)]) (simp_all add: seg g pos tk)
  moreover have "log_floor l' + length (concat (take k R')) = log_floor l + length (concat (take j R))"
    using segment_floor [OF rel j] segment_floor [OF rel' kR] g(3) by simp
  ultimately show ?thesis using p by (intro exI [of _ "length (concat (take k R')) + q"]) simp
qed

lemma alog_step_nth:
  assumes "alog_step a b" "a_commit a \<le> length (a_recs a)" "i - a_floor a < length (a_recs a)"
    "a_floor b \<le> i"
  shows "a_floor a \<le> i \<and> i - a_floor b < length (a_recs b) \<and>
         a_recs b ! (i - a_floor b) = a_recs a ! (i - a_floor a)"
  using assms by (induction rule: alog_step.induct) (auto simp: nth_append)

lemma alog_steps_nth:
  assumes "alog_step\<^sup>*\<^sup>* a b" "a_commit a \<le> length (a_recs a)" "i - a_floor a < length (a_recs a)"
    "a_floor b \<le> i"
  shows "a_floor a \<le> i \<and> i - a_floor b < length (a_recs b) \<and>
         a_recs b ! (i - a_floor b) = a_recs a ! (i - a_floor a) \<and> a_commit b \<le> length (a_recs b)"
  using assms(1,4)
proof (induction rule: rtranclp_induct)
  case base
  then show ?case using assms by simp
next
  case (step b c)
  have "a_floor b \<le> a_floor c" using step.hyps(2) by (induction rule: alog_step.induct) auto
  then have le: "a_floor b \<le> i" using step.prems by simp
  note ih = step.IH [OF le]
  have "a_commit c \<le> length (a_recs c)"
    using step.hyps(2) ih by (induction rule: alog_step.induct) auto
  with alog_step_nth [OF step.hyps(2), of i] ih step.prems show ?case by auto
qed

definition tail_inv :: "nat \<Rightarrow> wal_sys \<times> reader \<times> wal_record list \<Rightarrow> bool" where
  "tail_inv a x \<longleftrightarrow>
     (case x of ((l, f), r, out) \<Rightarrow>
        \<exists>R m p. wal_inv l f R m \<and> reader_at l R r p \<and> log_floor l + p = a + length out \<and>
          ids_from a out \<and>
          (\<forall>k < length out. log_floor l \<le> a + k \<longrightarrow>
             a + k - log_floor l < length (concat R) \<and> out ! k = concat R ! (a + k - log_floor l)))"

lemma tail_invI:
  "wal_inv l f R m \<Longrightarrow> reader_at l R r p \<Longrightarrow> log_floor l + p = a + length out \<Longrightarrow> ids_from a out \<Longrightarrow>
   \<forall>k < length out. log_floor l \<le> a + k \<longrightarrow>
      a + k - log_floor l < length (concat R) \<and> out ! k = concat R ! (a + k - log_floor l) \<Longrightarrow>
   tail_inv a ((l, f), r, out)"
  unfolding tail_inv_def prod.case by blast

lemma tail_inv_log:
  assumes inv: "tail_inv a ((l, f), r, out)" and st: "wal_step (l, f) (l', f')"
    and kept: "\<exists>g \<in> set (segments l'). seg_index g = seg_index (rd_seg r)"
  shows "tail_inv a ((l', f'), r, out)"
proof -
  obtain R m p where i: "wal_inv l f R m" "reader_at l R r p" "log_floor l + p = a + length out"
      "ids_from a out"
    and old: "\<And>k. k < length out \<Longrightarrow> log_floor l \<le> a + k \<Longrightarrow>
       a + k - log_floor l < length (concat R) \<and> out ! k = concat R ! (a + k - log_floor l)"
    using inv by (auto simp: tail_inv_def)
  obtain R' m' n where i': "wal_inv l' f' R' m'" and as: "alog_step\<^sup>*\<^sup>* (abs_log l R m) (abs_log l' R' m')"
    and n: "n < length R" "log_grows n l R l' R'"
    using wal_step_inv [OF st i(1)] by blast
  have rel: "log_rel l R" "log_rel l' R'" using i(1) i' by (simp_all add: wal_inv_def)
  obtain p' where p': "reader_at l' R' r p'" "log_floor l' + p' = log_floor l + p"
    using reader_at_grows [OF rel n(2,1) i(2) kept] by blast
  have fl: "log_floor l \<le> log_floor l'"
    using as
  proof (induction "abs_log l' R' m'" arbitrary: l' R' m' rule: rtranclp_induct)
    case base then show ?case by (simp add: abs_log_def)
  next
    case (step y)
    have mono: "a_floor x \<le> a_floor z" if "alog_step\<^sup>*\<^sup>* x z" for x z
      using that by (induction rule: rtranclp_induct) (auto elim!: alog_step.cases)
    from mono [OF rtranclp.rtrancl_into_rtrancl [OF step(1,2)]] show ?case by (simp add: abs_log_def)
  qed
  have "a + k - log_floor l' < length (concat R') \<and> out ! k = concat R' ! (a + k - log_floor l')"
    if k: "k < length out" "log_floor l' \<le> a + k" for k
  proof -
    have o: "a + k - log_floor l < length (concat R)" "out ! k = concat R ! (a + k - log_floor l)"
      using old k fl by auto
    from alog_steps_nth [OF as wal_inv_commit_le [OF i(1)], of "a + k"] o k(2) show ?thesis
      by (simp add: abs_log_def)
  qed
  with i' p' i(3,4) show ?thesis by (auto simp: tail_inv_def)
qed

lemma tail_inv_next:
  assumes inv: "tail_inv a ((l, f), r, out)" and nx: "Next (\<lambda>_. True) False l r = (res, r')"
  shows "case res of NR_Rec x \<Rightarrow> tail_inv a ((l, f), r', out @ [x])
                   | NR_Wait \<Rightarrow> tail_inv a ((l, f), r', out) | _ \<Rightarrow> False"
    and "a + length out < unat (RetainedFloor l) + length (committed_records l) \<longleftrightarrow> (\<exists>x. res = NR_Rec x)"
proof -
  obtain R m p where i: "wal_inv l f R m" "reader_at l R r p" "log_floor l + p = a + length out"
      "ids_from a out"
    and old: "\<And>k. k < length out \<Longrightarrow> log_floor l \<le> a + k \<Longrightarrow>
       a + k - log_floor l < length (concat R) \<and> out ! k = concat R ! (a + k - log_floor l)"
    using inv by (auto simp: tail_inv_def)
  have rel: "log_rel l R" and c: "commit_at l R m" using i(1) by (simp_all add: wal_inv_def)
  have nn: "R \<noteq> []" using log_rel_not_Nil [OF rel] by simp
  have nc: "length (committed_records l) = ncommitted R m"
    using committed_records_rel [OF rel c] c by (simp add: commit_at_def)
  have ncR: "ncommitted R m \<le> length (concat R)"
    using concat_snoc [OF nn] c by (simp add: commit_at_def)
  have post: "next_post l R m p (res, r')"
  proof -
    obtain j q where "j < length R" "q \<le> length (R ! j)"
        "seg_index (rd_seg r) = seg_index (segments l ! j)"
        "baseByteOffset (rd_seg r) = baseByteOffset (segments l ! j)"
        "unat (rd_pos r) = length (frames (take q (R ! j)))" and p: "p = length (concat (take j R)) + q"
      using i(2) unfolding reader_at_def by blast
    from Next_at [OF rel c _ this(1-5), of "\<lambda>_. True"] show ?thesis unfolding nx p by simp
  qed
  show "a + length out < unat (RetainedFloor l) + length (committed_records l) \<longleftrightarrow> (\<exists>x. res = NR_Rec x)"
    using post i(3) nc by (auto simp: next_post_def floor_unat split: if_splits)
  show "case res of NR_Rec x \<Rightarrow> tail_inv a ((l, f), r', out @ [x])
                   | NR_Wait \<Rightarrow> tail_inv a ((l, f), r', out) | _ \<Rightarrow> False"
  proof (cases "p < ncommitted R m")
    case True
    then have res: "res = NR_Rec (concat R ! p)" and at: "reader_at l R r' (Suc p)"
      using post by (simp_all add: next_post_def)
    have pR: "p < length (concat R)" using True ncR by simp
    have id: "unat (rec_MsgID (concat R ! p)) = log_floor l + p"
      using ids_from_nth [OF conjunct2 [OF log_rel_all [OF rel]] pR] .
    have new: "\<forall>k < length (out @ [concat R ! p]). log_floor l \<le> a + k \<longrightarrow>
       a + k - log_floor l < length (concat R) \<and>
       (out @ [concat R ! p]) ! k = concat R ! (a + k - log_floor l)"
    proof (intro allI impI)
      fix k assume k: "k < length (out @ [concat R ! p])" "log_floor l \<le> a + k"
      show "a + k - log_floor l < length (concat R) \<and>
          (out @ [concat R ! p]) ! k = concat R ! (a + k - log_floor l)"
      proof (cases "k < length out")
        case True
        then show ?thesis using old [OF True k(2)] by (simp add: nth_append)
      next
        case False
        then have ke: "k = length out" using k(1) by simp
        then have "a + k - log_floor l = p" using i(3) by simp
        then show ?thesis using pR ke by (simp only: nth_append_length simp_thms)
      qed
    qed
    have "tail_inv a ((l, f), r', out @ [concat R ! p])"
    proof (rule tail_invI [OF i(1) at _ _ new])
      show "ids_from a (out @ [concat R ! p])" using i(3,4) id by simp
      show "log_floor l + Suc p = a + length (out @ [concat R ! p])" using i(3) by simp
    qed
    then show ?thesis by (simp add: res)
  next
    case False
    then have "res = NR_Wait" "reader_at l R r' p" using post by (simp_all add: next_post_def)
    then show ?thesis using i old by (auto simp: tail_inv_def)
  qed
qed

lemma tail_inv_steps:
  assumes "tail_step\<^sup>*\<^sup>* x y" "tail_inv a x"
  shows "tail_inv a y"
  using assms
proof (induction rule: rtranclp_induct)
  case (step y z)
  from step(2) step.IH [OF step.prems] show ?case
  proof (induction rule: tail_step.induct)
    case (ts_log s s' r out)
    obtain l f l' f' where "s = (l, f)" "s' = (l', f')" by (cases s; cases s')
    with ts_log tail_inv_log [of a l f r out l' f'] show ?case by simp
  next
    case (ts_read s r x r' out)
    then show ?case using tail_inv_next(1) by (cases s) fastforce
  next
    case (ts_wait s r r' out)
    then show ?case using tail_inv_next(1) by (cases s) fastforce
  qed
qed

section \<open>Properties\<close>

text \<open>C11: A tailing reader is exact.  Open a reader at a retained MsgID not beyond the committed
  end and let it run beside appends, rotations, flushes, \<^verbatim>\<open>fsync\<close> failures and retention (of any
  segments but the one it is reading): it returns consecutive MsgIDs from its start on, each with
  the very record the log stores for it, never skips, never repeats, never fails, and returns a
  record as long as one is committed that it has not returned.\<close>

theorem tailing_reader_exact:
  assumes "wal_reach mode sb (l0, f0)" "mode \<noteq> SyncNone"
    and "RetainedFloor l0 \<le> from0"
    and "unat from0 \<le> unat (RetainedFloor l0) + length (committed_records l0)"
    and "NewReader (\<lambda>_. True) l0 from0 = Inr r0"
    and "tail_step\<^sup>*\<^sup>* ((l0, f0), r0, []) ((l, f), r, out)"
  shows "map (\<lambda>x. unat (rec_MsgID x)) out = [unat from0..<unat from0 + length out] \<and>
     (\<forall>k < length out. unat (RetainedFloor l) \<le> unat from0 + k \<longrightarrow>
        out ! k = retained_records l ! (unat from0 + k - unat (RetainedFloor l))) \<and>
     (if unat from0 + length out < unat (RetainedFloor l) + length (committed_records l)
      then \<exists>x. fst (Next (\<lambda>_. True) False l r) = NR_Rec x
      else fst (Next (\<lambda>_. True) False l r) = NR_Wait)"
proof -
  obtain R m where inv: "wal_inv l0 f0 R m" using wal_reach_inv [OF assms(1,2)] by auto
  then have rel: "log_rel l0 R" and c: "commit_at l0 R m" by (simp_all add: wal_inv_def)
  have fl: "log_floor l0 \<le> unat from0" using assms(3) by (simp add: u64_le_iff floor_unat)
  have nc: "length (committed_records l0) = ncommitted R m"
    using committed_records_rel [OF rel c] c by (simp add: commit_at_def)
  have "reader_at l0 R r0 (unat from0 - log_floor l0)"
    using NewReader_at [OF rel c _ fl, of "\<lambda>_. True"] assms(4,5) nc
    by (auto simp: floor_unat min_absorb1)
  then have "tail_inv (unat from0) ((l0, f0), r0, [])"
    using tail_invI [OF inv] fl by simp
  from tail_inv_steps [OF assms(6) this] have ti: "tail_inv (unat from0) ((l, f), r, out)" .
  obtain R' m' where inv': "wal_inv l f R' m'" and ids: "ids_from (unat from0) out"
    and out: "\<And>k. k < length out \<Longrightarrow> log_floor l \<le> unat from0 + k \<Longrightarrow>
       out ! k = concat R' ! (unat from0 + k - log_floor l)"
    using ti by (auto simp: tail_inv_def)
  obtain res r' where nx: "Next (\<lambda>_. True) False l r = (res, r')" by fastforce
  have "retained_records l = concat R'" using inv' retained_records_rel by (simp add: wal_inv_def)
  with out ids tail_inv_next [OF ti nx] nx show ?thesis
    by (auto simp: ids_from_def floor_unat split: next_res.splits)
qed

lemma sample_rel: "log_rel sample_log [[sample_rec]]" "commit_at sample_log [[sample_rec]] 1"
  using sample_inv by (simp_all add: wal_inv_def)

lemma sample_reader:
  "\<exists>r. NewReader (\<lambda>_. True) sample_log 0 = Inr r \<and> reader_at sample_log [[sample_rec]] r 0"
  using NewReader_at [OF sample_rel, of "\<lambda>_. True" 0] sample_records(3) floor_unat [of sample_log] by simp

theorem tailing_reader_exact_witness:
  "\<exists>r0 r out. NewReader (\<lambda>_. True) sample_log 0 = Inr r0 \<and>
     tail_step\<^sup>*\<^sup>* ((sample_log, F_Idle), r0, []) ((sample_log, F_Idle), r, out) \<and>
     length out = 1 \<and> out ! 0 = sample_rec \<and> fst (Next (\<lambda>_. True) False sample_log r) = NR_Wait"
proof -
  obtain r0 where r0: "NewReader (\<lambda>_. True) sample_log 0 = Inr r0"
    and at: "reader_at sample_log [[sample_rec]] r0 0" using sample_reader by blast
  have "tail_inv 0 ((sample_log, F_Idle), r0, [])"
    using tail_invI [OF sample_inv at] sample_records(3) floor_unat [of sample_log] by simp
  note nx = tail_inv_next(2) [OF this]
  obtain res r where n: "Next (\<lambda>_. True) False sample_log r0 = (res, r)" by fastforce
  obtain x where x: "Next (\<lambda>_. True) False (fst (sample_log, F_Idle)) r0 = (NR_Rec x, r)"
    using nx [OF n] n by (auto simp: sample_records)
  have run: "tail_step\<^sup>*\<^sup>* ((sample_log, F_Idle), r0, []) ((sample_log, F_Idle), r, [x])"
    using ts_read [OF x, of "[]"] by auto
  show ?thesis
    using tailing_reader_exact [OF sample_reach _ _ _ r0 run] r0 run
    by (intro exI [of _ r0] exI [of _ r] exI [of _ "[x]"]) (simp add: sample_records)
qed

end
