(* ===== verification/Dedupe_Index.thy ===== *)
theory Dedupe_Index
  imports Prelude "HOL-Library.Multiset"
begin

text \<open>
  The bounded dedupe index of \<^verbatim>\<open>internal/broker/dedupe.go\<close>: a map from keys to elements of a
  doubly linked list kept in recency order (\<^verbatim>\<open>container/list\<close>).  The model keeps the elements'
  identities: \<open>dd_order\<close> is the list of element numbers front to back, \<open>dd_value\<close> the value each
  element holds, \<open>dd_byKey\<close> the map from keys to elements.  The specification is a list of
  (key, MsgID) pairs, most recently used first, cut at the capacity; the index refines it, and the
  interface \<open>dedupe_cache\<close> is what the publish path relies on.
\<close>

section \<open>The index\<close>

type_synonym DedupeEntry = "string \<times> u64"

record dedupe =
  dd_cap :: int
  dd_order :: "nat list"
  dd_value :: "nat \<Rightarrow> DedupeEntry"
  dd_byKey :: "(string \<times> nat) list"
  dd_fresh :: nat

definition NewDedupeIndex :: "int \<Rightarrow> dedupe" where
  "NewDedupeIndex capacity =
     \<lparr>dd_cap = capacity, dd_order = [], dd_value = (\<lambda>_. ([], 0)), dd_byKey = [], dd_fresh = 0\<rparr>"

definition MoveToFront :: "nat \<Rightarrow> nat list \<Rightarrow> nat list" where
  "MoveToFront e xs = (if e \<in> set xs then e # remove1 e xs else xs)"

definition dedupe_Lookup :: "string \<Rightarrow> dedupe \<Rightarrow> u64 option \<times> dedupe" where
  "dedupe_Lookup key d =
     (case map_of (dd_byKey d) key of
        None \<Rightarrow> (None, d)
      | Some e \<Rightarrow> (Some (snd (dd_value d e)), d\<lparr>dd_order := MoveToFront e (dd_order d)\<rparr>))"

definition dedupe_Insert :: "string \<Rightarrow> u64 \<Rightarrow> dedupe \<Rightarrow> dedupe" where
  "dedupe_Insert key msgID d =
     (case map_of (dd_byKey d) key of
        Some e \<Rightarrow> d\<lparr>dd_value := (dd_value d)(e := (key, msgID)),
                     dd_order := MoveToFront e (dd_order d)\<rparr>
      | None \<Rightarrow>
          let e = dd_fresh d;
              d1 = d\<lparr>dd_fresh := Suc e,
                     dd_value := (dd_value d)(e := (key, msgID)),
                     dd_order := e # dd_order d,
                     dd_byKey := AList.update key e (dd_byKey d)\<rparr>
          in if int (length (dd_order d1)) > dd_cap d1 \<and> dd_order d1 \<noteq> []
             then let oldest = last (dd_order d1)
                  in d1\<lparr>dd_byKey := AList.delete (fst (dd_value d1 oldest)) (dd_byKey d1),
                        dd_order := butlast (dd_order d1)\<rparr>
             else d1)"

definition dedupe_Len :: "dedupe \<Rightarrow> nat" where
  "dedupe_Len d = length (dd_order d)"

section \<open>The specification\<close>

type_synonym lru = "DedupeEntry list"

definition lru_touch :: "string \<Rightarrow> lru \<Rightarrow> lru" where
  "lru_touch key es =
     (case map_of es key of
        None \<Rightarrow> es
      | Some v \<Rightarrow> (key, v) # filter (\<lambda>e. fst e \<noteq> key) es)"

definition lru_put :: "nat \<Rightarrow> string \<Rightarrow> u64 \<Rightarrow> lru \<Rightarrow> lru" where
  "lru_put cap key v es = take cap ((key, v) # filter (\<lambda>e. fst e \<noteq> key) es)"

definition lru_of :: "dedupe \<Rightarrow> lru" where
  "lru_of d = map (dd_value d) (dd_order d)"

text \<open>
  The index is well formed: keys and elements correspond one to one, elements are older than the
  next fresh one, and there are at most \<open>cap\<close> of them.
\<close>

definition dedupe_inv :: "dedupe \<Rightarrow> bool" where
  "dedupe_inv d \<longleftrightarrow>
     distinct (dd_order d) \<and> map_inv (dd_byKey d) \<and>
     (\<forall>e \<in> set (dd_order d). e < dd_fresh d) \<and>
     (\<forall>k e. map_of (dd_byKey d) k = Some e \<longleftrightarrow> e \<in> set (dd_order d) \<and> fst (dd_value d e) = k) \<and>
     int (length (dd_order d)) \<le> max 0 (dd_cap d)"

lemma dedupe_inv_New: "dedupe_inv (NewDedupeIndex cap)"
  by (simp add: dedupe_inv_def NewDedupeIndex_def)

lemma dedupe_inv_key:
  "dedupe_inv d \<Longrightarrow>
   map_of (dd_byKey d) k = Some e \<longleftrightarrow> e \<in> set (dd_order d) \<and> fst (dd_value d e) = k"
  unfolding dedupe_inv_def by blast

lemma dedupe_inv_order: "dedupe_inv d \<Longrightarrow> distinct (dd_order d)"
  unfolding dedupe_inv_def by blast

lemma MoveToFront_mset: "mset (MoveToFront e xs) = mset xs"
  by (simp add: MoveToFront_def)

lemma MoveToFront_simps [simp]:
  "set (MoveToFront e xs) = set xs"
  "distinct (MoveToFront e xs) = distinct xs"
  "length (MoveToFront e xs) = length xs"
  using MoveToFront_mset mset_eq_setD mset_eq_imp_distinct_iff mset_eq_length by blast+

lemma lru_keys_distinct:
  assumes "dedupe_inv d"
  shows "distinct (map fst (lru_of d))"
proof -
  have "inj_on (\<lambda>e. fst (dd_value d e)) (set (dd_order d))"
  proof (rule inj_onI)
    fix e f assume "e \<in> set (dd_order d)" "f \<in> set (dd_order d)"
      and eq: "fst (dd_value d e) = fst (dd_value d f)"
    then have "map_of (dd_byKey d) (fst (dd_value d e)) = Some e"
      "map_of (dd_byKey d) (fst (dd_value d f)) = Some f"
      using dedupe_inv_key [OF assms] by blast+
    then show "e = f" using eq by (metis option.inject)
  qed
  then show ?thesis
    using dedupe_inv_order [OF assms] by (simp add: lru_of_def distinct_map comp_def)
qed

lemma lru_of_lookup:
  assumes "dedupe_inv d"
  shows "map_of (lru_of d) key = map_option (\<lambda>e. snd (dd_value d e)) (map_of (dd_byKey d) key)"
proof (cases "map_of (dd_byKey d) key")
  case None
  then have "\<forall>e \<in> set (dd_order d). fst (dd_value d e) \<noteq> key"
    using dedupe_inv_key [OF assms] by (metis option.distinct(1))
  then have "map_of (lru_of d) key = None" by (auto simp: lru_of_def map_of_eq_None_iff)
  then show ?thesis using None by simp
next
  case (Some e)
  then have "e \<in> set (dd_order d)" "fst (dd_value d e) = key"
    using dedupe_inv_key [OF assms] by blast+
  then have "(key, snd (dd_value d e)) \<in> set (lru_of d)" by (force simp: lru_of_def)
  with lru_keys_distinct [OF assms] Some show ?thesis by simp
qed

text \<open>Removing an element from the order is filtering its key out of the abstract list.\<close>

lemma lru_of_remove:
  assumes "dedupe_inv d" "e \<in> set (dd_order d)" "fst (dd_value d e) = key"
  shows "map (dd_value d) (remove1 e (dd_order d)) = filter (\<lambda>x. fst x \<noteq> key) (lru_of d)"
proof -
  note dist = dedupe_inv_order [OF assms(1)]
  have "\<forall>f \<in> set (dd_order d). e \<noteq> f \<longleftrightarrow> fst (dd_value d f) \<noteq> key"
  proof
    fix f assume f: "f \<in> set (dd_order d)"
    then have "map_of (dd_byKey d) (fst (dd_value d f)) = Some f"
      "map_of (dd_byKey d) (fst (dd_value d e)) = Some e"
      using assms(2) dedupe_inv_key [OF assms(1)] by blast+
    then show "e \<noteq> f \<longleftrightarrow> fst (dd_value d f) \<noteq> key" using assms(3) by (metis option.inject)
  qed
  then have "filter (\<lambda>f. e \<noteq> f) (dd_order d) = filter (\<lambda>f. fst (dd_value d f) \<noteq> key) (dd_order d)"
    by (auto intro: filter_cong)
  then show ?thesis
    by (simp add: lru_of_def filter_map comp_def distinct_remove1_removeAll [OF dist] removeAll_filter_not_eq)
qed

lemma Lookup_refines:
  assumes "dedupe_inv d"
  shows "fst (dedupe_Lookup key d) = map_of (lru_of d) key"
    and "lru_of (snd (dedupe_Lookup key d)) = lru_touch key (lru_of d)"
    and "dedupe_inv (snd (dedupe_Lookup key d))"
proof -
  show "fst (dedupe_Lookup key d) = map_of (lru_of d) key"
    by (simp add: dedupe_Lookup_def lru_of_lookup [OF assms] split: option.split)
  show "dedupe_inv (snd (dedupe_Lookup key d))"
    using assms by (auto simp: dedupe_Lookup_def dedupe_inv_def split: option.split)
  show "lru_of (snd (dedupe_Lookup key d)) = lru_touch key (lru_of d)"
  proof (cases "map_of (dd_byKey d) key")
    case None
    then show ?thesis by (simp add: dedupe_Lookup_def lru_touch_def lru_of_lookup [OF assms])
  next
    case (Some e)
    then have e: "e \<in> set (dd_order d)" "fst (dd_value d e) = key"
      using dedupe_inv_key [OF assms] by blast+
    then have v: "dd_value d e = (key, snd (dd_value d e))" by (metis prod.collapse)
    have "lru_of (snd (dedupe_Lookup key d)) = dd_value d e # map (dd_value d) (remove1 e (dd_order d))"
      using Some e(1) by (simp add: dedupe_Lookup_def lru_of_def MoveToFront_def)
    also have "\<dots> = (key, snd (dd_value d e)) # filter (\<lambda>x. fst x \<noteq> key) (lru_of d)"
      unfolding lru_of_remove [OF assms e] using v by simp
    also have "\<dots> = lru_touch key (lru_of d)"
      using Some by (simp add: lru_touch_def lru_of_lookup [OF assms])
    finally show ?thesis .
  qed
qed

text \<open>The fresh element at the front, before the capacity is enforced.\<close>

definition dedupe_push :: "string \<Rightarrow> u64 \<Rightarrow> dedupe \<Rightarrow> dedupe" where
  "dedupe_push key v d =
     d\<lparr>dd_fresh := Suc (dd_fresh d), dd_value := (dd_value d)(dd_fresh d := (key, v)),
       dd_order := dd_fresh d # dd_order d, dd_byKey := AList.update key (dd_fresh d) (dd_byKey d)\<rparr>"

definition dedupe_wf :: "dedupe \<Rightarrow> bool" where
  "dedupe_wf d \<longleftrightarrow>
     distinct (dd_order d) \<and> map_inv (dd_byKey d) \<and>
     (\<forall>e \<in> set (dd_order d). e < dd_fresh d) \<and>
     (\<forall>k e. map_of (dd_byKey d) k = Some e \<longleftrightarrow> e \<in> set (dd_order d) \<and> fst (dd_value d e) = k)"

lemma dedupe_inv_wf: "dedupe_inv d \<longleftrightarrow> dedupe_wf d \<and> int (length (dd_order d)) \<le> max 0 (dd_cap d)"
  by (simp add: dedupe_inv_def dedupe_wf_def)

lemma dedupe_push_sel [simp]:
  "dd_order (dedupe_push key v d) = dd_fresh d # dd_order d" "dd_cap (dedupe_push key v d) = dd_cap d"
  by (simp_all add: dedupe_push_def)

lemma dedupe_push_wf:
  assumes "dedupe_wf d" "map_of (dd_byKey d) key = None"
  shows "dedupe_wf (dedupe_push key v d)"
proof -
  have fr: "dd_fresh d \<notin> set (dd_order d)" using assms(1) unfolding dedupe_wf_def by blast
  have ky: "\<And>k e. map_of (dd_byKey d) k = Some e \<longleftrightarrow> e \<in> set (dd_order d) \<and> fst (dd_value d e) = k"
    using assms(1) unfolding dedupe_wf_def by blast
  have nk: "fst (dd_value d e) \<noteq> key" if "e \<in> set (dd_order d)" for e
    using ky [of key e] that assms(2) by auto
  have "map_of (dd_byKey (dedupe_push key v d)) k = Some e \<longleftrightarrow>
      e \<in> set (dd_order (dedupe_push key v d)) \<and> fst (dd_value (dedupe_push key v d) e) = k" for k e
    using ky [of k e] fr nk by (auto simp: dedupe_push_def update_conv)
  moreover have "distinct (dd_order (dedupe_push key v d))" "map_inv (dd_byKey (dedupe_push key v d))"
    using assms(1) fr by (auto simp: dedupe_wf_def dedupe_push_def distinct_update)
  moreover have "\<forall>e \<in> set (dd_order (dedupe_push key v d)). e < dd_fresh (dedupe_push key v d)"
    using assms(1) by (auto simp: dedupe_wf_def dedupe_push_def less_Suc_eq)
  ultimately show ?thesis unfolding dedupe_wf_def by blast
qed

text \<open>Evicting the back element.\<close>

definition dedupe_evict :: "dedupe \<Rightarrow> dedupe" where
  "dedupe_evict d =
     d\<lparr>dd_byKey := AList.delete (fst (dd_value d (last (dd_order d)))) (dd_byKey d),
       dd_order := butlast (dd_order d)\<rparr>"

lemma dedupe_evict_sel [simp]:
  "dd_order (dedupe_evict d) = butlast (dd_order d)" "dd_cap (dedupe_evict d) = dd_cap d"
  by (simp_all add: dedupe_evict_def)

lemma dedupe_evict_wf:
  assumes "dedupe_wf d" "dd_order d \<noteq> []"
  shows "dedupe_wf (dedupe_evict d)"
proof -
  let ?o = "last (dd_order d)"
  have split: "dd_order d = butlast (dd_order d) @ [?o]" using assms(2) by simp
  have dist: "distinct (dd_order d)" using assms(1) unfolding dedupe_wf_def by blast
  then have "distinct (butlast (dd_order d) @ [?o])" using split by simp
  then have nin: "?o \<notin> set (butlast (dd_order d))"
      "set (dd_order d) = insert ?o (set (butlast (dd_order d)))"
    using arg_cong [OF split, of set] by simp_all
  have ky: "\<And>k e. map_of (dd_byKey d) k = Some e \<longleftrightarrow> e \<in> set (dd_order d) \<and> fst (dd_value d e) = k"
    using assms(1) unfolding dedupe_wf_def by blast
  have oth: "fst (dd_value d e) \<noteq> fst (dd_value d ?o)" if "e \<in> set (butlast (dd_order d))" for e
  proof
    assume eq: "fst (dd_value d e) = fst (dd_value d ?o)"
    have "map_of (dd_byKey d) (fst (dd_value d e)) = Some e" "map_of (dd_byKey d) (fst (dd_value d ?o)) = Some ?o"
      using ky that nin(2) by blast+
    with eq have "e = ?o" by (metis option.inject)
    with that nin(1) show False by simp
  qed
  have "map_of (dd_byKey (dedupe_evict d)) k = Some e \<longleftrightarrow>
      e \<in> set (dd_order (dedupe_evict d)) \<and> fst (dd_value (dedupe_evict d) e) = k" for k e
    using ky [of k e] nin oth [of e] by (auto simp: dedupe_evict_def delete_conv)
  moreover have "distinct (dd_order (dedupe_evict d))" "map_inv (dd_byKey (dedupe_evict d))"
    using assms(1) dist by (auto simp: dedupe_wf_def dedupe_evict_def distinct_butlast distinct_delete)
  moreover have "\<forall>e \<in> set (dd_order (dedupe_evict d)). e < dd_fresh (dedupe_evict d)"
    using assms(1) by (auto simp: dedupe_wf_def dedupe_evict_def dest: in_set_butlastD)
  ultimately show ?thesis unfolding dedupe_wf_def by blast
qed

lemma Insert_cases:
  "dedupe_Insert key v d =
     (case map_of (dd_byKey d) key of
        Some e \<Rightarrow> d\<lparr>dd_value := (dd_value d)(e := (key, v)), dd_order := MoveToFront e (dd_order d)\<rparr>
      | None \<Rightarrow>
          if int (length (dd_order (dedupe_push key v d))) > dd_cap d
          then dedupe_evict (dedupe_push key v d) else dedupe_push key v d)"
  by (simp add: dedupe_Insert_def dedupe_push_def dedupe_evict_def Let_def split: option.split)

lemma Insert_inv:
  assumes "dedupe_inv d"
  shows "dedupe_inv (dedupe_Insert key v d)"
proof (cases "map_of (dd_byKey d) key")
  case None
  have wf: "dedupe_wf (dedupe_push key v d)" "dedupe_wf (dedupe_evict (dedupe_push key v d))"
    using dedupe_push_wf [OF _ None] dedupe_evict_wf [of "dedupe_push key v d"] assms
    by (simp_all add: dedupe_inv_wf)
  show ?thesis
    using wf assms None by (auto simp: Insert_cases dedupe_inv_wf)
next
  case (Some e)
  then have e: "e \<in> set (dd_order d)" "fst (dd_value d e) = key"
    using dedupe_inv_key [OF assms] by blast+
  show ?thesis
    using assms e Some by (auto simp: Insert_cases dedupe_inv_def)
qed

lemma Insert_refines:
  assumes "dedupe_inv d"
  shows "lru_of (dedupe_Insert key v d) = lru_put (nat (dd_cap d)) key v (lru_of d)"
proof (cases "map_of (dd_byKey d) key")
  case None
  have fr: "dd_fresh d \<notin> set (dd_order d)" using assms unfolding dedupe_inv_def by blast
  have push: "lru_of (dedupe_push key v d) = (key, v) # lru_of d"
    using fr by (simp add: lru_of_def dedupe_push_def)
  have "map_of (lru_of d) key = None" using None by (simp add: lru_of_lookup [OF assms])
  then have flt: "filter (\<lambda>x. fst x \<noteq> key) (lru_of d) = lru_of d"
    by (auto simp: filter_id_conv map_of_eq_None_iff)
  have len: "length (lru_of d) = length (dd_order d)" "int (length (dd_order d)) \<le> max 0 (dd_cap d)"
    using assms by (simp_all add: lru_of_def dedupe_inv_def)
  show ?thesis
  proof (cases "int (length (dd_order (dedupe_push key v d))) > dd_cap d")
    case True
    then have "nat (dd_cap d) = length (lru_of d)" using len by simp
    moreover have "lru_of (dedupe_evict (dedupe_push key v d)) = butlast (lru_of (dedupe_push key v d))"
      by (simp add: lru_of_def dedupe_evict_def map_butlast)
    ultimately show ?thesis
      using True None by (simp add: Insert_cases lru_put_def push flt butlast_conv_take)
  next
    case False
    then show ?thesis using None len by (simp add: Insert_cases lru_put_def push flt)
  qed
next
  case (Some e)
  then have e: "e \<in> set (dd_order d)" "fst (dd_value d e) = key"
    using dedupe_inv_key [OF assms] by blast+
  have "e \<notin> set (remove1 e (dd_order d))" using dedupe_inv_order [OF assms] by simp
  then have "map ((dd_value d)(e := (key, v))) (remove1 e (dd_order d)) = map (dd_value d) (remove1 e (dd_order d))"
    by simp
  then have lru: "lru_of (dedupe_Insert key v d) = (key, v) # filter (\<lambda>x. fst x \<noteq> key) (lru_of d)"
    using Some e(1) by (simp add: Insert_cases lru_of_def [of "_\<lparr>dd_value := _, dd_order := _\<rparr>"] MoveToFront_def
        lru_of_remove [OF assms e])
  have "length (lru_of (dedupe_Insert key v d)) = length (dd_order d)"
    using Some by (simp add: Insert_cases lru_of_def)
  then have "length (lru_of (dedupe_Insert key v d)) \<le> nat (dd_cap d)"
    using assms e(1) by (auto simp: dedupe_inv_def max_def split: if_splits)
  then show ?thesis by (simp add: lru_put_def lru)
qed

section \<open>The interface of the publish path\<close>

locale dedupe_cache =
  fixes inv :: "'d \<Rightarrow> bool" and look :: "'d \<Rightarrow> string \<Rightarrow> u64 option"
    and Lookup :: "string \<Rightarrow> 'd \<Rightarrow> u64 option \<times> 'd" and Insert :: "string \<Rightarrow> u64 \<Rightarrow> 'd \<Rightarrow> 'd"
  assumes Lookup_result: "inv d \<Longrightarrow> fst (Lookup k d) = look d k"
    and Lookup_keeps: "inv d \<Longrightarrow> look (snd (Lookup k d)) = look d"
    and Lookup_inv: "inv d \<Longrightarrow> inv (snd (Lookup k d))"
    and Insert_inv': "inv d \<Longrightarrow> inv (Insert k v d)"
    and Insert_look: "inv d \<Longrightarrow> look (Insert k v d) k' = Some w \<Longrightarrow>
           k' = k \<and> w = v \<or> k' \<noteq> k \<and> look d k' = Some w"
begin

text \<open>Every entry satisfies \<open>P\<close>; only an insert can break that, and only with its own pair.\<close>

definition entries_ok :: "(string \<Rightarrow> u64 \<Rightarrow> bool) \<Rightarrow> 'd \<Rightarrow> bool" where
  "entries_ok P d \<longleftrightarrow> inv d \<and> (\<forall>k v. look d k = Some v \<longrightarrow> P k v)"

lemma entries_ok_Lookup:
  "entries_ok P d \<Longrightarrow> entries_ok P (snd (Lookup k d))"
  by (simp add: entries_ok_def Lookup_keeps Lookup_inv)

lemma entries_ok_Insert: "entries_ok P d \<Longrightarrow> P k v \<Longrightarrow> entries_ok P (Insert k v d)"
  by (auto simp: entries_ok_def Insert_inv' dest: Insert_look)

lemma entries_ok_mono: "entries_ok P d \<Longrightarrow> (\<And>k v. P k v \<Longrightarrow> Q k v) \<Longrightarrow> entries_ok Q d"
  by (simp add: entries_ok_def)

lemma entries_ok_hit: "entries_ok P d \<Longrightarrow> fst (Lookup k d) = Some v \<Longrightarrow> P k v"
  by (simp add: entries_ok_def Lookup_result)

end

lemma lru_touch_lookup:
  "distinct (map fst es) \<Longrightarrow> map_of (lru_touch k es) = map_of es"
proof (rule ext)
  fix k' assume "distinct (map fst es)"
  have "map_of (filter (\<lambda>e. fst e \<noteq> k) es) k' = (if k' = k then None else map_of es k')" for k'
    by (induction es) auto
  then show "map_of (lru_touch k es) k' = map_of es k'"
    by (simp add: lru_touch_def split: option.split)
qed

lemma map_of_takeD: "map_of (take n es) k = Some v \<Longrightarrow> map_of es k = Some v"
proof (induction es arbitrary: n)
  case (Cons e es)
  then show ?case by (cases n; cases e) (auto split: if_splits)
qed simp

lemma lru_put_lookup:
  assumes "map_of (lru_put cap k v es) k' = Some w"
  shows "k' = k \<and> w = v \<or> k' \<noteq> k \<and> map_of es k' = Some w"
proof -
  have "map_of (filter (\<lambda>e. fst e \<noteq> k) es) k' = (if k' = k then None else map_of es k')"
    by (induction es) auto
  with map_of_takeD [OF assms [unfolded lru_put_def]] show ?thesis by (simp split: if_splits)
qed

interpretation ddi: dedupe_cache dedupe_inv "\<lambda>d. map_of (lru_of d)" dedupe_Lookup dedupe_Insert
proof (unfold_locales, goal_cases)
  case (1 d k) then show ?case by (rule Lookup_refines)
next
  case (2 d k) then show ?case
    by (simp add: Lookup_refines lru_touch_lookup lru_keys_distinct)
next
  case (3 d k) then show ?case by (rule Lookup_refines)
next
  case (4 d k v) then show ?case by (rule Insert_inv)
next
  case (5 d k v k' w) then show ?case by (metis Insert_refines lru_put_lookup)
qed

section \<open>The dedupe window\<close>

datatype dedupe_op = D_Lookup string | D_Insert string u64

fun op_key :: "dedupe_op \<Rightarrow> string" where
  "op_key (D_Lookup k) = k"
| "op_key (D_Insert k v) = k"

fun run_op :: "dedupe_op \<Rightarrow> dedupe \<Rightarrow> dedupe" where
  "run_op (D_Lookup k) d = snd (dedupe_Lookup k d)"
| "run_op (D_Insert k v) d = dedupe_Insert k v d"

text \<open>Key \<open>k\<close> holds \<open>v\<close>, and only keys of \<open>K\<close> are more recent.\<close>

definition recent :: "string \<Rightarrow> u64 \<Rightarrow> string set \<Rightarrow> lru \<Rightarrow> bool" where
  "recent k v K es \<longleftrightarrow>
     distinct (map fst es) \<and> (\<exists>xs ys. es = xs @ (k, v) # ys \<and> fst ` set xs \<subseteq> K)"

lemma recent_head: "distinct (map fst ((k, v) # ys)) \<Longrightarrow> recent k v {} ((k, v) # ys)"
  unfolding recent_def by (intro conjI exI [of _ "[]"] exI [of _ ys]) simp_all

lemma recent_mono: "recent k v K es \<Longrightarrow> K \<subseteq> L \<Longrightarrow> recent k v L es"
  unfolding recent_def by blast

lemma filter_keys_distinct: "distinct (map fst es) \<Longrightarrow> distinct (map fst (filter P es))"
  by (rule distinct_map_filter)

lemma recent_front:
  assumes "recent k v K es" "k' \<noteq> k"
  shows "recent k v (insert k' K) ((k', w) # filter (\<lambda>e. fst e \<noteq> k') es)"
proof -
  obtain xs ys where es: "es = xs @ (k, v) # ys" "fst ` set xs \<subseteq> K" and d: "distinct (map fst es)"
    using assms(1) by (auto simp: recent_def)
  have "(k', w) # filter (\<lambda>e. fst e \<noteq> k') es =
      ((k', w) # filter (\<lambda>e. fst e \<noteq> k') xs) @ (k, v) # filter (\<lambda>e. fst e \<noteq> k') ys"
    using es(1) assms(2) by simp
  moreover have "distinct (map fst ((k', w) # filter (\<lambda>e. fst e \<noteq> k') es))"
    using filter_keys_distinct [OF d] by auto
  moreover have "fst ` set ((k', w) # filter (\<lambda>e. fst e \<noteq> k') xs) \<subseteq> insert k' K" using es(2) by auto
  ultimately show ?thesis unfolding recent_def by blast
qed

lemma recent_take:
  assumes "recent k v K es" "finite K" "card K < cap"
  shows "recent k v K (take cap es)"
proof -
  obtain xs ys where es: "es = xs @ (k, v) # ys" "fst ` set xs \<subseteq> K" and d: "distinct (map fst es)"
    using assms(1) by (auto simp: recent_def)
  have "length xs = card (fst ` set xs)"
    using d es(1) by (metis distinct_append distinct_card length_map list.set_map map_append)
  also have "\<dots> \<le> card K" by (rule card_mono [OF assms(2) es(2)])
  finally obtain n where "cap = Suc (length xs + n)" using assms(3) less_iff_Suc_add by (metis le_less_trans)
  then have "take cap es = xs @ (k, v) # take n ys" by (simp add: es(1))
  moreover have "distinct (map fst (take cap es))" using d by (metis distinct_take take_map)
  ultimately show ?thesis using es(2) unfolding recent_def by blast
qed

lemma recent_op:
  assumes inv: "dedupe_inv d" and r: "recent k v K (lru_of d)" and fin: "finite K"
    and c: "card (insert (op_key p) K) < nat (dd_cap d)" and no: "\<forall>w. p \<noteq> D_Insert k w"
  shows "recent k v (insert (op_key p) K) (lru_of (run_op p d))"
proof (cases p)
  case (D_Lookup k')
  note dist = lru_keys_distinct [OF inv]
  have grow: "recent k v (insert k' K) (lru_of d)" using r unfolding recent_def by blast
  show ?thesis
  proof (cases "map_of (lru_of d) k'")
    case None
    then show ?thesis using grow D_Lookup by (simp add: Lookup_refines [OF inv] lru_touch_def)
  next
    case (Some w)
    have t: "lru_touch k' (lru_of d) = (k', w) # filter (\<lambda>e. fst e \<noteq> k') (lru_of d)"
      using Some by (simp add: lru_touch_def)
    show ?thesis
    proof (cases "k' = k")
      case True
      have "map_of (lru_of d) k = Some v"
        using r dist by (auto simp: recent_def map_of_eq_Some_iff)
      with True Some have "w = v" by simp
      moreover have "distinct (map fst (lru_touch k' (lru_of d)))"
        using filter_keys_distinct [OF dist] by (auto simp: t)
      ultimately have "recent k v {} (lru_touch k' (lru_of d))"
        using recent_head True unfolding t by simp
      then show ?thesis using D_Lookup recent_mono [of k v "{}"] by (simp add: Lookup_refines [OF inv])
    next
      case False
      from recent_front [OF r False] t show ?thesis
        using D_Lookup by (simp add: Lookup_refines [OF inv])
    qed
  qed
next
  case (D_Insert k' w)
  then have "k' \<noteq> k" using no by auto
  from recent_take [OF recent_front [OF r this, of w], of "nat (dd_cap d)"] D_Insert fin c show ?thesis
    by (simp add: Insert_refines [OF inv] lru_put_def)
qed

lemma run_op_inv: "dedupe_inv d \<Longrightarrow> dedupe_inv (run_op p d) \<and> dd_cap (run_op p d) = dd_cap d"
proof (intro conjI)
  assume inv: "dedupe_inv d"
  show "dedupe_inv (run_op p d)" using Lookup_refines(3) [OF inv] Insert_inv [OF inv] by (cases p) simp_all
  show "dd_cap (run_op p d) = dd_cap d"
    by (cases p) (simp_all add: dedupe_Lookup_def Insert_cases split: option.split)
qed

lemma recent_run:
  assumes "dedupe_inv d" "recent k v K (lru_of d)" "finite K"
    and "card (K \<union> op_key ` set ps) < nat (dd_cap d)" "\<forall>w. D_Insert k w \<notin> set ps"
  shows "recent k v (K \<union> op_key ` set ps) (lru_of (fold run_op ps d)) \<and> dedupe_inv (fold run_op ps d)"
  using assms
proof (induction ps arbitrary: d K)
  case (Cons p ps)
  have sub: "insert (op_key p) K \<subseteq> K \<union> op_key ` set (p # ps)" by auto
  have c: "card (insert (op_key p) K) < nat (dd_cap d)"
    using card_mono [OF _ sub] Cons.prems(3,4) by simp
  have "recent k v (insert (op_key p) K) (lru_of (run_op p d))"
    using recent_op [OF Cons.prems(1,2,3) c] Cons.prems(5) by auto
  with Cons.IH [of "run_op p d" "insert (op_key p) K"] run_op_inv [OF Cons.prems(1), of p] Cons.prems
  show ?case by simp
qed simp

lemma Lookup_after_ops:
  assumes "dedupe_inv d" "card (op_key ` set ps) < nat (dd_cap d)" "\<forall>w. D_Insert k w \<notin> set ps"
  shows "fst (dedupe_Lookup k (fold run_op ps (dedupe_Insert k v d))) = Some v"
proof -
  let ?d = "dedupe_Insert k v d"
  have inv: "dedupe_inv ?d" and cap: "dd_cap ?d = dd_cap d"
    using run_op_inv [OF assms(1), of "D_Insert k v"] by simp_all
  have "0 < nat (dd_cap d)" using assms(2) by simp
  then obtain n where n: "nat (dd_cap d) = Suc n" by (cases "nat (dd_cap d)") auto
  have "lru_of ?d = (k, v) # take n (filter (\<lambda>e. fst e \<noteq> k) (lru_of d))"
    by (simp add: Insert_refines [OF assms(1)] lru_put_def n)
  then have "recent k v {} (lru_of ?d)"
    using lru_keys_distinct [OF inv] recent_head by simp
  from recent_run [OF inv this] assms(2,3) cap
  have r: "recent k v (op_key ` set ps) (lru_of (fold run_op ps ?d))" "dedupe_inv (fold run_op ps ?d)"
    by simp_all
  then have "map_of (lru_of (fold run_op ps ?d)) k = Some v"
    by (auto simp: recent_def map_of_eq_Some_iff)
  then show ?thesis by (simp add: Lookup_refines [OF r(2)])
qed

section \<open>Properties\<close>

text \<open>C21: The dedupe index refines a bounded most-recently-used list.  On every well-formed index
  \<^verbatim>\<open>Lookup\<close> answers what the list holds and moves the key to its front, \<^verbatim>\<open>Insert\<close> puts the
  pair at the front and keeps the \<^verbatim>\<open>cap\<close> most recent keys; both keep the index well formed,
  with at most \<^verbatim>\<open>cap\<close> entries.\<close>

theorem dedupe_refines_lru:
  assumes "dedupe_inv d"
  shows "fst (dedupe_Lookup k d) = map_of (lru_of d) k \<and>
     lru_of (snd (dedupe_Lookup k d)) = lru_touch k (lru_of d) \<and>
     lru_of (dedupe_Insert k v d) = lru_put (nat (dd_cap d)) k v (lru_of d) \<and>
     dedupe_inv (snd (dedupe_Lookup k d)) \<and> dedupe_inv (dedupe_Insert k v d) \<and>
     int (dedupe_Len (dedupe_Insert k v d)) \<le> max 0 (dd_cap d)"
proof -
  have "int (dedupe_Len (dedupe_Insert k v d)) \<le> max 0 (dd_cap (dedupe_Insert k v d))"
    using Insert_inv [OF assms] by (simp add: dedupe_inv_def dedupe_Len_def)
  moreover have "dd_cap (dedupe_Insert k v d) = dd_cap d"
    using run_op_inv [OF assms, of "D_Insert k v"] by simp
  ultimately show ?thesis by (simp add: Lookup_refines [OF assms] Insert_refines [OF assms] Insert_inv [OF assms])
qed

theorem dedupe_refines_lru_witness:
  "lru_of (dedupe_Insert ''b'' 2 (dedupe_Insert ''a'' 1 (NewDedupeIndex 1))) = [(''b'', 2)]"
proof -
  have inv: "dedupe_inv (dedupe_Insert ''a'' 1 (NewDedupeIndex 1))" by (rule Insert_inv [OF dedupe_inv_New])
  have "dd_cap (dedupe_Insert ''a'' 1 (NewDedupeIndex 1)) = 1"
    using run_op_inv [OF dedupe_inv_New, of "D_Insert ''a'' 1"] by (simp add: NewDedupeIndex_def)
  then show ?thesis using dedupe_refines_lru [OF inv, of "''b''" 2] by (simp add: lru_put_def)
qed

text \<open>The dedupe window.  After a key has been recorded, any sequence of lookups and inserts
  that touches fewer than \<^verbatim>\<open>cap\<close> distinct keys and does not record that key again leaves it
  resolvable to the same MsgID.\<close>

theorem dedupe_window:
  assumes "dedupe_inv d" "card (op_key ` set ps) < nat (dd_cap d)" "\<forall>w. D_Insert k w \<notin> set ps"
  shows "fst (dedupe_Lookup k (fold run_op ps (dedupe_Insert k v d))) = Some v"
  by (rule Lookup_after_ops [OF assms])

theorem dedupe_window_witness:
  "fst (dedupe_Lookup ''k'' (fold run_op [D_Insert ''a'' 8, D_Lookup ''z'', D_Insert ''a'' 9]
     (dedupe_Insert ''k'' 7 (NewDedupeIndex 3)))) = Some 7"
proof (rule dedupe_window [OF dedupe_inv_New])
  show "card (op_key ` set [D_Insert ''a'' 8, D_Lookup ''z'', D_Insert ''a'' 9]) < nat (dd_cap (NewDedupeIndex 3))"
    by (simp add: NewDedupeIndex_def card_insert_if)
qed simp

end
