(* ===== verification/Consumer_State.thy ===== *)
theory Consumer_State
  imports Prelude "HOL-Library.FSet"
begin

text \<open>
  The per-consumer ack state of \<^verbatim>\<open>internal/broker/consumer.go\<close> and the expiry scan of
  \<^verbatim>\<open>redelivery.go\<close>.  The maps are association lists with distinct keys; the one-slot
  \<^verbatim>\<open>wake\<close> channel is a boolean; times are nanoseconds.  The abstract content is the set of
  acknowledged MsgIDs, which \<^verbatim>\<open>Ack\<close> extends by one element; the concrete state keeps it as the
  longest prefix (\<^verbatim>\<open>hasAcked\<close>, \<^verbatim>\<open>lastAcked\<close>) and a remainder (\<^verbatim>\<open>aboveLast\<close>).
\<close>

section \<open>State\<close>

record inflight_msg =
  inf_MsgID :: u64
  inf_Topic :: string
  inf_Partition :: int
  inf_Payload :: bytes
  inf_DeliveredAt :: int
  inf_Attempts :: int

record consumer =
  cons_ID :: string
  hasAcked :: bool
  lastAcked :: u64
  aboveLast :: "u64 fset"
  inflight :: "(u64 \<times> inflight_msg) list"
  cons_sub :: "nat option"
  window :: int
  paused :: bool
  wake :: bool
  persistDirty :: bool

definition newConsumer :: "string \<Rightarrow> int \<Rightarrow> consumer" where
  "newConsumer cid win =
     \<lparr>cons_ID = cid, hasAcked = False, lastAcked = 0, aboveLast = {||}, inflight = [],
      cons_sub = None, window = win, paused = False, wake = False, persistDirty = False\<rparr>"

section \<open>Flow control\<close>

definition credit_ready :: "consumer \<Rightarrow> bool" where
  "credit_ready c \<longleftrightarrow> \<not> paused c \<and> int (length (inflight c)) < window c"

text \<open>
  One round of \<^verbatim>\<open>awaitCredit\<close>: the test under the lock, then the blocking \<^verbatim>\<open>select\<close>.
  \<open>pick_cancel\<close> is the choice the \<^verbatim>\<open>select\<close> makes when both of its cases are ready.
\<close>

datatype credit_res = Credit | Recheck | Cancelled | Blocked

definition credit_select :: "bool \<Rightarrow> bool \<Rightarrow> consumer \<Rightarrow> credit_res \<times> consumer" where
  "credit_select ctx_done pick_cancel c =
     (if ctx_done \<and> (pick_cancel \<or> \<not> wake c) then (Cancelled, c)
      else if wake c then (Recheck, c\<lparr>wake := False\<rparr>)
      else (Blocked, c))"

definition awaitCredit :: "bool \<Rightarrow> bool \<Rightarrow> consumer \<Rightarrow> credit_res \<times> consumer" where
  "awaitCredit ctx_done pick_cancel c =
     (if credit_ready c then (Credit, c) else credit_select ctx_done pick_cancel c)"

definition signalWake :: "consumer \<Rightarrow> consumer" where
  "signalWake c = c\<lparr>wake := True\<rparr>"

definition setPaused :: "bool \<Rightarrow> consumer \<Rightarrow> consumer" where
  "setPaused p c = (let c1 = c\<lparr>paused := p\<rparr> in if \<not> p then signalWake c1 else c1)"

section \<open>Acknowledgement\<close>

datatype consumer_err = E_NotInflight u64

text \<open>The loop that drains contiguous acks.\<close>

function ack_drain :: "u64 \<Rightarrow> u64 fset \<Rightarrow> u64 \<times> u64 fset" where
  "ack_drain la abv =
     (if la + 1 |\<in>| abv then ack_drain (la + 1) (abv |-| {|la + 1|}) else (la, abv))"
  by pat_completeness auto
termination
  by (relation "measure (\<lambda>(la, abv). fcard abv)") (simp_all only: in_measure prod.case fcard_fminus1_less wf_measure)

declare ack_drain.simps [simp del]

definition Ack :: "u64 \<Rightarrow> consumer \<Rightarrow> consumer_err option \<times> consumer" where
  "Ack msgID c =
     (case map_of (inflight c) msgID of
        None \<Rightarrow> (Some (E_NotInflight msgID), c)
      | Some _ \<Rightarrow>
          let c1 = c\<lparr>inflight := AList.delete msgID (inflight c)\<rparr>;
              c2 = (if \<not> hasAcked c1 \<and> msgID = 0 \<or> hasAcked c1 \<and> msgID = lastAcked c1 + 1
                    then let (la, abv) = ack_drain msgID (aboveLast c1)
                         in c1\<lparr>lastAcked := la, hasAcked := True, aboveLast := abv\<rparr>
                    else if \<not> hasAcked c1 \<or> msgID > lastAcked c1 + 1
                    then c1\<lparr>aboveLast := finsert msgID (aboveLast c1)\<rparr>
                    else c1)
          in (None, signalWake (c2\<lparr>persistDirty := True\<rparr>)))"

text \<open>\<^verbatim>\<open>nackOrKill\<close>: an error, a redelivery snapshot (\<open>Inl\<close>) or a dead message (\<open>Inr\<close>).\<close>

definition nackOrKill ::
    "int \<Rightarrow> u64 \<Rightarrow> int \<Rightarrow> consumer \<Rightarrow>
     (consumer_err + (inflight_msg + inflight_msg)) \<times> consumer" where
  "nackOrKill now msgID threshold c =
     (case map_of (inflight c) msgID of
        None \<Rightarrow> (Inl (E_NotInflight msgID), c)
      | Some im \<Rightarrow>
          if threshold > 0 \<and> inf_Attempts im \<ge> threshold
          then (Inr (Inr im),
                signalWake (c\<lparr>inflight := AList.delete msgID (inflight c), persistDirty := True\<rparr>))
          else let im' = im\<lparr>inf_Attempts := inf_Attempts im + 1, inf_DeliveredAt := now\<rparr>
               in (Inr (Inl im'),
                   c\<lparr>inflight := AList.update msgID im' (inflight c), persistDirty := True\<rparr>))"

section \<open>The expiry scan\<close>

text \<open>One inflight entry of \<^verbatim>\<open>collectExpired\<close>: kept, redelivered with one more attempt, or dead.\<close>

datatype expiry = Keep | Redeliver inflight_msg | Dead inflight_msg

definition expire_one :: "int \<Rightarrow> int \<Rightarrow> int \<Rightarrow> inflight_msg \<Rightarrow> expiry" where
  "expire_one timeout threshold now im =
     (if \<not> inf_DeliveredAt im + timeout < now then Keep
      else if threshold > 0 \<and> inf_Attempts im \<ge> threshold then Dead im
      else Redeliver (im\<lparr>inf_Attempts := inf_Attempts im + 1, inf_DeliveredAt := now\<rparr>))"

fun expire_all ::
    "int \<Rightarrow> int \<Rightarrow> int \<Rightarrow> (u64 \<times> inflight_msg) list \<Rightarrow>
     (u64 \<times> inflight_msg) list \<times> inflight_msg list \<times> inflight_msg list" where
  "expire_all timeout threshold now [] = ([], [], [])"
| "expire_all timeout threshold now ((k, im) # es) =
     (let (rest, tasks, dead) = expire_all timeout threshold now es
      in case expire_one timeout threshold now im of
           Keep \<Rightarrow> ((k, im) # rest, tasks, dead)
         | Redeliver im' \<Rightarrow> ((k, im') # rest, im' # tasks, dead)
         | Dead im' \<Rightarrow> (rest, tasks, im' # dead))"

text \<open>The redelivery tasks (with the subscription they go to) and the dead messages.\<close>

definition collectExpired ::
    "int \<Rightarrow> int \<Rightarrow> int \<Rightarrow> consumer \<Rightarrow>
     ((nat \<times> inflight_msg) list \<times> inflight_msg list) \<times> consumer" where
  "collectExpired timeout threshold now c =
     (case cons_sub c of
        None \<Rightarrow> (([], []), c)
      | Some ch \<Rightarrow>
          if paused c \<or> inflight c = [] then (([], []), c)
          else let (infl, tasks, dead) = expire_all timeout threshold now (inflight c);
                   c1 = c\<lparr>inflight := infl\<rparr>
               in ((map (Pair ch) tasks, dead),
                   if dead \<noteq> [] then signalWake (c1\<lparr>persistDirty := True\<rparr>) else c1))"

section \<open>The delivery goroutine's own updates\<close>

definition deliver_record ::
    "string \<Rightarrow> int \<Rightarrow> int \<Rightarrow> u64 \<Rightarrow> bytes \<Rightarrow> consumer \<Rightarrow> inflight_msg \<times> consumer" where
  "deliver_record topic part now msgID payload c =
     (let im = \<lparr>inf_MsgID = msgID, inf_Topic = topic, inf_Partition = part, inf_Payload = payload,
                 inf_DeliveredAt = now, inf_Attempts = 1\<rparr>
      in (im, c\<lparr>inflight := AList.update msgID im (inflight c)\<rparr>))"

definition rollback_delivery :: "u64 \<Rightarrow> consumer \<Rightarrow> consumer" where
  "rollback_delivery msgID c = c\<lparr>inflight := AList.delete msgID (inflight c)\<rparr>"

section \<open>The acknowledged set\<close>

definition acked :: "consumer \<Rightarrow> u64 set" where
  "acked c = (if hasAcked c then {i. i \<le> lastAcked c} else {}) \<union> fset (aboveLast c)"

text \<open>
  The prefix is maximal, the inflight map is keyed by the messages' own ids, and its keys are
  distinct.
\<close>

definition ack_inv :: "consumer \<Rightarrow> bool" where
  "ack_inv c \<longleftrightarrow>
     (if hasAcked c then \<forall>x \<in> fset (aboveLast c). Suc (unat (lastAcked c)) < unat x
      else 0 \<notin> fset (aboveLast c))"

definition infl_inv :: "consumer \<Rightarrow> bool" where
  "infl_inv c \<longleftrightarrow> map_inv (inflight c) \<and> (\<forall>(k, im) \<in> set (inflight c). inf_MsgID im = k)"

lemma ack_drain_spec:
  assumes "\<forall>x \<in> fset abv. unat la < unat x" "ack_drain la abv = (la', abv')"
  shows "{i. i \<le> la'} \<union> fset abv' = {i. i \<le> la} \<union> fset abv \<and>
     (\<forall>x \<in> fset abv'. Suc (unat la') < unat x) \<and> la \<le> la'"
  using assms
proof (induction la abv rule: ack_drain.induct)
  case (1 la abv)
  show ?case
  proof (cases "la + 1 |\<in>| abv")
    case False
    then have eq: "la' = la" "abv' = abv" using 1(3) by (simp_all add: ack_drain.simps [of la])
    have "Suc (unat la) < unat x" if x: "x \<in> fset abv" for x
    proof -
      have "unat la < unat x" using 1(2) x by blast
      moreover have "x \<noteq> la + 1" using False x by auto
      moreover have "unat (la + 1) = Suc (unat la)"
        using \<open>unat la < unat x\<close> unsigned_less [of x, where ?'a = nat] by (intro unat_Suc_no_wrap) simp
      ultimately show ?thesis by (metis Suc_lessI word_unat_eq_iff)
    qed
    with eq show ?thesis by blast
  next
    case True
    then have lt: "unat la < unat (la + 1)" using 1(2) by blast
    have up: "unat (la + 1) = Suc (unat la)"
      using lt unsigned_less [of "la + 1", where ?'a = nat] by (intro unat_Suc_no_wrap) simp
    have rec: "ack_drain (la + 1) (abv |-| {|la + 1|}) = (la', abv')"
      using 1(3) True by (simp add: ack_drain.simps [of la])
    have pre: "\<forall>x \<in> fset (abv |-| {|la + 1|}). unat (la + 1) < unat x"
    proof
      fix x assume "x \<in> fset (abv |-| {|la + 1|})"
      then have "x \<in> fset abv" "x \<noteq> la + 1" by auto
      then have "unat la < unat x" "unat x \<noteq> unat (la + 1)" using 1(2) by (blast, metis word_unat_eq_iff)
      then show "unat (la + 1) < unat x" using up by simp
    qed
    note ih = 1(1) [OF True pre rec]
    have "{i. i \<le> la + 1} = insert (la + 1) {i. i \<le> la}"
      using up by (auto simp: u64_le_iff u64_eq_iff le_Suc_eq)
    then have "{i. i \<le> la + 1} \<union> fset (abv |-| {|la + 1|}) = {i. i \<le> la} \<union> fset abv"
      using True by auto
    moreover have "la \<le> la'" using ih lt by (auto simp: u64_le_iff)
    ultimately show ?thesis using ih by simp
  qed
qed

lemma Ack_cases:
  "Ack m c =
     (if map_of (inflight c) m = None then (Some (E_NotInflight m), c)
      else (None, (signalWake
        ((if \<not> hasAcked c \<and> m = 0 \<or> hasAcked c \<and> m = lastAcked c + 1
          then c\<lparr>inflight := AList.delete m (inflight c),
                 lastAcked := fst (ack_drain m (aboveLast c)), hasAcked := True,
                 aboveLast := snd (ack_drain m (aboveLast c))\<rparr>
          else if \<not> hasAcked c \<or> m > lastAcked c + 1
          then c\<lparr>inflight := AList.delete m (inflight c), aboveLast := finsert m (aboveLast c)\<rparr>
          else c\<lparr>inflight := AList.delete m (inflight c)\<rparr>)\<lparr>persistDirty := True\<rparr>))))"
  by (simp add: Ack_def Let_def case_prod_unfold split: option.split)

lemma Ack_ok_sel:
  assumes "Ack m c = (None, c')"
  shows "inflight c' = AList.delete m (inflight c)" "wake c'" "persistDirty c'" "paused c' = paused c"
    "window c' = window c" "cons_ID c' = cons_ID c" "cons_sub c' = cons_sub c" "map_of (inflight c) m \<noteq> None"
  using assms by (auto simp: Ack_cases signalWake_def split: if_splits)

lemma Ack_acked:
  assumes inv: "ack_inv c" and ok: "Ack m c = (None, c')"
    and room: "hasAcked c \<Longrightarrow> Suc (unat (lastAcked c)) < 2 ^ 64"
  shows "acked c' = insert m (acked c) \<and> ack_inv c'"
proof -
  have up: "unat (lastAcked c + 1) = Suc (unat (lastAcked c))" if "hasAcked c"
    using room [OF that] by (rule unat_Suc_no_wrap)
  consider (extend) "\<not> hasAcked c \<and> m = 0 \<or> hasAcked c \<and> m = lastAcked c + 1"
    | (ahead) "\<not> (\<not> hasAcked c \<and> m = 0 \<or> hasAcked c \<and> m = lastAcked c + 1)"
        "\<not> hasAcked c \<or> m > lastAcked c + 1"
    | (old) "hasAcked c" "m \<noteq> lastAcked c + 1" "\<not> m > lastAcked c + 1" by blast
  then show ?thesis
  proof cases
    case extend
    obtain la abv where d: "ack_drain m (aboveLast c) = (la, abv)" by fastforce
    have c': "lastAcked c' = la" "hasAcked c'" "aboveLast c' = abv"
      using ok extend d by (auto simp: Ack_cases signalWake_def split: if_splits)
    have pre: "\<forall>x \<in> fset (aboveLast c). unat m < unat x"
      using inv extend up by (auto simp: ack_inv_def unat_gt_0 split: if_splits)
    have "{i. i \<le> m} = insert m (if hasAcked c then {i. i \<le> lastAcked c} else {})"
      using extend up by (auto simp: u64_le_iff u64_eq_iff le_Suc_eq)
    with ack_drain_spec [OF pre d] c' show ?thesis by (auto simp: acked_def ack_inv_def)
  next
    case ahead
    then have c': "lastAcked c' = lastAcked c" "hasAcked c' = hasAcked c" "aboveLast c' = finsert m (aboveLast c)"
      using ok by (auto simp: Ack_cases signalWake_def split: if_splits)
    with inv ahead up show ?thesis by (auto simp: acked_def ack_inv_def u64_less_iff split: if_splits)
  next
    case old
    then have c': "lastAcked c' = lastAcked c" "hasAcked c' = hasAcked c" "aboveLast c' = aboveLast c"
      using ok by (auto simp: Ack_cases signalWake_def split: if_splits)
    have "m \<le> lastAcked c"
      using old up by (metis le_Suc_eq not_less u64_le_iff u64_eq_iff)
    with old c' inv show ?thesis by (auto simp: acked_def ack_inv_def)
  qed
qed

section \<open>The scan, entry by entry\<close>

fun survivor :: "expiry \<Rightarrow> inflight_msg \<Rightarrow> inflight_msg option" where
  "survivor Keep im = Some im"
| "survivor (Redeliver im') im = Some im'"
| "survivor (Dead im') im = None"

lemma expire_all_keys: "fst ` set (fst (expire_all timeout threshold now es)) \<subseteq> fst ` set es"
  by (induction timeout threshold now es rule: expire_all.induct)
     (auto simp: case_prod_unfold Let_def split: expiry.splits)

lemma expire_all_map:
  "map_inv es \<Longrightarrow>
   map_inv (fst (expire_all timeout threshold now es)) \<and>
   map_of (fst (expire_all timeout threshold now es)) k =
     (case map_of es k of None \<Rightarrow> None
      | Some im \<Rightarrow> survivor (expire_one timeout threshold now im) im)"
proof (induction timeout threshold now es rule: expire_all.induct)
  case (2 timeout threshold now k' im es)
  have nk: "k' \<notin> fst ` set es" and inv: "map_inv es" using 2(2) by simp_all
  then have nk': "k' \<notin> fst ` set (fst (expire_all timeout threshold now es))"
    using expire_all_keys by blast
  then have none: "map_of (fst (expire_all timeout threshold now es)) k' = None"
    by (simp add: map_of_eq_None_iff)
  have "map_of es k' = None" using nk by (simp add: map_of_eq_None_iff)
  with 2(1) [OF inv] nk' none show ?case
    by (auto simp: case_prod_unfold Let_def split: expiry.splits)
qed simp

lemma expire_all_lists:
  "set (fst (snd (expire_all timeout threshold now es))) =
     {im'. \<exists>k im. (k, im) \<in> set es \<and> expire_one timeout threshold now im = Redeliver im'}"
  "set (snd (snd (expire_all timeout threshold now es))) =
     {im'. \<exists>k im. (k, im) \<in> set es \<and> expire_one timeout threshold now im = Dead im'}"
  by (induction timeout threshold now es rule: expire_all.induct)
     (auto simp: case_prod_unfold Let_def split: expiry.splits)

lemma expire_all_len:
  "length (fst (expire_all timeout threshold now es)) \<le> length es"
  "snd (snd (expire_all timeout threshold now es)) = [] \<Longrightarrow>
   length (fst (expire_all timeout threshold now es)) = length es"
  by (induction timeout threshold now es rule: expire_all.induct)
     (auto simp: case_prod_unfold Let_def split: expiry.splits)

section \<open>The consumer beside its delivery goroutine\<close>

text \<open>
  Where the delivery goroutine is: about to test the gate, blocked in the \<^verbatim>\<open>select\<close>, past the
  gate, or gone.  The session, the broker and the sweeper act on the consumer at any time.
\<close>

datatype credit_pc = P_Test | P_Wait | P_Deliver | P_Exit

inductive cons_step :: "int \<Rightarrow> int \<Rightarrow> consumer \<times> credit_pc \<Rightarrow> consumer \<times> credit_pc \<Rightarrow> bool"
  for threshold timeout where
  cs_ready: "credit_ready c \<Longrightarrow> cons_step threshold timeout (c, P_Test) (c, P_Deliver)"
| cs_unready: "\<not> credit_ready c \<Longrightarrow> cons_step threshold timeout (c, P_Test) (c, P_Wait)"
| cs_recv: "credit_select dn pick c = (Recheck, c') \<Longrightarrow> cons_step threshold timeout (c, P_Wait) (c', P_Test)"
| cs_cancel: "credit_select dn pick c = (Cancelled, c') \<Longrightarrow>
    cons_step threshold timeout (c, P_Wait) (c', P_Exit)"
| cs_deliver: "deliver_record topic part now m payload c = (im, c') \<Longrightarrow>
    cons_step threshold timeout (c, P_Deliver) (c', P_Test)"
| cs_rollback: "deliver_record topic part now m payload c = (im, c') \<Longrightarrow>
    cons_step threshold timeout (c, P_Deliver) (rollback_delivery m c', P_Exit)"
| cs_subscribe: "cons_step threshold timeout (c, P_Exit) (c\<lparr>cons_sub := Some ch\<rparr>, P_Test)"
| cs_ack: "Ack m c = (e, c') \<Longrightarrow> hasAcked c \<longrightarrow> lastAcked c \<noteq> - 1 \<Longrightarrow>
    cons_step threshold timeout (c, pc) (c', pc)"
| cs_nack: "nackOrKill now m threshold c = (r, c') \<Longrightarrow> cons_step threshold timeout (c, pc) (c', pc)"
| cs_pause: "cons_step threshold timeout (c, pc) (setPaused b c, pc)"
| cs_expire: "collectExpired timeout threshold now c = (r, c') \<Longrightarrow>
    cons_step threshold timeout (c, pc) (c', pc)"

definition attempts_inv :: "int \<Rightarrow> consumer \<Rightarrow> bool" where
  "attempts_inv threshold c \<longleftrightarrow>
     (\<forall>(k, im) \<in> set (inflight c). 1 \<le> inf_Attempts im \<and> (threshold > 0 \<longrightarrow> inf_Attempts im \<le> threshold))"

definition window_inv :: "consumer \<Rightarrow> credit_pc \<Rightarrow> bool" where
  "window_inv c pc \<longleftrightarrow>
     int (length (inflight c)) \<le> max 0 (window c) \<and>
     (pc = P_Deliver \<longrightarrow> int (length (inflight c)) < window c)"

text \<open>A waiting goroutine whose gate is open has a wake-up pending.\<close>

definition wake_inv :: "consumer \<Rightarrow> credit_pc \<Rightarrow> bool" where
  "wake_inv c pc \<longleftrightarrow> (pc = P_Wait \<and> credit_ready c \<longrightarrow> wake c)"

definition cons_inv :: "int \<Rightarrow> consumer \<times> credit_pc \<Rightarrow> bool" where
  "cons_inv threshold s \<longleftrightarrow>
     ack_inv (fst s) \<and> infl_inv (fst s) \<and> attempts_inv threshold (fst s) \<and>
     window_inv (fst s) (snd s) \<and> wake_inv (fst s) (snd s)"

lemma cons_inv_new: "cons_inv threshold (newConsumer cid win, P_Exit)"
  by (simp add: cons_inv_def newConsumer_def ack_inv_def infl_inv_def attempts_inv_def window_inv_def wake_inv_def)

lemma set_delete_subset: "set (AList.delete k m) \<subseteq> set m"
  by (auto simp: AList.delete_eq)

lemma set_update_subset: "set (AList.update k v m) \<subseteq> insert (k, v) (set m)"
  by (induction m) auto

lemma infl_inv_delete: "infl_inv c \<Longrightarrow> inflight c' = AList.delete m (inflight c) \<Longrightarrow> infl_inv c'"
  using set_delete_subset [of m "inflight c"] by (auto simp: infl_inv_def)

lemma attempts_inv_sub:
  "attempts_inv t c \<Longrightarrow> set (inflight c') \<subseteq> set (inflight c) \<Longrightarrow> attempts_inv t c'"
  by (auto simp: attempts_inv_def)

lemma infl_inv_update:
  "infl_inv c \<Longrightarrow> inf_MsgID im = m \<Longrightarrow> inflight c' = AList.update m im (inflight c) \<Longrightarrow> infl_inv c'"
  using set_update_subset [of m im "inflight c"] by (fastforce simp: infl_inv_def)

lemma attempts_inv_update:
  assumes "attempts_inv t c" "inflight c' = AList.update m im (inflight c)"
    "1 \<le> inf_Attempts im" "t > 0 \<longrightarrow> inf_Attempts im \<le> t"
  shows "attempts_inv t c'"
  using assms set_update_subset [of m im "inflight c"] by (fastforce simp: attempts_inv_def)

lemma window_inv_shrink:
  "window_inv c pc \<Longrightarrow> length (inflight c') \<le> length (inflight c) \<Longrightarrow> window c' = window c \<Longrightarrow> window_inv c' pc"
  by (auto simp: window_inv_def)

text \<open>Each operation keeps the invariant, wherever the goroutine is.\<close>

lemma cons_inv_Ack:
  assumes inv: "cons_inv t (c, pc)" and a: "Ack m c = (e, c')" and room: "hasAcked c \<longrightarrow> lastAcked c \<noteq> - 1"
  shows "cons_inv t (c', pc)"
proof (cases e)
  case (Some x)
  then have "c' = c" using a by (auto simp: Ack_cases split: if_splits)
  with inv show ?thesis by simp
next
  case None
  note s = Ack_ok_sel [OF a [unfolded None]]
  have "Suc (unat (lastAcked c)) < 2 ^ 64" if "hasAcked c"
    using room that by (intro u64_below_max) simp
  then have "ack_inv c'" using Ack_acked [of c m c'] inv a None by (simp add: cons_inv_def)
  moreover have "window_inv c' pc"
    using inv s length_delete_le [of m "inflight c"] window_inv_shrink [of c pc c'] by (simp add: cons_inv_def)
  ultimately show ?thesis
    using inv s infl_inv_delete [of c c' m] attempts_inv_sub [of t c c'] set_delete_subset [of m "inflight c"]
    by (simp add: cons_inv_def wake_inv_def)
qed

lemma cons_inv_nack:
  assumes inv: "cons_inv t (c, pc)" and n: "nackOrKill now m t c = (r, c')"
  shows "cons_inv t (c', pc)"
proof (cases "map_of (inflight c) m")
  case None
  then show ?thesis using inv n by (simp add: nackOrKill_def)
next
  case (Some im)
  then have im: "(m, im) \<in> set (inflight c)" by (rule map_of_SomeD)
  show ?thesis
  proof (cases "t > 0 \<and> inf_Attempts im \<ge> t")
    case True
    then have c': "c' = signalWake (c\<lparr>inflight := AList.delete m (inflight c), persistDirty := True\<rparr>)"
      using n Some by (simp add: nackOrKill_def)
    have "window_inv c' pc"
      using inv c' length_delete_le [of m "inflight c"] window_inv_shrink [of c pc c']
      by (simp add: cons_inv_def signalWake_def)
    then show ?thesis
      using inv c' infl_inv_delete [of c c' m] attempts_inv_sub [of t c c'] set_delete_subset [of m "inflight c"]
      by (simp add: cons_inv_def wake_inv_def signalWake_def ack_inv_def)
  next
    case False
    let ?im = "im\<lparr>inf_Attempts := inf_Attempts im + 1, inf_DeliveredAt := now\<rparr>"
    have c': "c' = c\<lparr>inflight := AList.update m ?im (inflight c), persistDirty := True\<rparr>"
      using n Some False by (auto simp: nackOrKill_def Let_def)
    have len: "length (inflight c') = length (inflight c)"
      using c' Some by (simp add: length_update_present)
    have "inf_MsgID ?im = m" "1 \<le> inf_Attempts ?im" "t > 0 \<longrightarrow> inf_Attempts ?im \<le> t"
      using inv im False by (auto simp: cons_inv_def infl_inv_def attempts_inv_def)
    then have "infl_inv c'" "attempts_inv t c'"
      using inv c' infl_inv_update [of c ?im m c'] attempts_inv_update [of t c c' m ?im]
      by (simp_all add: cons_inv_def)
    then show ?thesis
      using inv c' len by (simp add: cons_inv_def window_inv_def wake_inv_def ack_inv_def credit_ready_def)
  qed
qed

lemma expire_all_ok:
  assumes "map_inv es" "\<forall>(k, im) \<in> set es. inf_MsgID im = k \<and> 1 \<le> inf_Attempts im \<and> (t > 0 \<longrightarrow> inf_Attempts im \<le> t)"
  shows "map_inv (fst (expire_all timeout t now es))"
    and "\<forall>(k, im) \<in> set (fst (expire_all timeout t now es)).
           inf_MsgID im = k \<and> 1 \<le> inf_Attempts im \<and> (t > 0 \<longrightarrow> inf_Attempts im \<le> t)"
proof -
  let ?r = "fst (expire_all timeout t now es)"
  show inv: "map_inv ?r" using expire_all_map [OF assms(1)] by blast
  show "\<forall>(k, im) \<in> set ?r. inf_MsgID im = k \<and> 1 \<le> inf_Attempts im \<and> (t > 0 \<longrightarrow> inf_Attempts im \<le> t)"
  proof (clarify)
    fix k im' assume "(k, im') \<in> set ?r"
    then have "map_of ?r k = Some im'" using inv by simp
    then obtain im where im: "map_of es k = Some im" "survivor (expire_one timeout t now im) im = Some im'"
      using expire_all_map [OF assms(1), of timeout t now k] by (auto split: option.splits)
    have "(k, im) \<in> set es" using im(1) by (rule map_of_SomeD)
    with assms(2) im(2) show "inf_MsgID im' = k \<and> 1 \<le> inf_Attempts im' \<and> (t > 0 \<longrightarrow> inf_Attempts im' \<le> t)"
      by (auto simp: expire_one_def split: if_splits)
  qed
qed

lemma collectExpired_cases:
  assumes "collectExpired timeout t now c = (r, c')"
  shows "c' = c \<or>
     c' = signalWake (c\<lparr>inflight := fst (expire_all timeout t now (inflight c)), persistDirty := True\<rparr>) \<or>
     c' = c\<lparr>inflight := fst (expire_all timeout t now (inflight c))\<rparr> \<and>
       snd (snd (expire_all timeout t now (inflight c))) = []"
  using assms by (auto simp: collectExpired_def case_prod_unfold Let_def split: option.splits if_splits)

lemma cons_inv_expire:
  assumes inv: "cons_inv t (c, pc)" and x: "collectExpired timeout t now c = (r, c')"
  shows "cons_inv t (c', pc)"
proof -
  let ?es = "fst (expire_all timeout t now (inflight c))"
  have pre: "map_inv (inflight c)" "\<forall>(k, im) \<in> set (inflight c).
      inf_MsgID im = k \<and> 1 \<le> inf_Attempts im \<and> (t > 0 \<longrightarrow> inf_Attempts im \<le> t)"
    using inv by (auto simp: cons_inv_def infl_inv_def attempts_inv_def)
  note ok = expire_all_ok [OF pre, of timeout now]
  have infl: "infl_inv (c\<lparr>inflight := ?es\<rparr>)" "attempts_inv t (c\<lparr>inflight := ?es\<rparr>)"
    using ok by (auto simp: infl_inv_def attempts_inv_def)
  have "window_inv (c\<lparr>inflight := ?es\<rparr>) pc"
    using inv expire_all_len(1) [of timeout t now "inflight c"] window_inv_shrink [of c pc]
    by (simp add: cons_inv_def)
  note parts = this infl
  have ai: "ack_inv c" and wi: "wake_inv c pc" using inv by (simp_all add: cons_inv_def)
  from collectExpired_cases [OF x] consider (same) "c' = c"
    | (dead) "c' = signalWake (c\<lparr>inflight := ?es, persistDirty := True\<rparr>)"
    | (live) "c' = c\<lparr>inflight := ?es\<rparr>" "snd (snd (expire_all timeout t now (inflight c))) = []" by blast
  then show ?thesis
  proof cases
    case same
    then show ?thesis using inv by simp
  next
    case dead
    then show ?thesis using parts ai
      by (simp add: cons_inv_def infl_inv_def attempts_inv_def window_inv_def wake_inv_def ack_inv_def
          signalWake_def)
  next
    case live
    then show ?thesis using parts ai wi expire_all_len(2) [OF live(2)]
      by (simp add: cons_inv_def wake_inv_def ack_inv_def credit_ready_def)
  qed
qed

lemma cons_inv_deliver:
  assumes inv: "cons_inv t (c, P_Deliver)" and d: "deliver_record topic part now m payload c = (im, c')"
  shows "cons_inv t (c', P_Test)" and "cons_inv t (rollback_delivery m c', P_Exit)"
proof -
  have c': "c' = c\<lparr>inflight := AList.update m im (inflight c)\<rparr>"
    and im: "inf_MsgID im = m" "inf_Attempts im = 1"
    using d by (auto simp: deliver_record_def Let_def)
  have "infl_inv c'" "attempts_inv t c'"
    using inv c' im infl_inv_update [of c im m c'] attempts_inv_update [of t c c' m im]
    by (simp_all add: cons_inv_def)
  moreover have "window_inv c' P_Test"
    using inv c' length_update_le [of m im "inflight c"] by (auto simp: cons_inv_def window_inv_def)
  ultimately show 1: "cons_inv t (c', P_Test)"
    using inv c' by (simp add: cons_inv_def ack_inv_def wake_inv_def)
  let ?c = "rollback_delivery m c'"
  have r: "inflight ?c = AList.delete m (inflight c')" "window ?c = window c'" "ack_inv ?c = ack_inv c'"
    by (simp_all add: rollback_delivery_def ack_inv_def)
  show "cons_inv t (?c, P_Exit)"
    using 1 r infl_inv_delete [of c' ?c m] attempts_inv_sub [of t c' ?c] set_delete_subset [of m "inflight c'"]
      length_delete_le [of m "inflight c'"]
    by (auto simp: cons_inv_def window_inv_def wake_inv_def)
qed

lemma cons_step_inv:
  assumes "cons_step t timeout s s'" "cons_inv t s"
  shows "cons_inv t s'"
  using assms
proof (induction rule: cons_step.induct)
  case (cs_recv dn pick c c')
  then show ?case
    by (auto simp: cons_inv_def credit_select_def ack_inv_def infl_inv_def attempts_inv_def window_inv_def
        wake_inv_def split: if_splits)
next
  case (cs_cancel dn pick c c')
  then show ?case
    by (auto simp: cons_inv_def credit_select_def window_inv_def wake_inv_def split: if_splits)
next
  case (cs_deliver topic part now m payload c im c')
  then show ?case by (rule cons_inv_deliver(1) [rotated])
next
  case (cs_rollback topic part now m payload c im c')
  then show ?case by (rule cons_inv_deliver(2) [rotated])
next
  case (cs_ack m c e c' pc)
  then show ?case using cons_inv_Ack by blast
next
  case (cs_nack now m c r c' pc)
  then show ?case using cons_inv_nack by blast
next
  case (cs_expire now c r c' pc)
  then show ?case using cons_inv_expire by blast
next
  case (cs_pause c pc b)
  then show ?case
    by (auto simp: cons_inv_def setPaused_def signalWake_def Let_def ack_inv_def infl_inv_def attempts_inv_def
        window_inv_def wake_inv_def credit_ready_def)
qed (auto simp: cons_inv_def ack_inv_def infl_inv_def attempts_inv_def window_inv_def wake_inv_def
       credit_ready_def)

lemma cons_steps_inv:
  assumes "(cons_step t timeout)\<^sup>*\<^sup>* s s'" "cons_inv t s"
  shows "cons_inv t s'"
  using assms
proof (induction rule: rtranclp_induct)
  case (step y z)
  show ?case by (rule cons_step_inv [OF step.hyps(2) step.IH [OF step.prems]])
qed

section \<open>Properties\<close>

lemma acked_prefix:
  assumes "ack_inv c" "hasAcked c \<Longrightarrow> Suc (unat (lastAcked c)) < 2 ^ 64"
  defines "nxt \<equiv> (if hasAcked c then lastAcked c + 1 else 0)"
  shows "{i. i < nxt} \<subseteq> acked c" and "nxt \<notin> acked c"
proof -
  have up: "unat (lastAcked c + 1) = Suc (unat (lastAcked c))" if "hasAcked c"
    using assms(2) [OF that] by (rule unat_Suc_no_wrap)
  show "{i. i < nxt} \<subseteq> acked c"
    using up by (auto simp: nxt_def acked_def u64_less_iff u64_le_iff)
  show "nxt \<notin> acked c"
    using up assms(1) by (auto simp: nxt_def acked_def ack_inv_def u64_le_iff split: if_splits)
qed

text \<open>C20: \<^verbatim>\<open>Ack\<close> implements adding one element to the set of acknowledged MsgIDs.  For a message
  that is not inflight it fails and changes nothing; otherwise the set gains exactly that MsgID,
  the message leaves the inflight map, and the stored offset is the longest contiguous prefix: all
  MsgIDs below the next one to deliver are acknowledged, and that one is not.\<close>

theorem Ack_adds_to_acked_set:
  assumes "ack_inv c" "hasAcked c \<Longrightarrow> Suc (unat (lastAcked c)) < 2 ^ 64"
  shows "case Ack m c of
       (Some e, c') \<Rightarrow> map_of (inflight c) m = None \<and> e = E_NotInflight m \<and> c' = c
     | (None, c') \<Rightarrow> map_of (inflight c) m \<noteq> None \<and> acked c' = insert m (acked c) \<and> ack_inv c' \<and>
         inflight c' = AList.delete m (inflight c) \<and>
         (unat (lastAcked c') \<noteq> 2 ^ 64 - 1 \<longrightarrow>
            {i. i < (if hasAcked c' then lastAcked c' + 1 else 0)} \<subseteq> acked c' \<and>
            (if hasAcked c' then lastAcked c' + 1 else 0) \<notin> acked c')"
proof (cases "map_of (inflight c) m")
  case None
  then show ?thesis by (simp add: Ack_cases)
next
  case (Some im)
  then obtain c' where a: "Ack m c = (None, c')" by (simp add: Ack_cases)
  note ac = Ack_acked [OF assms(1) a assms(2)]
  have "Suc (unat (lastAcked c')) < 2 ^ 64" if "unat (lastAcked c') \<noteq> 2 ^ 64 - 1"
    using that unsigned_less [of "lastAcked c'", where ?'a = nat] by simp
  with ac acked_prefix [of c'] a Ack_ok_sel [OF a] show ?thesis by auto
qed

definition acked_five :: consumer where
  "acked_five = (newConsumer ''c'' 10)\<lparr>inflight := [(0, \<lparr>inf_MsgID = 0, inf_Topic = ''t'', inf_Partition = 0,
      inf_Payload = [], inf_DeliveredAt = 0, inf_Attempts = 1\<rparr>)], aboveLast := {|1, 2, 4|}\<rparr>"

theorem Ack_adds_to_acked_set_witness:
  "acked (snd (Ack 0 acked_five)) = insert 0 (acked acked_five) \<and> fst (Ack 0 acked_five) = None"
proof -
  have i: "ack_inv acked_five" "\<not> hasAcked acked_five" "map_of (inflight acked_five) 0 \<noteq> None"
    by (simp_all add: ack_inv_def acked_five_def newConsumer_def)
  show ?thesis
    using Ack_adds_to_acked_set [OF i(1), of 0] i(2,3) by (auto split: prod.splits option.splits)
qed


lemma gate_run:
  "(cons_step 0 10)\<^sup>*\<^sup>* (newConsumer ''c'' 1, P_Exit)
     (setPaused False (setPaused True (newConsumer ''c'' 1\<lparr>cons_sub := Some 4\<rparr>)), P_Wait)"
proof -
  let ?n = "newConsumer ''c'' 1" and ?c = "newConsumer ''c'' 1\<lparr>cons_sub := Some 4\<rparr>"
  have 1: "cons_step 0 10 (?n, P_Exit) (?c, P_Test)" by (rule cs_subscribe)
  have 2: "cons_step 0 10 (?c, P_Test) (setPaused True ?c, P_Test)" by (rule cs_pause)
  have 3: "cons_step 0 10 (setPaused True ?c, P_Test) (setPaused True ?c, P_Wait)"
    by (rule cs_unready) (simp add: credit_ready_def setPaused_def Let_def)
  have 4: "cons_step 0 10 (setPaused True ?c, P_Wait) (setPaused False (setPaused True ?c), P_Wait)"
    by (rule cs_pause)
  show ?thesis
    using 1 2 3 4 by (meson rtranclp.rtrancl_into_rtrancl rtranclp.rtrancl_refl)
qed


text \<open>Bounds of a consumer's memory.  In every reachable state the number of delivered but
  unacknowledged messages is at most the receive window, each is stored under its own MsgID, and
  with a dead-letter threshold no message has been attempted more often than the threshold.\<close>

theorem consumer_bounds:
  assumes "(cons_step threshold timeout)\<^sup>*\<^sup>* (newConsumer cid win, P_Exit) (c, pc)"
  shows "int (length (inflight c)) \<le> max 0 (window c) \<and> map_inv (inflight c) \<and>
     (\<forall>(k, im) \<in> set (inflight c). inf_MsgID im = k \<and> 1 \<le> inf_Attempts im \<and>
        (threshold > 0 \<longrightarrow> inf_Attempts im \<le> threshold))"
  using cons_steps_inv [OF assms cons_inv_new]
  by (auto simp: cons_inv_def infl_inv_def attempts_inv_def window_inv_def)

theorem consumer_bounds_witness:
  "map_inv (inflight (setPaused False (setPaused True (newConsumer ''c'' 1\<lparr>cons_sub := Some 4\<rparr>))))"
  using consumer_bounds [OF gate_run] by blast

text \<open>The visibility-timeout scan.  For a subscribed consumer that is not paused, each
  inflight message past its deadline is either dead (the threshold is reached: it leaves the map
  and is reported) or redelivered (one more attempt, the deadline restarts, and a copy is reported);
  every other entry is untouched, and the acknowledged set does not change.\<close>

theorem collectExpired_spec:
  assumes "map_inv (inflight c)" "cons_sub c = Some ch" "\<not> paused c"
    and "collectExpired timeout threshold now c = ((tasks, dead), c')"
  shows "map_of (inflight c') k =
       (case map_of (inflight c) k of None \<Rightarrow> None
        | Some im \<Rightarrow>
            if \<not> inf_DeliveredAt im + timeout < now then Some im
            else if threshold > 0 \<and> inf_Attempts im \<ge> threshold then None
            else Some (im\<lparr>inf_Attempts := inf_Attempts im + 1, inf_DeliveredAt := now\<rparr>)) \<and>
     set dead = {im. (\<exists>k. (k, im) \<in> set (inflight c)) \<and> inf_DeliveredAt im + timeout < now \<and>
                     threshold > 0 \<and> inf_Attempts im \<ge> threshold} \<and>
     set tasks = {(ch, im\<lparr>inf_Attempts := inf_Attempts im + 1, inf_DeliveredAt := now\<rparr>) | im.
                    (\<exists>k. (k, im) \<in> set (inflight c)) \<and> inf_DeliveredAt im + timeout < now \<and>
                    \<not> (threshold > 0 \<and> inf_Attempts im \<ge> threshold)} \<and>
     acked c' = acked c"
proof (cases "inflight c = []")
  case True
  then show ?thesis using assms by (auto simp: collectExpired_def)
next
  case False
  let ?x = "expire_all timeout threshold now (inflight c)"
  have c': "inflight c' = fst ?x" "acked c' = acked c" and t: "tasks = map (Pair ch) (fst (snd ?x))"
    and d: "dead = snd (snd ?x)"
    using assms False
    by (auto simp: collectExpired_def case_prod_unfold Let_def signalWake_def acked_def split: if_splits)
  have "map_of (fst ?x) k = (case map_of (inflight c) k of None \<Rightarrow> None
        | Some im \<Rightarrow> survivor (expire_one timeout threshold now im) im)"
    using expire_all_map [OF assms(1)] by blast
  moreover have "survivor (expire_one timeout threshold now im) im =
      (if \<not> inf_DeliveredAt im + timeout < now then Some im
       else if threshold > 0 \<and> inf_Attempts im \<ge> threshold then None
       else Some (im\<lparr>inf_Attempts := inf_Attempts im + 1, inf_DeliveredAt := now\<rparr>))" for im
    by (simp add: expire_one_def)
  moreover have "set dead = {im. (\<exists>k. (k, im) \<in> set (inflight c)) \<and> inf_DeliveredAt im + timeout < now \<and>
                     threshold > 0 \<and> inf_Attempts im \<ge> threshold}"
    unfolding d expire_all_lists by (auto simp: expire_one_def split: if_splits)
  moreover have "set tasks = {(ch, im\<lparr>inf_Attempts := inf_Attempts im + 1, inf_DeliveredAt := now\<rparr>) | im.
                    (\<exists>k. (k, im) \<in> set (inflight c)) \<and> inf_DeliveredAt im + timeout < now \<and>
                    \<not> (threshold > 0 \<and> inf_Attempts im \<ge> threshold)}"
    unfolding t set_map expire_all_lists by (auto simp: expire_one_def image_iff split: if_splits)
  ultimately show ?thesis using c' by (simp cong: option.case_cong)
qed

definition expiring :: consumer where
  "expiring = acked_five\<lparr>cons_sub := Some 3\<rparr>"

theorem collectExpired_spec_witness:
  "map_of (inflight (snd (collectExpired 5 1 9 expiring))) 0 = None"
proof -
  obtain tasks dead c' where c: "collectExpired 5 1 9 expiring = ((tasks, dead), c')" by (metis prod.collapse)
  have "map_inv (inflight expiring)" "cons_sub expiring = Some 3" "\<not> paused expiring"
    by (simp_all add: expiring_def acked_five_def newConsumer_def)
  from collectExpired_spec [OF this c, of 0] show ?thesis
    by (simp add: c) (simp add: expiring_def acked_five_def)
qed

end
