(* ===== verification/Retention_Policy.thy ===== *)
theory Retention_Policy
  imports Wal_Durability
begin

text \<open>
  The reclaim policy of \<^verbatim>\<open>internal/broker/retention.go\<close>: which sealed segments a sweep drops,
  from a byte budget, an age budget and the guard for delayed messages that have not fired.  The
  clock is an argument (nanoseconds); \<^verbatim>\<open>uint64(t.UnixNano())\<close> is the wrap-around conversion.
\<close>

section \<open>The policy\<close>

text \<open>The newest-first accumulation; \<open>tot\<close> (\<^verbatim>\<open>total\<close>) wraps like the code's \<^verbatim>\<open>uint64\<close>.\<close>

fun keep_bytes_loop :: "u64 \<Rightarrow> u64 \<Rightarrow> u64 \<Rightarrow> SegmentInfo list \<Rightarrow> u64" where
  "keep_bytes_loop tot retainBytes keepFrom [] = keepFrom"
| "keep_bytes_loop tot retainBytes keepFrom (s # newer_first) =
     (let tot' = tot + si_Bytes s
      in if tot' > retainBytes then keepFrom
         else keep_bytes_loop tot' retainBytes (si_Index s) newer_first)"

definition keepIndexByBytes :: "SegmentInfo list \<Rightarrow> u64 \<Rightarrow> u64" where
  "keepIndexByBytes segs retainBytes =
     (if retainBytes = 0 then si_Index (hd segs)
      else keep_bytes_loop 0 retainBytes (si_Index (last segs)) (rev segs))"

fun keep_age_loop :: "u64 \<Rightarrow> u64 \<Rightarrow> SegmentInfo list \<Rightarrow> u64" where
  "keep_age_loop cutoff keepFrom [] = keepFrom"
| "keep_age_loop cutoff keepFrom (s # ss) =
     (if si_Active s then keepFrom
      else if si_MaxTsNs s = 0 \<or> si_MaxTsNs s \<ge> cutoff then si_Index s
      else keep_age_loop cutoff keepFrom ss)"

definition keepIndexByAge :: "SegmentInfo list \<Rightarrow> int \<Rightarrow> int \<Rightarrow> u64" where
  "keepIndexByAge segs retainDur now =
     (if retainDur \<le> 0 then si_Index (hd segs)
      else keep_age_loop (of_int (now - retainDur)) (si_Index (last segs)) segs)"

definition oldestUnfiredDelaySegment :: "SegmentInfo list \<Rightarrow> int \<Rightarrow> u64 option" where
  "oldestUnfiredDelaySegment segs now =
     map_option si_Index (find (\<lambda>s. si_MaxVisibleAtNs s > of_int now) segs)"

definition retentionKeepIndex :: "SegmentInfo list \<Rightarrow> u64 \<Rightarrow> int \<Rightarrow> int \<Rightarrow> u64 \<times> bool" where
  "retentionKeepIndex segs retainBytes retainDur now =
     (if segs = [] then (0, False)
      else let activeIdx = si_Index (last segs);
               k1 = keepIndexByBytes segs retainBytes;
               k2 = (if keepIndexByAge segs retainDur now > k1
                     then keepIndexByAge segs retainDur now else k1);
               k3 = (if k2 > activeIdx then activeIdx else k2);
               k4 = (case oldestUnfiredDelaySegment segs now of
                       Some delayFloor \<Rightarrow> (if delayFloor < k3 then delayFloor else k3)
                     | None \<Rightarrow> k3)
           in (k4, k4 > si_Index (hd segs)))"

text \<open>One partition's sweep: the log afterwards, and the bytes reported as reclaimed.\<close>

definition sweepPartitionRetention ::
    "(u64 \<Rightarrow> bool) \<Rightarrow> u64 \<Rightarrow> int \<Rightarrow> int \<Rightarrow> wlog \<Rightarrow> nat \<times> int \<times> wlog" where
  "sweepPartitionRetention rm_fail retainBytes retainDur now l =
     (let segs = SegmentInfos l;
          (keepIndex, drp) = retentionKeepIndex segs retainBytes retainDur now
      in if \<not> drp then (0, 0, l)
         else let reclaim = (\<Sum>s \<leftarrow> filter (\<lambda>s. si_Index s < keepIndex) segs. sint (si_Bytes s));
                  ((dropped, floor, e), l') = DropSegmentsBefore rm_fail keepIndex l
              in (dropped, (if dropped > 0 then reclaim else 0), l'))"

section \<open>The loops\<close>

lemma keep_bytes_loop_spec:
  assumes "unat tot + (\<Sum>s \<leftarrow> xs. unat (si_Bytes s)) < 2 ^ 64"
  shows "\<exists>k \<le> length xs. keep_bytes_loop tot rb kf xs = (if k = 0 then kf else si_Index (xs ! (k - 1))) \<and>
     (k < length xs \<longrightarrow> unat rb < unat tot + (\<Sum>s \<leftarrow> take (Suc k) xs. unat (si_Bytes s)))"
  using assms
proof (induction tot rb kf xs rule: keep_bytes_loop.induct)
  case (1 tot rb kf)
  then show ?case by simp
next
  case (2 tot rb kf s xs)
  have up: "unat (tot + si_Bytes s) = unat tot + unat (si_Bytes s)"
    using 2(2) by (intro unat_add_no_wrap) simp
  show ?case
  proof (cases "tot + si_Bytes s > rb")
    case True
    then show ?thesis using up by (intro exI [of _ 0]) (simp add: u64_less_iff)
  next
    case False
    then obtain k where k: "k \<le> length xs"
        "keep_bytes_loop (tot + si_Bytes s) rb (si_Index s) xs = (if k = 0 then si_Index s else si_Index (xs ! (k - 1)))"
        "k < length xs \<longrightarrow> unat rb < unat (tot + si_Bytes s) + (\<Sum>s \<leftarrow> take (Suc k) xs. unat (si_Bytes s))"
      using 2(1) [OF refl] 2(2) up by auto
    with False up show ?thesis
      by (intro exI [of _ "Suc k"]) (auto simp: nth_Cons split: nat.splits)
  qed
qed

lemma keep_age_loop_spec:
  "\<exists>k \<le> length xs. (\<forall>j < k. \<not> si_Active (xs ! j) \<and> si_MaxTsNs (xs ! j) \<noteq> 0 \<and> si_MaxTsNs (xs ! j) < cutoff) \<and>
     (k < length xs \<and> keep_age_loop cutoff kf xs = si_Index (xs ! k) \<or>
      keep_age_loop cutoff kf xs = kf \<and> (k = length xs \<or> si_Active (xs ! k)))"
proof (induction cutoff kf xs rule: keep_age_loop.induct)
  case (2 cutoff kf s xs)
  show ?case
  proof (cases "si_Active s \<or> si_MaxTsNs s = 0 \<or> si_MaxTsNs s \<ge> cutoff")
    case True
    then show ?thesis by (intro exI [of _ 0]) auto
  next
    case False
    then obtain k where "k \<le> length xs"
       "\<forall>j < k. \<not> si_Active (xs ! j) \<and> si_MaxTsNs (xs ! j) \<noteq> 0 \<and> si_MaxTsNs (xs ! j) < cutoff"
       "k < length xs \<and> keep_age_loop cutoff kf xs = si_Index (xs ! k) \<or>
        keep_age_loop cutoff kf xs = kf \<and> (k = length xs \<or> si_Active (xs ! k))"
      using 2 by auto
    with False show ?thesis
      by (intro exI [of _ "Suc k"]) (auto simp: nth_Cons split: nat.splits)
  qed
qed simp

section \<open>The segment view of a log\<close>

lemma SegmentInfos_nth:
  assumes rel: "log_rel l R" and c: "commit_at l R m" and j: "j < length R"
  shows "si_Index (SegmentInfos l ! j) = seg_index (segments l ! j)"
    and "unat (si_Bytes (SegmentInfos l ! j)) =
           length (frames (if Suc j < length R then R ! j else take m (last R)))"
    and "si_MaxTsNs (SegmentInfos l ! j) = max_ts (R ! j)"
    and "si_MaxVisibleAtNs (SegmentInfos l ! j) = max_vis (R ! j)"
    and "si_Active (SegmentInfos l ! j) \<longleftrightarrow> Suc j = length R"
proof -
  note len = log_rel_length [OF rel]
  have nth: "SegmentInfos l ! j = (let seg = segments l ! j; (b, a) = readableLenLocked l seg in
            \<lparr>si_Index = seg_index seg, si_BaseMsgID = baseMsgID seg, si_Bytes = b,
             si_MaxTsNs = maxTsNs seg, si_MaxVisibleAtNs = maxVisibleAtNs seg, si_Active = a\<rparr>)"
    using j len by (simp add: SegmentInfos_def Let_def)
  have sr: "maxTsNs (segments l ! j) = max_ts (R ! j)" "maxVisibleAtNs (segments l ! j) = max_vis (R ! j)"
    using log_rel_nth [OF rel j] by (simp_all add: seg_rel_def)
  show "si_Index (SegmentInfos l ! j) = seg_index (segments l ! j)"
    "si_MaxTsNs (SegmentInfos l ! j) = max_ts (R ! j)"
    "si_MaxVisibleAtNs (SegmentInfos l ! j) = max_vis (R ! j)"
    using sr by (simp_all add: nth Let_def case_prod_unfold)
  have act: "segments l ! j = active l" if "\<not> Suc j < length R"
    using that j len by (metis Suc_lessI active_def diff_Suc_1 last_conv_nth list.size(3) not_less_zero)
  show "unat (si_Bytes (SegmentInfos l ! j)) =
           length (frames (if Suc j < length R then R ! j else take m (last R)))"
    using readable_sealed(1) [OF rel, of j] readable_active(1) [OF rel c] act len
    by (auto simp: nth Let_def case_prod_unfold)
  show "si_Active (SegmentInfos l ! j) \<longleftrightarrow> Suc j = length R"
    using readable_sealed(2) [OF rel, of j] readable_active(2) [OF rel c] act len j
    by (cases "Suc j < length R") (simp_all add: nth Let_def case_prod_unfold)
qed

lemma SegmentInfos_length [simp]: "length (SegmentInfos l) = length (segments l)"
  by (simp add: SegmentInfos_def)

lemma sum_frames: "(\<Sum>rs \<leftarrow> X. length (frames rs)) = length (frames (concat X))"
  by (induction X) simp_all

lemma SegmentInfos_total:
  assumes rel: "log_rel l R" and c: "commit_at l R m"
  shows "(\<Sum>s \<leftarrow> SegmentInfos l. unat (si_Bytes s)) < 2 ^ 64"
proof -
  have nn: "R \<noteq> []" using log_rel_not_Nil [OF rel] by simp
  note len = log_rel_length [OF rel]
  have "map (\<lambda>s. unat (si_Bytes s)) (SegmentInfos l) = map (\<lambda>rs. length (frames rs)) (butlast R @ [take m (last R)])"
  proof (rule nth_equalityI)
    show "length (map (\<lambda>s. unat (si_Bytes s)) (SegmentInfos l)) =
        length (map (\<lambda>rs. length (frames rs)) (butlast R @ [take m (last R)]))"
      using nn len by simp
    fix j assume "j < length (map (\<lambda>s. unat (si_Bytes s)) (SegmentInfos l))"
    then have j: "j < length R" using len by simp
    show "map (\<lambda>s. unat (si_Bytes s)) (SegmentInfos l) ! j =
        map (\<lambda>rs. length (frames rs)) (butlast R @ [take m (last R)]) ! j"
    proof (cases "Suc j < length R")
      case True
      then have "j < length (butlast R)" by simp
      then show ?thesis
        using SegmentInfos_nth(2) [OF rel c j] j len True by (simp add: nth_append nth_butlast del: length_butlast)
    next
      case False
      then have "j = length (butlast R)" using j by simp
      then show ?thesis
        using SegmentInfos_nth(2) [OF rel c j] j len False by (simp add: nth_append)
    qed
  qed
  then have "(\<Sum>s \<leftarrow> SegmentInfos l. unat (si_Bytes s)) = length (frames (concat (butlast R @ [take m (last R)])))"
    by (simp add: sum_frames)
  also have "\<dots> \<le> unat (committed l)" using c by (simp add: commit_at_def)
  also have "\<dots> < 2 ^ 64" using unsigned_less [of "committed l", where ?'a = nat] by simp
  finally show ?thesis .
qed

lemma segment_order:
  assumes "log_rel l R" "j < length R" "k < length R" "seg_index (segments l ! j) < seg_index (segments l ! k)"
  shows "j < k"
proof (rule ccontr)
  assume "\<not> j < k"
  then have "k < j \<or> k = j" by auto
  moreover have "seg_index (segments l ! k) < seg_index (segments l ! j)" if "k < j"
    using log_rel_sorted [OF assms(1)] assms(2) that log_rel_length [OF assms(1)]
    by (simp add: sorted_wrt_iff_nth_less)
  ultimately show False using assms(4) by auto
qed

lemma not_below_first:
  assumes "log_rel l R" "j < length R"
  shows "\<not> seg_index (segments l ! j) < seg_index (segments l ! 0)"
  using segment_order [OF assms, of 0] assms(2) by (cases "R = []") auto

lemma SegmentInfos_ends:
  assumes rel: "log_rel l R" and c: "commit_at l R m"
  shows "si_Index (hd (SegmentInfos l)) = seg_index (segments l ! 0)"
    and "si_Index (last (SegmentInfos l)) = seg_index (segments l ! (length R - 1))"
proof -
  have nn: "R \<noteq> []" "segments l \<noteq> []" using log_rel_not_Nil [OF rel] by simp_all
  note len = log_rel_length [OF rel]
  have ne: "SegmentInfos l \<noteq> []" using nn by (simp add: SegmentInfos_def)
  show "si_Index (hd (SegmentInfos l)) = seg_index (segments l ! 0)"
    using SegmentInfos_nth(1) [OF rel c, of 0] nn ne by (simp add: hd_conv_nth)
  show "si_Index (last (SegmentInfos l)) = seg_index (segments l ! (length R - 1))"
    using SegmentInfos_nth(1) [OF rel c, of "length R - 1"] nn ne len by (simp add: last_conv_nth)
qed

text \<open>A segment below the byte floor: the segments from it on exceed the budget.\<close>

lemma below_bytes_floor:
  assumes rel: "log_rel l R" and c: "commit_at l R m" and j: "j < length R"
    and lt: "seg_index (segments l ! j) < keepIndexByBytes (SegmentInfos l) rb"
  shows "rb \<noteq> 0 \<and> unat rb < (\<Sum>s \<leftarrow> drop j (SegmentInfos l). unat (si_Bytes s))"
proof (cases "rb = 0")
  case True
  then have "seg_index (segments l ! j) < seg_index (segments l ! 0)"
    using lt SegmentInfos_ends(1) [OF rel c] by (simp add: keepIndexByBytes_def)
  then show ?thesis using not_below_first [OF rel j] by simp
next
  case False
  let ?xs = "rev (SegmentInfos l)" and ?n = "length R"
  note len = log_rel_length [OF rel]
  have "unat 0 + (\<Sum>s \<leftarrow> ?xs. unat (si_Bytes s)) < 2 ^ 64"
    using SegmentInfos_total [OF rel c] by (simp add: rev_map [symmetric])
  from keep_bytes_loop_spec [OF this, of rb "si_Index (last (SegmentInfos l))"]
  obtain k where k: "k \<le> length ?xs"
    and res: "keepIndexByBytes (SegmentInfos l) rb =
        (if k = 0 then si_Index (last (SegmentInfos l)) else si_Index (?xs ! (k - 1)))"
    and ex: "k < length ?xs \<longrightarrow> unat rb < (\<Sum>s \<leftarrow> take (Suc k) ?xs. unat (si_Bytes s))"
    using False by (auto simp: keepIndexByBytes_def)
  have kn: "j < ?n - k"
  proof (cases "k = 0")
    case True
    then show ?thesis
      using j by simp
  next
    case False
    then have "k - 1 < length (SegmentInfos l)" using k by simp
    then have "?xs ! (k - 1) = SegmentInfos l ! (?n - k)" using False len k by (simp add: rev_nth)
    then have "seg_index (segments l ! j) < seg_index (segments l ! (?n - k))"
      using lt res False SegmentInfos_nth(1) [OF rel c, of "?n - k"] j by simp
    then show ?thesis using segment_order [OF rel j, of "?n - k"] False j by simp
  qed
  then have "unat rb < (\<Sum>s \<leftarrow> take (Suc k) ?xs. unat (si_Bytes s))" using ex len by simp
  also have "take (Suc k) ?xs = rev (drop (?n - Suc k) (SegmentInfos l))" using len by (simp add: take_rev)
  also have "(\<Sum>s \<leftarrow> rev (drop (?n - Suc k) (SegmentInfos l)). unat (si_Bytes s)) =
      (\<Sum>s \<leftarrow> drop (?n - Suc k) (SegmentInfos l). unat (si_Bytes s))"
    by (simp add: rev_map [symmetric])
  also have "\<dots> \<le> (\<Sum>s \<leftarrow> drop j (SegmentInfos l). unat (si_Bytes s))"
  proof -
    have "drop (?n - Suc k) (SegmentInfos l) = drop (?n - Suc k - j) (drop j (SegmentInfos l))"
      using kn by simp
    moreover have "(\<Sum>s \<leftarrow> drop i ys. unat (si_Bytes s)) \<le> (\<Sum>s \<leftarrow> ys. unat (si_Bytes s))" for i and ys :: "SegmentInfo list"
      by (metis append_take_drop_id le_add2 map_append sum_list_append)
    ultimately show ?thesis by metis
  qed
  finally show ?thesis using False by simp
qed

text \<open>A segment below the age floor: all its records are past the cutoff.\<close>

lemma below_age_floor:
  assumes rel: "log_rel l R" and c: "commit_at l R m" and j: "j < length R"
    and lt: "seg_index (segments l ! j) < keepIndexByAge (SegmentInfos l) rd now"
  shows "0 < rd \<and> max_ts (R ! j) < of_int (now - rd)"
proof (cases "rd \<le> 0")
  case True
  then have "seg_index (segments l ! j) < seg_index (segments l ! 0)"
    using lt SegmentInfos_ends(1) [OF rel c] by (simp add: keepIndexByAge_def)
  then show ?thesis using not_below_first [OF rel j] by simp
next
  case False
  note len = log_rel_length [OF rel]
  obtain k where k: "k \<le> length R"
    and old: "\<forall>i < k. \<not> si_Active (SegmentInfos l ! i) \<and> si_MaxTsNs (SegmentInfos l ! i) \<noteq> 0 \<and>
                si_MaxTsNs (SegmentInfos l ! i) < of_int (now - rd)"
    and res: "k < length R \<and> keepIndexByAge (SegmentInfos l) rd now = si_Index (SegmentInfos l ! k) \<or>
      keepIndexByAge (SegmentInfos l) rd now = si_Index (last (SegmentInfos l)) \<and>
      (k = length R \<or> si_Active (SegmentInfos l ! k))"
    using keep_age_loop_spec [of "SegmentInfos l" "of_int (now - rd)" "si_Index (last (SegmentInfos l))"]
      False len by (auto simp: keepIndexByAge_def)
  have "j < k"
    using res
  proof (elim disjE conjE)
    assume "k < length R" "keepIndexByAge (SegmentInfos l) rd now = si_Index (SegmentInfos l ! k)"
    then show ?thesis using lt segment_order [OF rel j] SegmentInfos_nth(1) [OF rel c, of k] by simp
  next
    assume e: "keepIndexByAge (SegmentInfos l) rd now = si_Index (last (SegmentInfos l))" and "k = length R"
    then show ?thesis using j by simp
  next
    assume e: "keepIndexByAge (SegmentInfos l) rd now = si_Index (last (SegmentInfos l))"
      and a: "si_Active (SegmentInfos l ! k)"
    have jn: "j < length R - 1"
      using lt e SegmentInfos_ends(2) [OF rel c] segment_order [OF rel j, of "length R - 1"] j by simp
    show ?thesis
    proof (cases "k < length R")
      case True
      then show ?thesis using a jn SegmentInfos_nth(5) [OF rel c True] by simp
    next
      case False
      then show ?thesis using j by simp
    qed
  qed
  then show ?thesis using old False SegmentInfos_nth(3) [OF rel c j] by auto
qed

lemma below_delay_floor:
  assumes rel: "log_rel l R" and c: "commit_at l R m" and j: "j < length R"
    and lt: "\<And>d. oldestUnfiredDelaySegment (SegmentInfos l) now = Some d \<Longrightarrow> seg_index (segments l ! j) < d"
  shows "max_vis (R ! j) \<le> of_int now"
proof (rule ccontr)
  assume "\<not> max_vis (R ! j) \<le> of_int now"
  then have u: "si_MaxVisibleAtNs (SegmentInfos l ! j) > of_int now"
    using SegmentInfos_nth(4) [OF rel c j] by simp
  have jl: "j < length (SegmentInfos l)" using j log_rel_length [OF rel] by simp
  obtain s where s: "find (\<lambda>s. si_MaxVisibleAtNs s > of_int now) (SegmentInfos l) = Some s"
    using u jl by (cases "find (\<lambda>s. si_MaxVisibleAtNs s > of_int now) (SegmentInfos l)")
      (auto simp: find_None_iff in_set_conv_nth)
  then obtain i where i: "i < length (SegmentInfos l)" "s = SegmentInfos l ! i"
      "\<forall>k < i. \<not> si_MaxVisibleAtNs (SegmentInfos l ! k) > of_int now"
    by (auto simp: find_Some_iff)
  then have ij: "i \<le> j" using u by (meson not_le)
  have iR: "i < length R" using i(1) log_rel_length [OF rel] by simp
  have "seg_index (segments l ! j) < seg_index (segments l ! i)"
    using lt [of "si_Index s"] s i(2) SegmentInfos_nth(1) [OF rel c iR]
    by (simp add: oldestUnfiredDelaySegment_def)
  then show False using segment_order [OF rel j iR] ij by simp
qed

section \<open>The sweep\<close>

lemma Drop_below:
  assumes "DropSegmentsBefore rm k l = ((n, fl, e), l')" "j < n"
  shows "seg_index (segments l ! j) < k"
proof -
  let ?P = "\<lambda>s. seg_index s < (if k > seg_index (active l) then seg_index (active l) else k)"
  have n: "n = length (takeWhile ?P (segments l))"
    using assms by (auto simp: DropSegmentsBefore_def Let_def split: if_splits)
  then have "takeWhile ?P (segments l) ! j \<in> set (takeWhile ?P (segments l))" using assms(2) by simp
  then have "?P (takeWhile ?P (segments l) ! j)" by (rule conjunct2 [OF set_takeWhileD])
  moreover have "takeWhile ?P (segments l) ! j = segments l ! j" using n assms(2) by (simp add: takeWhile_nth)
  ultimately show ?thesis by (auto split: if_splits)
qed

lemma keep_index_bounds:
  assumes rel: "log_rel l R" and c: "commit_at l R m" and j: "j < length R"
    and k: "retentionKeepIndex (SegmentInfos l) rb rd now = (keep, drp)"
    and lt: "seg_index (segments l ! j) < keep"
  shows "max_vis (R ! j) \<le> of_int now"
    and "rb \<noteq> 0 \<and> unat rb < (\<Sum>s \<leftarrow> drop j (SegmentInfos l). unat (si_Bytes s)) \<or>
         0 < rd \<and> max_ts (R ! j) < of_int (now - rd)"
proof -
  have ne: "SegmentInfos l \<noteq> []" using j log_rel_length [OF rel] by (metis SegmentInfos_length list.size(3) not_less_zero)
  let ?k1 = "keepIndexByBytes (SegmentInfos l) rb" and ?a = "keepIndexByAge (SegmentInfos l) rd now"
  let ?k2 = "if ?a > ?k1 then ?a else ?k1"
  let ?k3 = "if ?k2 > si_Index (last (SegmentInfos l)) then si_Index (last (SegmentInfos l)) else ?k2"
  have keep: "keep = (case oldestUnfiredDelaySegment (SegmentInfos l) now of
        Some d \<Rightarrow> (if d < ?k3 then d else ?k3) | None \<Rightarrow> ?k3)"
    using k ne by (simp add: retentionKeepIndex_def Let_def)
  have kk: "keep \<le> ?k3" unfolding keep by (auto split: option.split)
  have k32: "?k3 \<le> ?k2" by auto
  have "seg_index (segments l ! j) < ?k2" using lt kk k32 by (meson less_le_trans)
  then have or: "seg_index (segments l ! j) < ?k1 \<or> seg_index (segments l ! j) < ?a"
    by (auto split: if_splits)
  show "rb \<noteq> 0 \<and> unat rb < (\<Sum>s \<leftarrow> drop j (SegmentInfos l). unat (si_Bytes s)) \<or>
         0 < rd \<and> max_ts (R ! j) < of_int (now - rd)"
    using or below_bytes_floor [OF rel c j] below_age_floor [OF rel c j] by blast
  show "max_vis (R ! j) \<le> of_int now"
  proof (rule below_delay_floor [OF rel c j])
    fix d assume d: "oldestUnfiredDelaySegment (SegmentInfos l) now = Some d"
    have "keep \<le> d" unfolding keep d by auto
    with lt show "seg_index (segments l ! j) < d" by (rule less_le_trans)
  qed
qed

lemma records_of_segment:
  "log_rel l R \<Longrightarrow> j < length R \<Longrightarrow> records_of (disk l (seg_index (segments l ! j))) = R ! j"
  using log_rel_nth [of l R j] by (simp add: seg_rel_def records_of_frames)

lemma concat_take_drop: "concat (drop n R) = drop (length (concat (take n R))) (concat R)"
  by (metis append_eq_conv_conj append_take_drop_id concat_append)

lemma dropped_committed:
  assumes "n < length R"
  shows "length (concat (take n R)) \<le> length (concat (butlast R))"
proof -
  have "butlast R = take n R @ drop n (butlast R)"
    using assms by (metis append_take_drop_id butlast_conv_take min.absorb1 nat_less_le take_take less_Suc_eq_le Suc_pred' length_pos_if_in_set list.size(3) not_less_zero neq0_conv)
  then have "concat (butlast R) = concat (take n R) @ concat (drop n (butlast R))" by (metis concat_append)
  then show ?thesis by simp
qed

text \<open>C18: A retention sweep drops only expendable records.  From any reachable log it removes a
  prefix of the sealed segments, all of whose records are committed; no dropped record is a delayed
  message that has not fired; and each dropped segment either lies wholly beyond the age cutoff or
  the byte budget is exceeded by the segments from it on.  The active segment always stays.\<close>

theorem sweep_drops_only_expendable:
  assumes "wal_reach mode sb (l, f)" "mode \<noteq> SyncNone"
    and "sweepPartitionRetention (\<lambda>_. False) rb rd now l = (n, reclaimed, l')"
  shows "segments l' = drop n (segments l) \<and> n < length (segments l) \<and> active l' = active l \<and>
     (\<exists>k. retained_records l' = drop k (retained_records l) \<and> k \<le> length (committed_records l) \<and>
          (\<forall>r \<in> set (take k (retained_records l)). rec_VisibleAtNs r \<le> of_int now)) \<and>
     (\<forall>j < n. rb \<noteq> 0 \<and> unat rb < (\<Sum>s \<leftarrow> drop j (SegmentInfos l). unat (si_Bytes s)) \<or>
        0 < rd \<and> (\<forall>r \<in> set (records_of (disk l (seg_index (segments l ! j)))). rec_TsNs r < of_int (now - rd)))"
proof -
  obtain R m where "wal_inv l f R m" using wal_reach_inv [OF assms(1,2)] by auto
  then have rel: "log_rel l R" and c: "commit_at l R m" by (simp_all add: wal_inv_def)
  note len = log_rel_length [OF rel]
  obtain keep drp where k: "retentionKeepIndex (SegmentInfos l) rb rd now = (keep, drp)" by fastforce
  have nn: "R \<noteq> []" using log_rel_not_Nil [OF rel] by simp
  have main: "n < length R \<and> l' = dropped n (\<lambda>_. False) l \<and> (\<forall>j < n. seg_index (segments l ! j) < keep)"
  proof (cases drp)
    case False
    then show ?thesis
      using assms(3) k nn by (simp add: sweepPartitionRetention_def dropped_def)
  next
    case True
    obtain n' fl e l'' where d: "DropSegmentsBefore (\<lambda>_. False) keep l = ((n', fl, e), l'')"
      by (metis prod.collapse)
    then have nl: "n = n'" "l' = l''"
      using assms(3) k True by (auto simp: sweepPartitionRetention_def Let_def split: prod.splits)
    from Drop_dropped [OF rel, of "\<lambda>_. False" keep] d Drop_below [OF d] nl len show ?thesis by auto
  qed
  then have n: "n < length R" and l': "l' = dropped n (\<lambda>_. False) l"
    and low: "\<And>j. j < n \<Longrightarrow> seg_index (segments l ! j) < keep" by blast+
  note dr = dropped_rel [OF rel, of n "\<lambda>_. False", folded l'] 
  have rr: "retained_records l = concat R" "retained_records l' = concat (drop n R)"
    using retained_records_rel [OF rel] retained_records_rel [OF dr(1)] n len by simp_all
  have vis: "rec_VisibleAtNs r \<le> of_int now" if r: "r \<in> set (concat (take n R))" for r
  proof -
    obtain xs where xs: "xs \<in> set (take n R)" "r \<in> set xs" using r by auto
    then obtain j where j: "j < n" "r \<in> set (R ! j)" using n by (metis in_set_conv_nth length_take min.absorb4 nth_take)
    then show ?thesis
      using max_vis_upper [OF j(2)] keep_index_bounds(1) [OF rel c _ k low [OF j(1)]] n by simp
  qed
  have "length (concat (take n R)) \<le> length (committed_records l)"
    using dropped_committed [OF n] committed_records_rel [OF rel c] by simp
  moreover have "take (length (concat (take n R))) (concat R) = concat (take n R)"
    by (metis append_eq_conv_conj append_take_drop_id concat_append)
  ultimately have ex: "\<exists>k. retained_records l' = drop k (retained_records l) \<and> k \<le> length (committed_records l) \<and>
          (\<forall>r \<in> set (take k (retained_records l)). rec_VisibleAtNs r \<le> of_int now)"
    unfolding rr using vis concat_take_drop [of n R] by (intro exI [of _ "length (concat (take n R))"]) simp
  have why: "rb \<noteq> 0 \<and> unat rb < (\<Sum>s \<leftarrow> drop j (SegmentInfos l). unat (si_Bytes s)) \<or>
        0 < rd \<and> (\<forall>r \<in> set (records_of (disk l (seg_index (segments l ! j)))). rec_TsNs r < of_int (now - rd))"
    if j: "j < n" for j
  proof -
    have jR: "j < length R" using j n by simp
    show ?thesis
      using keep_index_bounds(2) [OF rel c jR k low [OF j]] max_ts_upper [of _ "R ! j"]
      unfolding records_of_segment [OF rel jR] by (meson le_less_trans)
  qed
  show ?thesis using l' n len dr(4) ex why by (simp add: dropped_def)
qed

theorem sweep_drops_only_expendable_witness:
  "\<exists>n reclaimed l'. sweepPartitionRetention (\<lambda>_. False) 1 0 100 sample_log = (n, reclaimed, l') \<and>
     active l' = active sample_log \<and> n < length (segments sample_log)"
proof -
  obtain n r l' where s: "sweepPartitionRetention (\<lambda>_. False) 1 0 100 sample_log = (n, r, l')" by (metis prod.collapse)
  from sweep_drops_only_expendable [OF sample_reach _ s] s show ?thesis by auto
qed

end
