(* ===== verification/Partition_Model.thy ===== *)
theory Partition_Model
  imports Wal_Reader Dedupe_Index Consumer_State Retention_Policy
begin

text \<open>
  One partition (\<^verbatim>\<open>internal/broker/partition.go\<close>, \<^verbatim>\<open>offsets.go\<close>): its log, dedupe index and
  consumer registry; the publish path, opening from disk, the consumers' durable offsets, and the
  delivery goroutine.  \<^verbatim>\<open>pubMu\<close> serialises the publishes of a partition, so a publish is one
  transition; in the batched mode its append waits for one pass of the committer.
\<close>

section \<open>State\<close>

record partition =
  part_topic :: string
  part_id :: int
  part_dir :: string
  plog :: wlog
  pdedupe :: dedupe
  part_window :: int
  pendingDelayed :: int
  consumers :: "(string \<times> consumer) list"

definition newPartition :: "string \<Rightarrow> int \<Rightarrow> string \<Rightarrow> wlog \<Rightarrow> dedupe \<Rightarrow> int \<Rightarrow> partition" where
  "newPartition topic i dir l d win =
     \<lparr>part_topic = topic, part_id = i, part_dir = dir, plog = l, pdedupe = d, part_window = win,
      pendingDelayed = 0, consumers = []\<rparr>"

definition rebuildIndexes :: "dedupe \<Rightarrow> wal_record \<Rightarrow> dedupe" where
  "rebuildIndexes d r =
     (if rec_DedupeKey r \<noteq> [] then dedupe_Insert (rec_DedupeKey r) (rec_MsgID r) d else d)"

section \<open>Publishing\<close>

text \<open>
  \<^verbatim>\<open>Append\<close> as its caller sees it: in the batched mode the caller blocks until a pass of the
  committer has covered its offset or failed.
\<close>

definition append_sync :: "append_io \<Rightarrow> wal_record \<Rightarrow> wlog \<Rightarrow> (log_err + u64) \<times> wlog" where
  "append_sync io r l =
     (case Append io r l of
        (App_OK i e, l1) \<Rightarrow> (Inr i, l1)
      | (App_Err e, l1) \<Rightarrow> (Inl e, l1)
      | (App_Wait i e, l1) \<Rightarrow>
          let l2 = flush (io_sync io) l1
          in (case append_wait l2 i e of Some (App_OK i' e') \<Rightarrow> Inr i' | _ \<Rightarrow> Inl LE_Sync, l2))"

definition pub_record :: "u64 \<Rightarrow> u64 \<Rightarrow> u64 \<Rightarrow> string \<Rightarrow> bytes \<Rightarrow> wal_record" where
  "pub_record tsNs visibleAtNs raftIndex dedupeKey payload =
     \<lparr>rec_MsgID = 0, rec_TsNs = tsNs, rec_DedupeKey = dedupeKey, rec_Payload = payload,
      rec_VisibleAtNs = visibleAtNs, rec_RaftIndex = raftIndex\<rparr>"

definition applyPublish ::
    "append_io \<Rightarrow> u64 \<Rightarrow> u64 \<Rightarrow> u64 \<Rightarrow> string \<Rightarrow> bytes \<Rightarrow> partition \<Rightarrow>
     (log_err + (u64 \<times> bool)) \<times> partition" where
  "applyPublish io tsNs visibleAtNs raftIndex dedupeKey payload p =
     (case (if dedupeKey \<noteq> [] then dedupe_Lookup dedupeKey (pdedupe p) else (None, pdedupe p)) of
        (Some existing, d) \<Rightarrow> (Inr (existing, True), p\<lparr>pdedupe := d\<rparr>)
      | (None, d) \<Rightarrow>
          (case append_sync io (pub_record tsNs visibleAtNs raftIndex dedupeKey payload) (plog p) of
             (Inl e, l) \<Rightarrow> (Inl e, p\<lparr>plog := l, pdedupe := d\<rparr>)
           | (Inr i, l) \<Rightarrow>
               (Inr (i, False),
                p\<lparr>plog := l,
                  pendingDelayed := (if visibleAtNs > 0 then pendingDelayed p + 1 else pendingDelayed p),
                  pdedupe := (if dedupeKey \<noteq> [] then dedupe_Insert dedupeKey i d else d)\<rparr>)))"

text \<open>\<^verbatim>\<open>uint64(now) + delayMs * uint64(time.Millisecond)\<close>\<close>

definition visible_at :: "int \<Rightarrow> u64 \<Rightarrow> u64" where
  "visible_at now delayMs = (if delayMs > 0 then of_int now + delayMs * 1000000 else 0)"

definition publishCtx ::
    "append_io \<Rightarrow> int \<Rightarrow> string \<Rightarrow> bytes \<Rightarrow> u64 \<Rightarrow> partition \<Rightarrow>
     (log_err + (u64 \<times> bool)) \<times> partition" where
  "publishCtx io now dedupeKey payload delayMs p =
     applyPublish io (of_int now) (visible_at now delayMs) 0 dedupeKey payload p"

definition decDelayed :: "partition \<Rightarrow> partition" where
  "decDelayed p =
     (let n = pendingDelayed p - 1 in p\<lparr>pendingDelayed := (if n < 0 then 0 else n)\<rparr>)"

definition head :: "partition \<Rightarrow> u64" where
  "head p = (let (i, ok) = Head (plog p) in if \<not> ok then 0 else i)"

section \<open>Consumers and offsets\<close>

definition getOrCreateConsumer :: "string \<Rightarrow> partition \<Rightarrow> consumer \<times> partition" where
  "getOrCreateConsumer cid p =
     (case map_of (consumers p) cid of
        Some c \<Rightarrow> (c, p)
      | None \<Rightarrow> let c = newConsumer cid (part_window p)
                in (c, p\<lparr>consumers := AList.update cid c (consumers p)\<rparr>))"

text \<open>Writing a consumer back through its pointer.\<close>

definition put_consumer :: "string \<Rightarrow> consumer \<Rightarrow> partition \<Rightarrow> partition" where
  "put_consumer cid c p = p\<lparr>consumers := AList.update cid c (consumers p)\<rparr>"

definition consumerStartID :: "wlog \<Rightarrow> consumer \<Rightarrow> u64 \<times> bool" where
  "consumerStartID l c =
     (let floor = RetainedFloor l in
      if \<not> hasAcked c then (floor, False)
      else let start = lastAcked c + 1 in if start < floor then (0, True) else (start, False))"

text \<open>The offsets file, as the value its JSON stands for; \<^verbatim>\<open>slices.Sort\<close> orders \<^verbatim>\<open>AboveLast\<close>.\<close>

record consumerOffsets =
  off_HasAcked :: bool
  off_LastAcked :: u64
  off_AboveLast :: "u64 list"

type_synonym offsetsFile = "(string \<times> consumerOffsets) list"

definition snapshot_one :: "consumer \<Rightarrow> consumerOffsets" where
  "snapshot_one c =
     \<lparr>off_HasAcked = hasAcked c, off_LastAcked = lastAcked c,
      off_AboveLast = sorted_list_of_fset (aboveLast c)\<rparr>"

definition snapshotOffsets :: "partition \<Rightarrow> offsetsFile" where
  "snapshotOffsets p = map (\<lambda>(cid, c). (cid, snapshot_one c)) (consumers p)"

text \<open>
  \<^verbatim>\<open>flushOffsets\<close>: the dirty flags are cleared first; then the temporary file is written, synced,
  closed and renamed over the old one.  The outcomes of the five calls are arguments; the second
  component is the file a reader finds at \<^verbatim>\<open>offsets.json\<close> afterwards.
\<close>

record offsets_io =
  fio_create :: bool
  fio_encode :: bool
  fio_sync :: bool
  fio_close :: bool
  fio_rename :: bool

datatype offsets_err = OE_Create | OE_Encode | OE_Sync | OE_Close | OE_Rename | OE_Open | OE_Decode

definition flushOffsets ::
    "offsets_io \<Rightarrow> partition \<Rightarrow> offsetsFile option \<Rightarrow>
     offsets_err option \<times> offsetsFile option \<times> partition" where
  "flushOffsets io p old =
     (let p1 = p\<lparr>consumers := map (\<lambda>(cid, c). (cid, c\<lparr>persistDirty := False\<rparr>)) (consumers p)\<rparr>;
          snapshot = snapshotOffsets p1
      in if \<not> fio_create io then (Some OE_Create, old, p1)
         else if \<not> fio_encode io then (Some OE_Encode, old, p1)
         else if \<not> fio_sync io then (Some OE_Sync, old, p1)
         else if \<not> fio_close io then (Some OE_Close, old, p1)
         else if \<not> fio_rename io then (Some OE_Rename, old, p1)
         else (None, Some snapshot, p1))"

text \<open>What \<^verbatim>\<open>os.Open\<close> and the JSON decoder make of the file.\<close>

datatype offsets_read = OR_Missing | OR_OpenErr | OR_BadJSON | OR_File offsetsFile

definition load_one :: "string \<times> consumerOffsets \<Rightarrow> partition \<Rightarrow> partition" where
  "load_one e p =
     (let (cid, off) = e; (c, p1) = getOrCreateConsumer cid p
      in put_consumer cid
           (c\<lparr>hasAcked := off_HasAcked off, lastAcked := off_LastAcked off,
              aboveLast := aboveLast c |\<union>| fset_of_list (off_AboveLast off)\<rparr>) p1)"

definition loadOffsets :: "offsets_read \<Rightarrow> partition \<Rightarrow> offsets_err option \<times> partition" where
  "loadOffsets file p =
     (case file of
        OR_Missing \<Rightarrow> (None, p)
      | OR_OpenErr \<Rightarrow> (Some OE_Open, p)
      | OR_BadJSON \<Rightarrow> (Some OE_Decode, p)
      | OR_File data \<Rightarrow> (None, fold load_one data p))"

definition partitionHasDirty :: "partition \<Rightarrow> bool" where
  "partitionHasDirty p \<longleftrightarrow> list_ex (\<lambda>(cid, c). persistDirty c) (consumers p)"

section \<open>Opening\<close>

text \<open>What is on disk for one partition, and the errors of opening it.\<close>

record part_disk =
  pd_entries :: "(string \<times> bool) list"
  pd_files :: "u64 \<Rightarrow> bytes"
  pd_offsets :: offsets_read

datatype open_err = OpenWAL log_err | LoadOffsets offsets_err

definition advanceAppliedHighWater :: "u64 \<Rightarrow> u64 \<Rightarrow> u64" where
  "advanceAppliedHighWater idx cur = (if idx \<le> cur then cur else idx)"

text \<open>
  \<open>cap\<close>, \<open>mode\<close>, \<open>segBytes\<close> and \<open>win\<close> are the broker's configuration; \<open>hw\<close> is its applied high
  water, which the recovery visitor raises.
\<close>

definition openPartition ::
    "open_io \<Rightarrow> int \<Rightarrow> SyncMode \<Rightarrow> u64 \<Rightarrow> int \<Rightarrow> string \<Rightarrow> int \<Rightarrow> string \<Rightarrow> part_disk \<Rightarrow> u64 \<Rightarrow>
     open_err + (partition \<times> u64)" where
  "openPartition io cap mode segBytes win topic i dir pd hw =
     (case Open io mode segBytes (pd_entries pd) (pd_files pd) of
        Inl e \<Rightarrow> Inl (OpenWAL e)
      | Inr (l, visited) \<Rightarrow>
          let d = fold (\<lambda>r d. rebuildIndexes d r) visited (NewDedupeIndex cap);
              hw' = fold (\<lambda>r. advanceAppliedHighWater (rec_RaftIndex r)) visited hw;
              p = newPartition topic i dir l d win
          in (case loadOffsets (pd_offsets pd) p of
                (Some e, _) \<Rightarrow> Inl (LoadOffsets e)
              | (None, p') \<Rightarrow> Inr (p', hw')))"

section \<open>Appending through the committer\<close>

lemma flush_inv:
  assumes "wal_inv l F_Idle R m"
  shows "\<exists>m'. wal_inv (flush ok l) F_Idle R m'"
proof (cases "flush_begin l")
  case None
  then show ?thesis using assms by (auto simp: flush_def)
next
  case (Some x)
  obtain snap i where x: "x = (snap, i)" by (cases x)
  note b = flush_begin_ok [OF assms Some [unfolded x]]
  show ?thesis
    using Some x flush_fail_ok(1) [OF b] flush_end_ok [OF fsync_ok [OF b]]
    by (cases ok) (auto simp: flush_def)
qed

lemma flush_sel [simp]:
  "segments (flush ok l) = segments l" "nextMsgID (flush ok l) = nextMsgID l"
  "written (flush ok l) = written l"
  by (simp_all add: flush_def flush_end_def split: option.split)

text \<open>What one append through the committer does to the log.\<close>

definition append_post ::
    "wal_record \<Rightarrow> wlog \<Rightarrow> log_err + u64 \<Rightarrow> wlog \<Rightarrow> bool" where
  "append_post r l res l' \<longleftrightarrow>
     RetainedFloor l' = RetainedFloor l \<and>
     (case res of
        Inr i \<Rightarrow> i = nextMsgID l \<and> nextMsgID l' = nextMsgID l + 1 \<and>
                retained_records l' = retained_records l @ [stamped r l] \<and>
                committed_records l' = retained_records l'
      | Inl e \<Rightarrow> retained_records l' = retained_records l \<or>
                 retained_records l' = retained_records l @ [stamped r l])"

lemma committed_all:
  assumes "wal_inv l f R m" "committed l = written l"
  shows "committed_records l = retained_records l"
proof -
  note w = wal_inv_committed_all(1) [OF assms]
  then have rel: "log_rel l R" and c: "commit_at l R (length (last R))" by (simp_all add: wal_inv_def)
  show ?thesis
    using committed_records_rel [OF rel c] retained_records_rel [OF rel] concat_snoc [of R] log_rel_not_Nil [OF rel]
    by simp
qed

lemma append_sync_post:
  assumes inv: "wal_inv l F_Idle R m" and io: "io_write io = None" and room: "log_room l r"
    and app: "append_sync io r l = (res, l')"
  shows "append_post r l res l' \<and> (\<exists>R' m'. wal_inv l' F_Idle R' m')"
proof -
  obtain ar l1 where a: "Append io r l = (ar, l1)" by fastforce
  obtain R1 m1 where i1: "wal_inv l1 F_Idle R1 m1" and st: "append_stores r l R ar l1 R1"
    and g: "log_grows 0 l R l1 R1"
    using Append_inv [OF inv io room a] by blast
  have rel: "log_rel l R" and rel1: "log_rel l1 R1" using inv i1 by (simp_all add: wal_inv_def)
  have fl: "RetainedFloor l1 = RetainedFloor l"
    using g log_rel_not_Nil [OF rel] log_rel_not_Nil [OF rel1]
    by (auto simp: log_grows_def RetainedFloor_def hd_conv_nth log_rel_length [OF rel])
  have ret: "retained_records l = concat R" "retained_records l1 = concat R1"
    using retained_records_rel rel rel1 by simp_all
  show ?thesis
  proof (cases ar)
    case (App_Err e)
    then show ?thesis using app a st fl i1 ret by (auto simp: append_sync_def append_post_def append_stores_def)
  next
    case (App_OK i e)
    then show ?thesis
      using app a st fl i1 ret committed_all [OF i1]
      by (auto simp: append_sync_def append_post_def append_stores_def)
  next
    case (App_Wait i e)
    let ?l = "flush (io_sync io) l1"
    obtain m2 where i2: "wal_inv ?l F_Idle R1 m2" using flush_inv [OF i1] by blast
    then have rel2: "log_rel ?l R1" and c2: "commit_at ?l R1 m2" by (simp_all add: wal_inv_def)
    have w: "i = nextMsgID l" "e = written l1" "nextMsgID l1 = nextMsgID l + 1" "concat R1 = concat R @ [stamped r l]"
      using st App_Wait by (auto simp: append_stores_def)
    have ret2: "retained_records ?l = concat R1" using retained_records_rel [OF rel2] .
    have fl2: "RetainedFloor ?l = RetainedFloor l" using fl by (simp add: RetainedFloor_def)
    have l': "l' = ?l" using app a App_Wait by (simp add: append_sync_def Let_def)
    show ?thesis
    proof (cases res)
      case (Inl x)
      then show ?thesis using l' i2 fl2 ret ret2 w by (auto simp: append_post_def)
    next
      case (Inr j)
      then have "append_wait ?l i e = Some (App_OK i e)" "j = i"
        using app a App_Wait
        by (auto simp: append_sync_def append_wait_def Let_def split: option.splits append_res.splits if_splits)
      then have "\<not> committed ?l < written ?l" using w by (auto simp: append_wait_def split: if_splits)
      then have "committed ?l = written ?l" using commit_le_written [OF rel2 c2] by simp
      from committed_all [OF i2 this] Inr l' i2 fl2 ret ret2 w \<open>j = i\<close> show ?thesis
        by (auto simp: append_post_def)
    qed
  qed
qed

text \<open>A publish and a sweep are runs of the log.\<close>

lemma flush_steps: "wal_step\<^sup>*\<^sup>* (l, F_Idle) (flush ok l, F_Idle)"
proof (cases "flush_begin l")
  case None
  then show ?thesis by (simp add: flush_def)
next
  case (Some x)
  obtain snap i where x: "x = (snap, i)" by (cases x)
  have b: "wal_step (l, F_Idle) (l, F_Snap snap i)" using Some x by (simp add: ws_begin)
  show ?thesis
  proof (cases ok)
    case True
    then have "flush ok l = flush_end True snap (fsync i l)" using Some x by (simp add: flush_def)
    then show ?thesis
      using b ws_sync [of l snap i] ws_publish [of "fsync i l" snap]
      by (metis (no_types) converse_rtranclp_into_rtranclp rtranclp.rtrancl_refl)
  next
    case False
    then have "flush ok l = flush_end False snap l" using Some x by (simp add: flush_def)
    then show ?thesis
      using b ws_fail [of l snap i] by (metis (no_types) converse_rtranclp_into_rtranclp rtranclp.rtrancl_refl)
  qed
qed

lemma append_sync_steps:
  assumes "io_write io = None" "log_room l r" "append_sync io r l = (res, l')"
  shows "wal_step\<^sup>*\<^sup>* (l, F_Idle) (l', F_Idle)"
proof -
  obtain ar l1 where a: "Append io r l = (ar, l1)" by fastforce
  have 1: "wal_step (l, F_Idle) (l1, F_Idle)" by (rule ws_append [OF assms(1,2) a])
  have "l' = l1 \<or> l' = flush (io_sync io) l1"
    using assms(3) a by (auto simp: append_sync_def Let_def split: append_res.splits)
  then show ?thesis using 1 flush_steps [of l1 "io_sync io"] by (metis converse_rtranclp_into_rtranclp r_into_rtranclp)
qed

lemma sweep_steps:
  assumes "sweepPartitionRetention (\<lambda>_. False) rb rd now l = (n, bytes, l')"
  shows "wal_step\<^sup>*\<^sup>* (l, f) (l', f)"
proof -
  obtain keep drp where k: "retentionKeepIndex (SegmentInfos l) rb rd now = (keep, drp)" by fastforce
  obtain res l'' where d: "DropSegmentsBefore (\<lambda>_. False) keep l = (res, l'')" by fastforce
  have "l' = l \<or> l' = l''"
    using assms k d by (auto simp: sweepPartitionRetention_def Let_def split: if_splits prod.splits)
  then show ?thesis using ws_drop [OF d, of f] by (metis r_into_rtranclp rtranclp.rtrancl_refl)
qed

section \<open>Stored records stay stored\<close>

text \<open>The record with MsgID \<open>n\<close> is \<open>r\<close>, committed, unless retention has passed it.\<close>

definition holds :: "nat \<Rightarrow> wal_record \<Rightarrow> alog \<Rightarrow> bool" where
  "holds n r a \<longleftrightarrow>
     n < a_floor a \<or>
     n - a_floor a < a_commit a \<and> a_commit a \<le> length (a_recs a) \<and> a_recs a ! (n - a_floor a) = r"

lemma holds_step: "alog_step a b \<Longrightarrow> holds n r a \<Longrightarrow> holds n r b"
proof (induction rule: alog_step.induct)
  case (as_drop k a)
  then show ?case
    by (cases "n < a_floor a + k") (auto simp: holds_def nth_append)
qed (auto simp: holds_def nth_append)

lemma holds_steps: "alog_step\<^sup>*\<^sup>* a b \<Longrightarrow> holds n r a \<Longrightarrow> holds n r b"
  by (induction rule: rtranclp_induct) (auto intro: holds_step)

lemma committed_prefix:
  assumes "wal_inv l f R m"
  shows "prefix (committed_records l) (retained_records l)"
proof -
  have rel: "log_rel l R" and c: "commit_at l R m" using assms by (simp_all add: wal_inv_def)
  have "retained_records l = (concat (butlast R) @ take m (last R)) @ drop m (last R)"
    using retained_records_rel [OF rel] concat_snoc [of R] log_rel_not_Nil [OF rel] by simp
  then show ?thesis using committed_records_rel [OF rel c] by (metis prefixI)
qed

lemma holds_log_view:
  assumes "wal_inv l f R m"
  shows "holds n r (log_view l) \<longleftrightarrow>
     n < unat (RetainedFloor l) \<or>
     n - unat (RetainedFloor l) < length (committed_records l) \<and>
     committed_records l ! (n - unat (RetainedFloor l)) = r"
  using committed_prefix [OF assms] by (auto simp: holds_def log_view_def prefix_def nth_append)

lemma holds_wal_steps:
  assumes "wal_step\<^sup>*\<^sup>* (l, f) (l', f')" "wal_inv l f R m" "holds n r (log_view l)"
  shows "holds n r (log_view l')"
proof -
  obtain R' m' where i: "wal_inv l' f' R' m'" "alog_step\<^sup>*\<^sup>* (abs_log l R m) (abs_log l' R' m')"
    using wal_steps_inv [OF assms(1,2)] by blast
  from holds_steps [OF i(2)] assms(3) show ?thesis
    unfolding log_view_abs [OF i(1)] log_view_abs [OF assms(2)] by blast
qed

lemma holds_crash:
  assumes inv: "wal_inv l f R m" and ok: "recoverable l" "crash_image l d" "mode \<noteq> SyncNone"
    and op: "Open open_ok mode sb (log_entries l) d = Inr (l', rs)"
    and inv': "wal_inv l' f' R' m'" and cm: "committed l' = written l'"
  shows "holds n r (log_view l) \<Longrightarrow> holds n r (log_view l')" and "rs = retained_records l'" and "RetainedFloor l' = RetainedFloor l"
    and "prefix rs (retained_records l)" and "committed_records l' = rs"
proof -
  obtain ext where e: "rs = committed_records l @ ext" "prefix rs (retained_records l)"
      "RetainedFloor l' = RetainedFloor l" "retained_records l' = rs"
    using crash_recovers_after [OF inv ok, of sb] op by auto
  then show "rs = retained_records l'" "RetainedFloor l' = RetainedFloor l" "prefix rs (retained_records l)" by simp_all
  show c: "committed_records l' = rs" using committed_all [OF inv' cm] e by simp
  show "holds n r (log_view l')" if h: "holds n r (log_view l)"
    using h e c by (auto simp: holds_log_view [OF inv] holds_log_view [OF inv'] nth_append)
qed

lemma Open_committed: "Open io mode sb es d = Inr (l, rs) \<Longrightarrow> committed l = written l"
  by (auto simp: Open_def Let_def split: if_splits sum.splits)

end
