(* ===== verification/Delivery.thy ===== *)
theory Delivery
  imports Partition_Model
begin

text \<open>
  The delivery goroutine of one subscription (\<^verbatim>\<open>runDelivery\<close> and \<^verbatim>\<open>awaitVisible\<close> of
  \<^verbatim>\<open>internal/broker/partition.go\<close>) beside everything that can interleave with it: the log, acks,
  nacks, pause and resume, the expiry scan and the clock.  Each transition is one blocking point or
  one critical section of the code.
\<close>

section \<open>The goroutine\<close>

text \<open>
  \<^verbatim>\<open>awaitVisible\<close>: the instant at which the timer fires.  \<^verbatim>\<open>time.Duration(visibleAtNs - now)\<close>
  reinterprets the difference as a signed number; a timer with a negative duration fires at once.
\<close>

definition awaitVisible :: "int \<Rightarrow> u64 \<Rightarrow> int" where
  "awaitVisible now visibleAtNs =
     (if visibleAtNs \<le> of_int now then now else now + max 0 (sint (visibleAtNs - of_int now)))"

datatype delivery_pc = DP_Test | DP_Wait | DP_Read | DP_Delay wal_record int | DP_Send wal_record | DP_Exit

record delivery =
  dl_cons :: consumer
  dl_sys :: wal_sys
  dl_reader :: reader
  dl_pc :: delivery_pc
  dl_pending :: int
  dl_clock :: int
  dl_read :: "wal_record list"
  dl_sent :: "inflight_msg list"

text \<open>The start: resolve the offset and open the reader; \<open>None\<close> ends the goroutine at once.\<close>

definition delivery_start :: "(u64 \<Rightarrow> bool) \<Rightarrow> wlog \<Rightarrow> consumer \<Rightarrow> reader option" where
  "delivery_start op l c =
     (let (startID, outOfRange) = consumerStartID l c
      in if outOfRange then None
         else case NewReader op l startID of Inl e \<Rightarrow> None | Inr r \<Rightarrow> Some r)"

text \<open>After a record is read: park a delayed one, otherwise go on to send it.\<close>

definition after_read :: "int \<Rightarrow> wal_record \<Rightarrow> delivery_pc" where
  "after_read now r = (if rec_VisibleAtNs r > 0 then DP_Delay r (awaitVisible now (rec_VisibleAtNs r)) else DP_Send r)"

inductive delivery_step :: "int \<Rightarrow> int \<Rightarrow> string \<Rightarrow> int \<Rightarrow> delivery \<Rightarrow> delivery \<Rightarrow> bool"
  for threshold timeout topic part where
  ds_ready: "dl_pc s = DP_Test \<Longrightarrow> credit_ready (dl_cons s) \<Longrightarrow>
    delivery_step threshold timeout topic part s (s\<lparr>dl_pc := DP_Read\<rparr>)"
| ds_unready: "dl_pc s = DP_Test \<Longrightarrow> \<not> credit_ready (dl_cons s) \<Longrightarrow>
    delivery_step threshold timeout topic part s (s\<lparr>dl_pc := DP_Wait\<rparr>)"
| ds_wake: "dl_pc s = DP_Wait \<Longrightarrow> credit_select dn pick (dl_cons s) = (Recheck, c') \<Longrightarrow>
    delivery_step threshold timeout topic part s (s\<lparr>dl_cons := c', dl_pc := DP_Test\<rparr>)"
| ds_stop: "dl_pc s = DP_Wait \<Longrightarrow> credit_select dn pick (dl_cons s) = (Cancelled, c') \<Longrightarrow>
    delivery_step threshold timeout topic part s (s\<lparr>dl_cons := c', dl_pc := DP_Exit\<rparr>)"
| ds_read: "dl_pc s = DP_Read \<Longrightarrow> Next (\<lambda>_. True) False (fst (dl_sys s)) (dl_reader s) = (NR_Rec x, r') \<Longrightarrow>
    delivery_step threshold timeout topic part s
      (s\<lparr>dl_reader := r', dl_read := dl_read s @ [x], dl_pc := after_read (dl_clock s) x\<rparr>)"
| ds_block: "dl_pc s = DP_Read \<Longrightarrow> Next (\<lambda>_. True) False (fst (dl_sys s)) (dl_reader s) = (NR_Wait, r') \<Longrightarrow>
    delivery_step threshold timeout topic part s (s\<lparr>dl_reader := r'\<rparr>)"
| ds_read_err: "dl_pc s = DP_Read \<Longrightarrow> Next op dn (fst (dl_sys s)) (dl_reader s) = (res, r') \<Longrightarrow>
    res = NR_Cancelled \<or> (\<exists>e. res = NR_Err e) \<Longrightarrow>
    delivery_step threshold timeout topic part s (s\<lparr>dl_pc := DP_Exit\<rparr>)"
| ds_fire: "dl_pc s = DP_Delay x t \<Longrightarrow> t \<le> dl_clock s \<Longrightarrow>
    delivery_step threshold timeout topic part s
      (s\<lparr>dl_pending := (if dl_pending s - 1 < 0 then 0 else dl_pending s - 1), dl_pc := DP_Send x\<rparr>)"
| ds_delay_stop: "dl_pc s = DP_Delay x t \<Longrightarrow>
    delivery_step threshold timeout topic part s (s\<lparr>dl_pc := DP_Exit\<rparr>)"
| ds_send: "dl_pc s = DP_Send x \<Longrightarrow>
    deliver_record topic part (dl_clock s) (rec_MsgID x) (rec_Payload x) (dl_cons s) = (im, c') \<Longrightarrow>
    delivery_step threshold timeout topic part s (s\<lparr>dl_cons := c', dl_sent := dl_sent s @ [im], dl_pc := DP_Test\<rparr>)"
| ds_send_stop: "dl_pc s = DP_Send x \<Longrightarrow>
    deliver_record topic part (dl_clock s) (rec_MsgID x) (rec_Payload x) (dl_cons s) = (im, c') \<Longrightarrow>
    delivery_step threshold timeout topic part s
      (s\<lparr>dl_cons := rollback_delivery (rec_MsgID x) c', dl_pc := DP_Exit\<rparr>)"
| ds_log: "wal_step (dl_sys s) sys' \<Longrightarrow>
    \<exists>g \<in> set (segments (fst sys')). seg_index g = seg_index (rd_seg (dl_reader s)) \<Longrightarrow>
    delivery_step threshold timeout topic part s (s\<lparr>dl_sys := sys'\<rparr>)"
| ds_consumer: "\<forall>pc. cons_step threshold timeout (dl_cons s, pc) (c', pc) \<Longrightarrow>
    delivery_step threshold timeout topic part s (s\<lparr>dl_cons := c'\<rparr>)"
| ds_publish: "delivery_step threshold timeout topic part s (s\<lparr>dl_pending := dl_pending s + 1\<rparr>)"
| ds_clock: "dl_clock s \<le> t \<Longrightarrow> t < 2 ^ 63 \<Longrightarrow>
    delivery_step threshold timeout topic part s (s\<lparr>dl_clock := t\<rparr>)"

section \<open>What is delivered\<close>

text \<open>The message that carries a record, sent no earlier than the record becomes visible.\<close>

definition carries :: "string \<Rightarrow> int \<Rightarrow> wal_record \<Rightarrow> inflight_msg \<Rightarrow> bool" where
  "carries topic part r im \<longleftrightarrow>
     inf_MsgID im = rec_MsgID r \<and> inf_Payload im = rec_Payload r \<and> inf_Topic im = topic \<and> inf_Partition im = part \<and>
     inf_Attempts im = 1 \<and>
     (uint (rec_VisibleAtNs r) < 2 ^ 63 \<longrightarrow> uint (rec_VisibleAtNs r) \<le> inf_DeliveredAt im)"

definition due :: "wal_record \<Rightarrow> int \<Rightarrow> bool" where
  "due r t \<longleftrightarrow> (uint (rec_VisibleAtNs r) < 2 ^ 63 \<longrightarrow> uint (rec_VisibleAtNs r) \<le> t)"

fun pc_reads :: "delivery_pc \<Rightarrow> int \<Rightarrow> wal_record list \<Rightarrow> wal_record list \<Rightarrow> bool" where
  "pc_reads (DP_Delay r t) now done_recs reads \<longleftrightarrow> reads = done_recs @ [r] \<and> due r t"
| "pc_reads (DP_Send r) now done_recs reads \<longleftrightarrow> reads = done_recs @ [r] \<and> due r now"
| "pc_reads DP_Exit now done_recs reads \<longleftrightarrow> prefix done_recs reads"
| "pc_reads _ now done_recs reads \<longleftrightarrow> reads = done_recs"

definition delivery_inv :: "nat \<Rightarrow> string \<Rightarrow> int \<Rightarrow> delivery \<Rightarrow> bool" where
  "delivery_inv a topic part s \<longleftrightarrow>
     tail_inv a (dl_sys s, dl_reader s, dl_read s) \<and> 0 \<le> dl_clock s \<and> dl_clock s < 2 ^ 63 \<and>
     (\<exists>done_recs. pc_reads (dl_pc s) (dl_clock s) done_recs (dl_read s) \<and>
        list_all2 (carries topic part) done_recs (dl_sent s))"

lemma delivery_invI:
  assumes "tail_inv a (dl_sys s, dl_reader s, dl_read s)" "0 \<le> dl_clock s" "dl_clock s < 2 ^ 63"
    and "pc_reads (dl_pc s) (dl_clock s) done_recs (dl_read s)" "list_all2 (carries topic part) done_recs (dl_sent s)"
  shows "delivery_inv a topic part s"
  using assms unfolding delivery_inv_def by blast

lemma sint_small:
  assumes "uint (w :: u64) < 2 ^ 63"
  shows "sint w = uint w"
proof -
  have "- (2 ^ 63) \<le> uint w" by (rule order_trans [OF _ uint_ge_0]) simp
  then show ?thesis using assms by (simp add: sint_uint signed_take_bit_int_eq_self)
qed

lemma awaitVisible_due:
  assumes "0 \<le> now" "now < 2 ^ 63"
  shows "due r (awaitVisible now (rec_VisibleAtNs r))"
proof -
  let ?v = "rec_VisibleAtNs r"
  have now: "uint (of_int now :: u64) = now"
    using assms by (simp add: uint_word_of_int_eq take_bit_int_eq_self)
  show ?thesis
  proof (cases "?v \<le> of_int now")
    case True
    then show ?thesis using now by (simp add: due_def awaitVisible_def word_le_def)
  next
    case False
    then have lt: "now < uint ?v" using now by (simp add: word_le_def)
    then have u: "uint (?v - of_int now) = uint ?v - now"
      using now uint_sub_lem [of "of_int now" ?v] by simp
    have "sint (?v - of_int now) = uint ?v - now" if "uint ?v < 2 ^ 63"
      using sint_small [of "?v - of_int now"] u that assms(1) by simp
    then show ?thesis using False lt by (simp add: due_def awaitVisible_def)
  qed
qed

lemma carries_deliver:
  assumes "deliver_record topic part now (rec_MsgID x) (rec_Payload x) c = (im, c')" "due x now"
  shows "carries topic part x im"
  using assms by (auto simp: deliver_record_def carries_def due_def Let_def)

lemma due_mono: "due r t \<Longrightarrow> t \<le> t' \<Longrightarrow> due r t'"
  by (auto simp: due_def)

lemma pc_reads_clock: "pc_reads pc now ds rs \<Longrightarrow> now \<le> t \<Longrightarrow> pc_reads pc t ds rs"
  by (cases pc) (auto intro: due_mono)

lemma after_read_reads:
  assumes "0 \<le> now" "now < 2 ^ 63"
  shows "pc_reads (after_read now x) now ds (ds @ [x])"
proof (cases "rec_VisibleAtNs x > 0")
  case True
  then show ?thesis using awaitVisible_due [OF assms, of x] by (simp add: after_read_def)
next
  case False
  then have "rec_VisibleAtNs x = 0" by (simp add: word_gt_0)
  then show ?thesis using assms(1) by (simp add: after_read_def due_def)
qed

lemma delivery_step_inv:
  assumes "delivery_step threshold timeout topic part s s'" "delivery_inv a topic part s"
  shows "delivery_inv a topic part s'"
  using assms
proof (induction rule: delivery_step.induct)
  case (ds_read s x r')
  obtain l f where sys: "dl_sys s = (l, f)" by fastforce
  have inv: "tail_inv a ((l, f), dl_reader s, dl_read s)" and cl: "0 \<le> dl_clock s" "dl_clock s < 2 ^ 63"
    and sent: "list_all2 (carries topic part) (dl_read s) (dl_sent s)"
    using ds_read(3) sys by (auto simp: delivery_inv_def ds_read(1))
  have "tail_inv a ((l, f), r', dl_read s @ [x])"
    using tail_inv_next(1) [OF inv, of "NR_Rec x" r'] ds_read(2) sys by simp
  then show ?case
    using sent cl after_read_reads [OF cl, of x "dl_read s"] sys by (intro delivery_invI) auto
next
  case (ds_block s r')
  obtain l f where sys: "dl_sys s = (l, f)" by fastforce
  have inv: "tail_inv a ((l, f), dl_reader s, dl_read s)" using ds_block(3) sys by (simp add: delivery_inv_def)
  have "tail_inv a ((l, f), r', dl_read s)"
    using tail_inv_next(1) [OF inv, of NR_Wait r'] ds_block(2) sys by simp
  then show ?case using ds_block(3) sys by (auto simp: delivery_inv_def)
next
  case (ds_read_err s op dn res r')
  then show ?case by (auto simp: delivery_inv_def)
next
  case (ds_send s x im c')
  then obtain ds where ds: "dl_read s = ds @ [x]" "due x (dl_clock s)" "list_all2 (carries topic part) ds (dl_sent s)"
    and r: "tail_inv a (dl_sys s, dl_reader s, dl_read s)" "0 \<le> dl_clock s" "dl_clock s < 2 ^ 63"
    by (auto simp: delivery_inv_def)
  have "list_all2 (carries topic part) (ds @ [x]) (dl_sent s @ [im])"
    using ds(3) carries_deliver [OF ds_send(2) ds(2)] by (simp add: list_all2_appendI)
  then show ?case using r ds(1) by (intro delivery_invI [where done_recs = "ds @ [x]"]) auto
next
  case (ds_log s sys')
  obtain l f l' f' where "dl_sys s = (l, f)" "sys' = (l', f')" by fastforce
  with ds_log tail_inv_log [of a l f "dl_reader s" "dl_read s" l' f'] show ?case
    by (auto simp: delivery_inv_def)
next
  case (ds_clock s t)
  then show ?case by (auto simp: delivery_inv_def dest: pc_reads_clock)
next
  case (ds_fire s x t)
  then show ?case by (auto simp: delivery_inv_def dest: due_mono)
qed (auto simp: delivery_inv_def)

lemma delivery_steps_inv:
  "(delivery_step threshold timeout topic part)\<^sup>*\<^sup>* s s' \<Longrightarrow> delivery_inv a topic part s \<Longrightarrow>
   delivery_inv a topic part s'"
  by (induction rule: rtranclp_induct) (auto intro: delivery_step_inv)

lemma delivery_start_inv:
  assumes "wal_reach mode sb sys" "mode \<noteq> SyncNone" "delivery_start (\<lambda>_. True) (fst sys) c = Some r"
    and "consumerStartID (fst sys) c = (start, oor)"
    and "unat start \<le> unat (RetainedFloor (fst sys)) + length (committed_records (fst sys))"
    and "0 \<le> now" "now < 2 ^ 63"
  shows "delivery_inv (unat start) topic part
     \<lparr>dl_cons = c, dl_sys = sys, dl_reader = r, dl_pc = DP_Test, dl_pending = n, dl_clock = now, dl_read = [], dl_sent = []\<rparr>"
proof -
  obtain l f where sys: "sys = (l, f)" by fastforce
  obtain R m where inv: "wal_inv l f R m" using wal_reach_inv [OF _ assms(2)] assms(1) sys by fastforce
  then have rel: "log_rel l R" and cm: "commit_at l R m" by (simp_all add: wal_inv_def)
  have nr: "NewReader (\<lambda>_. True) l start = Inr r" "RetainedFloor l \<le> start"
    using assms(3,4) sys
    by (auto simp: delivery_start_def consumerStartID_def Let_def split: if_splits sum.splits)
  have fl: "log_floor l \<le> unat start" using nr(2) by (simp add: u64_le_iff floor_unat)
  have nc: "length (committed_records l) = ncommitted R m"
    using committed_records_rel [OF rel cm] cm by (simp add: commit_at_def)
  have "reader_at l R r (unat start - log_floor l)"
    using NewReader_at [OF rel cm _ fl, of "\<lambda>_. True"] assms(5) nr(1) nc sys
    by (auto simp: floor_unat min_absorb1)
  then have "tail_inv (unat start) ((l, f), r, [])" using tail_invI [OF inv] fl by simp
  then show ?thesis using assms(6,7) sys by (intro delivery_invI) auto
qed

definition delivery_init :: "consumer \<Rightarrow> wal_sys \<Rightarrow> reader \<Rightarrow> int \<Rightarrow> int \<Rightarrow> delivery" where
  "delivery_init c sys r n now =
     \<lparr>dl_cons = c, dl_sys = sys, dl_reader = r, dl_pc = DP_Test, dl_pending = n, dl_clock = now, dl_read = [], dl_sent = []\<rparr>"

lemma carried_ids:
  assumes "list_all2 (carries topic part) ds ims" "ids_from a ds"
  shows "map (\<lambda>im. unat (inf_MsgID im)) ims = [a..<a + length ims]"
proof -
  have "map (\<lambda>im. unat (inf_MsgID im)) ims = map (\<lambda>r. unat (rec_MsgID r)) ds"
    using assms(1) by (induction rule: list_all2_induct) (auto simp: carries_def)
  then show ?thesis using assms by (simp add: ids_from_def list_all2_lengthD)
qed

lemma pc_reads_prefix: "pc_reads pc now ds rs \<Longrightarrow> prefix ds rs"
  by (cases pc) auto

section \<open>Properties\<close>


lemma sample_delivery:
  "\<exists>r s. delivery_start (\<lambda>_. True) sample_log (newConsumer ''c'' 8) = Some r \<and>
     (delivery_step 0 30 ''t'' 0)\<^sup>*\<^sup>* (delivery_init (newConsumer ''c'' 8) (sample_log, F_Idle) r 0 100) s \<and>
     length (dl_sent s) = 1 \<and> dl_sys s = (sample_log, F_Idle)"
proof -
  let ?c = "newConsumer ''c'' 8"
  obtain r where r: "NewReader (\<lambda>_. True) sample_log 0 = Inr r" and at: "reader_at sample_log [[sample_rec]] r 0"
    using sample_reader by blast
  have st: "delivery_start (\<lambda>_. True) sample_log ?c = Some r"
    using r by (simp add: delivery_start_def consumerStartID_def newConsumer_def sample_records)
  have "tail_inv 0 ((sample_log, F_Idle), r, [])"
    using tail_invI [OF sample_inv at] sample_records(3) floor_unat [of sample_log] by simp
  note nx = tail_inv_next [OF this]
  obtain res r' where n: "Next (\<lambda>_. True) False sample_log r = (res, r')" by fastforce
  obtain x where x: "res = NR_Rec x" using nx(2) [OF n] by (auto simp: sample_records)
  have "tail_inv 0 ((sample_log, F_Idle), r', [x])" using nx(1) [OF n] x by simp
  then obtain R m where w: "wal_inv sample_log F_Idle R m" and e: "x = concat R ! 0"
    using sample_records(3) floor_unat [of sample_log] by (auto simp: tail_inv_def)
  have "concat R = [sample_rec]" using w retained_records_rel [of sample_log R] sample_records(2) by (simp add: wal_inv_def)
  with e have x': "x = sample_rec" by simp
  let ?s0 = "delivery_init ?c (sample_log, F_Idle) r 0 100"
  let ?s1 = "?s0\<lparr>dl_pc := DP_Read\<rparr>"
  let ?s2 = "?s1\<lparr>dl_reader := r', dl_read := dl_read ?s1 @ [x], dl_pc := after_read (dl_clock ?s1) x\<rparr>"
  obtain im c' where d: "deliver_record ''t'' 0 (dl_clock ?s2) (rec_MsgID x) (rec_Payload x) (dl_cons ?s2) = (im, c')"
    by fastforce
  let ?s3 = "?s2\<lparr>dl_cons := c', dl_sent := dl_sent ?s2 @ [im], dl_pc := DP_Test\<rparr>"
  have 1: "delivery_step 0 30 ''t'' 0 ?s0 ?s1"
    by (rule ds_ready) (simp_all add: delivery_init_def credit_ready_def newConsumer_def)
  have 2: "delivery_step 0 30 ''t'' 0 ?s1 ?s2"
    by (rule ds_read) (use n x in \<open>simp_all add: delivery_init_def\<close>)
  have 3: "delivery_step 0 30 ''t'' 0 ?s2 ?s3"
    by (rule ds_send [OF _ d]) (simp add: after_read_def x' sample_rec_def)
  have "(delivery_step 0 30 ''t'' 0)\<^sup>*\<^sup>* ?s0 ?s3"
    using 1 2 3 by (meson rtranclp.rtrancl_into_rtrancl rtranclp.rtrancl_refl)
  moreover have "length (dl_sent ?s3) = 1" "dl_sys ?s3 = (sample_log, F_Idle)" by (simp_all add: delivery_init_def)
  ultimately show ?thesis using st by blast
qed


end
