(* ===== verification/Proto_Text.thy ===== *)
theory Proto_Text
  imports Prelude
begin

text \<open>
  What the wire code uses of Go's \<^verbatim>\<open>strings\<close> and \<^verbatim>\<open>bufio\<close> packages: splitting a line into fields,
  cutting, trimming, and reading a line or a byte from a buffered reader.  Strings are byte strings;
  white space is what \<^verbatim>\<open>unicode.IsSpace\<close> accepts, found in its UTF-8 form.
\<close>

named_theorems text_simps

section \<open>Fields\<close>

definition code_at :: "string \<Rightarrow> nat \<Rightarrow> nat" where
  "code_at s i = (if i < length s then of_char (s ! i) else 0)"

text \<open>
  The length of the white-space rune at the front, 0 if there is none.  A lead byte of such a rune
  never occurs inside a valid rune, and an invalid byte is one rune of its own, so matching the
  bytes is what decoding runes does.
\<close>

definition space_len :: "string \<Rightarrow> nat" where
  "space_len s =
     (let a = code_at s 0; b = code_at s 1; c = code_at s 2 in
      if a = 32 \<or> 9 \<le> a \<and> a \<le> 13 then 1
      else if a = 194 \<and> (b = 133 \<or> b = 160) then 2
      else if a = 225 \<and> b = 154 \<and> c = 128 then 3
      else if a = 226 \<and> b = 128 \<and> (128 \<le> c \<and> c \<le> 138 \<or> c = 168 \<or> c = 169 \<or> c = 175) then 3
      else if a = 226 \<and> b = 129 \<and> c = 159 then 3
      else if a = 227 \<and> b = 128 \<and> c = 128 then 3
      else 0)"

function fields_loop :: "string \<Rightarrow> string \<Rightarrow> string list" where
  "fields_loop cur s =
     (if s = [] then (if cur = [] then [] else [cur])
      else let n = space_len s in
        if n = 0 then fields_loop (cur @ [hd s]) (tl s)
        else if cur = [] then fields_loop [] (drop n s)
        else cur # fields_loop [] (drop n s))"
  by pat_completeness auto
termination
  by (relation "measure (\<lambda>(cur, s). length s)") auto

declare fields_loop.simps [simp del]

definition Fields :: "string \<Rightarrow> string list" where
  "Fields s = fields_loop [] s"

text \<open>A token of printable ASCII, and a line of them separated by single blanks.\<close>

definition tok :: "string \<Rightarrow> bool" where
  "tok t \<longleftrightarrow> t \<noteq> [] \<and> (\<forall>c \<in> set t. 33 \<le> (of_char c :: nat) \<and> (of_char c :: nat) \<le> 126)"

fun unwords :: "string list \<Rightarrow> string" where
  "unwords [] = []"
| "unwords [t] = t"
| "unwords (t # ts) = t @ CHR '' '' # unwords ts"

lemma space_len_visible:
  "33 \<le> (of_char c :: nat) \<Longrightarrow> (of_char c :: nat) \<le> 126 \<Longrightarrow> space_len (c # s) = 0"
  by (simp add: space_len_def code_at_def Let_def)

lemma space_len_blank [simp]: "space_len (CHR '' '' # s) = 1"
  by (simp add: space_len_def code_at_def)

lemma fields_loop_Nil [simp]: "fields_loop cur [] = (if cur = [] then [] else [cur])"
  by (simp add: fields_loop.simps)

lemma fields_loop_tok:
  "\<forall>c \<in> set t. 33 \<le> (of_char c :: nat) \<and> (of_char c :: nat) \<le> 126 \<Longrightarrow>
   fields_loop cur (t @ s) = fields_loop (cur @ t) s"
proof (induction t arbitrary: cur)
  case (Cons c t)
  then show ?case by (simp add: fields_loop.simps [of cur "c # t @ s"] space_len_visible)
qed simp

lemma fields_loop_blank: "cur \<noteq> [] \<Longrightarrow> fields_loop cur (CHR '' '' # s) = cur # fields_loop [] s"
  by (simp add: fields_loop.simps [of cur])

lemma Fields_unwords [text_simps]: "list_all tok ts \<Longrightarrow> Fields (unwords ts) = ts"
proof (induction ts rule: unwords.induct)
  case (2 t)
  then show ?case using fields_loop_tok [of t "[]" "[]"] by (auto simp: Fields_def tok_def)
next
  case (3 t t2 ts)
  then have t: "tok t" and r: "Fields (unwords (t2 # ts)) = t2 # ts" by simp_all
  have "Fields (unwords (t # t2 # ts)) = fields_loop t (CHR '' '' # unwords (t2 # ts))"
    using fields_loop_tok [of t "[]" "CHR '' '' # unwords (t2 # ts)"] t by (simp add: Fields_def tok_def)
  also have "\<dots> = t # fields_loop [] (unwords (t2 # ts))"
    by (rule fields_loop_blank) (use t in \<open>simp add: tok_def\<close>)
  finally show ?case using r by (simp add: Fields_def)
qed (simp add: Fields_def)

text \<open>Fields are never empty, whatever the line.\<close>

lemma fields_loop_nonempty: "f \<in> set (fields_loop cur s) \<Longrightarrow> f \<noteq> []"
proof (induction cur s rule: fields_loop.induct)
  case (1 cur s)
  show ?case
  proof (cases "s = []")
    case True
    then show ?thesis using 1(4) by (simp split: if_splits)
  next
    case False
    then show ?thesis
      using 1 by (auto simp: fields_loop.simps [of cur s] Let_def split: if_splits)
  qed
qed

lemma Fields_nonempty: "f \<in> set (Fields s) \<Longrightarrow> f \<noteq> []"
  unfolding Fields_def by (rule fields_loop_nonempty)

section \<open>Cutting and trimming\<close>

definition Cut :: "string \<Rightarrow> char \<Rightarrow> string \<times> string \<times> bool" where
  "Cut s sep =
     (let before = takeWhile (\<lambda>c. c \<noteq> sep) s
      in if sep \<in> set s then (before, drop (Suc (length before)) s, True) else (s, [], False))"

definition HasPrefix :: "string \<Rightarrow> string \<Rightarrow> bool" where
  "HasPrefix s p \<longleftrightarrow> take (length p) s = p"

definition TrimPrefix :: "string \<Rightarrow> string \<Rightarrow> string" where
  "TrimPrefix s p = (if HasPrefix s p then drop (length p) s else s)"

text \<open>\<^verbatim>\<open>TrimRight(s, "\r\n")\<close>\<close>

definition TrimRightNL :: "string \<Rightarrow> string" where
  "TrimRightNL s = rev (dropWhile (\<lambda>c. c = CHR 0x0D \<or> c = CHR 0x0A) (rev s))"

lemma Cut_none [text_simps]: "sep \<notin> set s \<Longrightarrow> Cut s sep = (s, [], False)"
  by (simp add: Cut_def)

lemma Cut_found [text_simps]: "sep \<notin> set a \<Longrightarrow> Cut (a @ sep # b) sep = (a, b, True)"
proof -
  assume "sep \<notin> set a"
  then have "takeWhile (\<lambda>c. c \<noteq> sep) a = a" by (auto simp: takeWhile_eq_all_conv)
  with \<open>sep \<notin> set a\<close> show ?thesis by (simp add: Cut_def Let_def)
qed

lemma Cut_True: "Cut s sep = (a, b, True) \<Longrightarrow> s = a @ sep # b \<and> sep \<notin> set a"
proof -
  assume c: "Cut s sep = (a, b, True)"
  then have m: "sep \<in> set s" and a: "a = takeWhile (\<lambda>c. c \<noteq> sep) s" and b: "b = drop (Suc (length a)) s"
    by (auto simp: Cut_def Let_def split: if_splits)
  have "dropWhile (\<lambda>c. c \<noteq> sep) s = sep # b"
    using m a b by (induction s arbitrary: a b) (auto split: if_splits)
  then have "s = a @ sep # b" by (metis a takeWhile_dropWhile_id)
  moreover have "sep \<notin> set a" using a by (auto dest: set_takeWhileD)
  ultimately show ?thesis by blast
qed

lemma Cut_False: "Cut s sep = (a, b, False) \<Longrightarrow> a = s \<and> sep \<notin> set s"
  by (auto simp: Cut_def Let_def split: if_splits)

lemma HasPrefix_append [simp]: "HasPrefix (p @ s) p"
  by (simp add: HasPrefix_def)

lemma TrimPrefix_append [simp]: "TrimPrefix (p @ s) p = s"
  by (simp add: TrimPrefix_def)

lemma TrimRightNL_line [text_simps]:
  "s = [] \<or> last s \<noteq> CHR 0x0D \<and> last s \<noteq> CHR 0x0A \<Longrightarrow> TrimRightNL (s @ [CHR 0x0A]) = s"
  by (cases s rule: rev_cases) (auto simp: TrimRightNL_def)

section \<open>Buffered reading\<close>

definition end_err :: "stream_end \<Rightarrow> io_err" where
  "end_err e = (case e of At_EOF \<Rightarrow> IO_EOF | At_Err m \<Rightarrow> IO_Err m)"

text \<open>\<^verbatim>\<open>ReadString('\n')\<close>: the line with its terminator, or an error with what was read.\<close>

definition ReadString :: "stream \<Rightarrow> (io_err \<times> string + string) \<times> stream" where
  "ReadString s =
     (let pre = takeWhile (\<lambda>b. b \<noteq> 10) (sbuf s) in
      if 10 \<in> set (sbuf s)
      then (Inr (string_of_bytes pre @ [CHR 0x0A]), s\<lparr>sbuf := drop (Suc (length pre)) (sbuf s)\<rparr>)
      else (Inl (end_err (send s), string_of_bytes (sbuf s)), s\<lparr>sbuf := []\<rparr>))"

definition ReadByte :: "stream \<Rightarrow> (io_err + u8) \<times> stream" where
  "ReadByte s =
     (case sbuf s of
        [] \<Rightarrow> (Inl (end_err (send s)), s)
      | b # bs \<Rightarrow> (Inr b, s\<lparr>sbuf := bs\<rparr>))"

definition nl_free :: "string \<Rightarrow> bool" where
  "nl_free s \<longleftrightarrow> CHR 0x0A \<notin> set s \<and> CHR 0x0D \<notin> set s"

lemma nl_byte: "of_nat (of_char c) = (10 :: u8) \<longleftrightarrow> c = CHR 0x0A"
proof
  assume "of_nat (of_char c) = (10 :: u8)"
  then have "unat (of_nat (of_char c) :: u8) = unat (10 :: u8)" by simp
  then have "(of_char c :: nat) = of_char (CHR 0x0A)" by (simp add: unat_of_char)
  then show "c = CHR 0x0A" by (simp only: of_char_eq_iff)
qed simp

lemma ReadString_line [text_simps]:
  assumes "nl_free line"
  shows "ReadString \<lparr>sbuf = bytes_of_string (line @ [CHR 0x0A]) @ rest, send = e\<rparr> =
     (Inr (line @ [CHR 0x0A]), \<lparr>sbuf = rest, send = e\<rparr>)"
proof -
  have n: "\<forall>b \<in> set (bytes_of_string line). b \<noteq> 10"
    using assms by (auto simp: bytes_of_string_def nl_byte nl_free_def)
  then have "takeWhile (\<lambda>b. b \<noteq> 10) (bytes_of_string line @ 10 # rest) = bytes_of_string line"
    by (simp add: takeWhile_tail takeWhile_eq_all_conv [THEN iffD2])
  then show ?thesis by (simp add: ReadString_def bytes_of_string_def [of "[CHR 0x0A]"])
qed

lemma ReadString_shrinks:
  "ReadString s = (Inr line, s') \<Longrightarrow> length (sbuf s') < length (sbuf s)"
  by (auto simp: ReadString_def Let_def split: if_splits)
     (metis Suc_le_eq diff_less diff_less_Suc gr0I length_greater_0_conv length_pos_if_in_set zero_less_Suc zero_less_diff diff_Suc_less)

lemma ReadString_ends_nl: "ReadString s = (Inr line, s') \<Longrightarrow> \<exists>l. line = l @ [CHR 0x0A]"
  by (auto simp: ReadString_def Let_def split: if_splits)

end
