(* ===== verification/Proto_Response.thy ===== *)
theory Proto_Response
  imports Proto_Text "HOL-Library.Sublist"
begin

text \<open>
  The response writers (\<^verbatim>\<open>internal/proto/response.go\<close>) over a \<^verbatim>\<open>bufio.Writer\<close>.  The connection
  under it takes a bounded number of bytes and then fails for good, or never fails; a failure is
  sticky, as in \<^verbatim>\<open>bufio\<close>.  A write larger than the buffer may reach the connection before the flush
  that ends every writer, which changes neither the bytes sent nor whether the writer fails.
\<close>

section \<open>Buffered writing\<close>

record writer =
  w_buf :: bytes
  w_sent :: bytes
  w_room :: "nat option"
  w_err :: bool

type_synonym write_op = "writer \<Rightarrow> bool \<times> writer"

definition Write :: "bytes \<Rightarrow> write_op" where
  "Write bs w = (if w_err w then (False, w) else (True, w\<lparr>w_buf := w_buf w @ bs\<rparr>))"

definition WriteString :: "string \<Rightarrow> write_op" where
  "WriteString s = Write (bytes_of_string s)"

definition WriteByte :: "u8 \<Rightarrow> write_op" where
  "WriteByte b = Write [b]"

definition Flush :: write_op where
  "Flush w =
     (if w_err w then (False, w)
      else case w_room w of
        None \<Rightarrow> (True, w\<lparr>w_sent := w_sent w @ w_buf w, w_buf := []\<rparr>)
      | Some r \<Rightarrow>
          (if length (w_buf w) \<le> r
           then (True, w\<lparr>w_sent := w_sent w @ w_buf w, w_buf := [], w_room := Some (r - length (w_buf w))\<rparr>)
           else (False, w\<lparr>w_sent := w_sent w @ take r (w_buf w), w_buf := drop r (w_buf w),
                   w_room := Some 0, w_err := True\<rparr>)))"

text \<open>One write after the other, returning at the first error.\<close>

fun write_seq :: "write_op list \<Rightarrow> write_op" where
  "write_seq [] w = (True, w)"
| "write_seq (f # fs) w = (case f w of (ok, w1) \<Rightarrow> if ok then write_seq fs w1 else (False, w1))"

definition Itoa :: "int \<Rightarrow> string" where
  "Itoa n = (if n < 0 then CHR ''-'' # dec (nat (- n)) else dec (nat n))"

section \<open>Responses\<close>

definition WriteOK :: "u64 \<Rightarrow> write_op" where
  "WriteOK msgID = write_seq [WriteString ''OK '', WriteString (dec (unat msgID)), WriteByte 10, Flush]"

definition WriteHelloOK :: "int \<Rightarrow> write_op" where
  "WriteHelloOK version =
     write_seq [WriteString ''HELLO '', WriteString (Itoa version), WriteString ('' OK'' @ [CHR 0x0A]), Flush]"

definition WriteMsg :: "string \<Rightarrow> int \<Rightarrow> u64 \<Rightarrow> bytes \<Rightarrow> write_op" where
  "WriteMsg topic part msgID payload =
     write_seq [WriteString ''MSG '', WriteString topic, WriteByte 32, WriteString (Itoa part), WriteByte 32,
       WriteString (dec (unat msgID)), WriteByte 32, WriteString (Itoa (int (length payload))), WriteByte 10,
       Write payload, WriteByte 10, Flush]"

definition WriteErr :: "string \<Rightarrow> string \<Rightarrow> write_op" where
  "WriteErr code reason =
     write_seq [WriteString ''ERR '', WriteString code, WriteByte 32, WriteString reason, WriteByte 10, Flush]"

fun info_writes :: "string list \<Rightarrow> write_op list" where
  "info_writes [] = []"
| "info_writes (l # ls) = WriteString l # WriteByte 10 # info_writes ls"

definition WriteInfo :: "string list \<Rightarrow> write_op" where
  "WriteInfo lines =
     write_seq ([WriteString ''INFO '', WriteString (Itoa (int (length lines))), WriteByte 10] @
       info_writes lines @ [Flush])"

definition WriteDup :: "u64 \<Rightarrow> write_op" where
  "WriteDup originalMsgID =
     write_seq [WriteString ''DUP '', WriteString (dec (unat originalMsgID)), WriteByte 10, Flush]"

section \<open>What reaches the connection\<close>

lemma write_seq_flush:
  "\<not> w_err w \<Longrightarrow> write_seq (map Write bss @ [Flush]) w = Flush (w\<lparr>w_buf := w_buf w @ concat bss\<rparr>)"
  by (induction bss arbitrary: w) (auto simp: Write_def split: prod.splits)

lemma write_seq_failed: "w_err w \<Longrightarrow> write_seq (map Write bss @ [Flush]) w = (False, w)"
  by (cases bss) (simp_all add: Flush_def Write_def)

text \<open>
  A writer that emits the frame \<open>bs\<close>: it sends all of it or reports an error having sent a proper
  prefix, after which the writer stays failed and sends nothing.
\<close>

definition emits :: "write_op \<Rightarrow> bytes \<Rightarrow> bool" where
  "emits f bs \<longleftrightarrow>
     (\<forall>w. \<not> w_err w \<and> w_buf w = [] \<longrightarrow>
        (case f w of
           (True, w') \<Rightarrow> w_sent w' = w_sent w @ bs \<and> w_buf w' = [] \<and> \<not> w_err w'
         | (False, w') \<Rightarrow> w_err w' \<and> (\<exists>p. w_sent w' = w_sent w @ p \<and> strict_prefix p bs))) \<and>
     (\<forall>w. w_err w \<longrightarrow> f w = (False, w)) \<and>
     (\<forall>w. w_room w = None \<and> \<not> w_err w \<longrightarrow> fst (f w))"

lemma emits_write_seq: "emits (write_seq (map Write bss @ [Flush])) (concat bss)"
proof -
  have "strict_prefix (take r bs) bs" if "r < length bs" for r and bs :: bytes
    using that by (auto simp: strict_prefix_def take_is_prefix)
  then show ?thesis
    by (auto simp: emits_def write_seq_flush write_seq_failed Flush_def not_le split: option.splits)
qed

definition OK_frame :: "u64 \<Rightarrow> bytes" where
  "OK_frame i = bytes_of_string (''OK '' @ dec (unat i) @ [CHR 0x0A])"

definition Dup_frame :: "u64 \<Rightarrow> bytes" where
  "Dup_frame i = bytes_of_string (''DUP '' @ dec (unat i) @ [CHR 0x0A])"

definition Err_frame :: "string \<Rightarrow> string \<Rightarrow> bytes" where
  "Err_frame code reason = bytes_of_string (''ERR '' @ code @ '' '' @ reason @ [CHR 0x0A])"

definition Hello_frame :: "int \<Rightarrow> bytes" where
  "Hello_frame v = bytes_of_string (''HELLO '' @ Itoa v @ '' OK'' @ [CHR 0x0A])"

definition Msg_frame :: "string \<Rightarrow> int \<Rightarrow> u64 \<Rightarrow> bytes \<Rightarrow> bytes" where
  "Msg_frame topic p i payload =
     bytes_of_string (unwords [''MSG'', topic, Itoa p, dec (unat i), dec (length payload)] @ [CHR 0x0A]) @
     payload @ [10]"

definition Info_frame :: "string list \<Rightarrow> bytes" where
  "Info_frame ls =
     bytes_of_string (''INFO '' @ dec (length ls) @ [CHR 0x0A] @ concat (map (\<lambda>l. l @ [CHR 0x0A]) ls))"

lemma bytes_of_string_Cons: "bytes_of_string (c # s) = of_nat (of_char c) # bytes_of_string s"
  by (simp add: bytes_of_string_def)

lemmas write_op_defs = WriteString_def WriteByte_def bytes_of_string_Cons Itoa_def

lemma emits_OK: "emits (WriteOK i) (OK_frame i)"
  using emits_write_seq [of "[bytes_of_string ''OK '', bytes_of_string (dec (unat i)), [10]]"]
  by (simp add: WriteOK_def OK_frame_def write_op_defs)

lemma emits_Dup: "emits (WriteDup i) (Dup_frame i)"
  using emits_write_seq [of "[bytes_of_string ''DUP '', bytes_of_string (dec (unat i)), [10]]"]
  by (simp add: WriteDup_def Dup_frame_def write_op_defs)

lemma emits_Err: "emits (WriteErr code reason) (Err_frame code reason)"
  using emits_write_seq
    [of "[bytes_of_string ''ERR '', bytes_of_string code, [32], bytes_of_string reason, [10]]"]
  by (simp add: WriteErr_def Err_frame_def write_op_defs)

lemma emits_HelloOK: "emits (WriteHelloOK v) (Hello_frame v)"
  using emits_write_seq
    [of "[bytes_of_string ''HELLO '', bytes_of_string (Itoa v), bytes_of_string ('' OK'' @ [CHR 0x0A])]"]
  by (simp add: WriteHelloOK_def Hello_frame_def WriteString_def bytes_of_string_Cons)

lemma emits_Msg: "emits (WriteMsg topic p i payload) (Msg_frame topic p i payload)"
  using emits_write_seq
    [of "[bytes_of_string ''MSG '', bytes_of_string topic, [32], bytes_of_string (Itoa p), [32],
       bytes_of_string (dec (unat i)), [32], bytes_of_string (Itoa (int (length payload))), [10], payload, [10]]"]
  by (simp add: WriteMsg_def Msg_frame_def WriteString_def WriteByte_def bytes_of_string_Cons)
     (simp add: Itoa_def)

lemma info_writes_chunks:
  "info_writes ls = map Write (concat (map (\<lambda>l. [bytes_of_string l, [10]]) ls))"
  by (induction ls) (simp_all add: WriteString_def WriteByte_def)

lemma info_chunks_bytes:
  "concat (concat (map (\<lambda>l. [bytes_of_string l, [10]]) ls)) =
   bytes_of_string (concat (map (\<lambda>l. l @ [CHR 0x0A]) ls))"
  by (induction ls) (simp_all add: bytes_of_string_Cons)

lemma emits_Info: "emits (WriteInfo ls) (Info_frame ls)"
  using emits_write_seq
    [of "[bytes_of_string ''INFO '', bytes_of_string (Itoa (int (length ls))), [10]] @
       concat (map (\<lambda>l. [bytes_of_string l, [10]]) ls)"]
  by (simp add: WriteInfo_def Info_frame_def info_writes_chunks info_chunks_bytes write_op_defs)

section \<open>Properties\<close>

text \<open>Every response writer sends its whole frame and reports success, or reports an error having sent
  only a proper prefix of the frame; after an error nothing more is ever sent, so a peer never sees a later
  frame glued to a torn one; and on a connection that does not fail the writer succeeds.\<close>
theorem responses_all_or_error:
  "emits (WriteOK i) (OK_frame i) \<and> emits (WriteDup i) (Dup_frame i) \<and>
   emits (WriteErr code reason) (Err_frame code reason) \<and> emits (WriteHelloOK v) (Hello_frame v) \<and>
   emits (WriteMsg topic p i payload) (Msg_frame topic p i payload) \<and> emits (WriteInfo ls) (Info_frame ls)"
  by (simp add: emits_OK emits_Dup emits_Err emits_HelloOK emits_Msg emits_Info)

end
