(* ===== verification/Proto_Parser.thy ===== *)
theory Proto_Parser
  imports Proto_Text
begin

text \<open>
  The request parser (\<^verbatim>\<open>internal/proto/parser.go\<close>, \<^verbatim>\<open>command.go\<close>, \<^verbatim>\<open>errors.go\<close>): one definition
  per verb parser, over the buffered stream of the connection.  The text of an error beyond its
  sentinel is not modelled.
\<close>

section \<open>Commands and errors\<close>

record PubCommand =
  pub_Topic :: string
  pub_DedupeKey :: string
  pub_RoutingKey :: string
  pub_Partition :: int
  pub_PartitionSet :: bool
  pub_Payload :: bytes
  pub_DelayMs :: u64
  pub_WaitReplicas :: int
  pub_WaitTimeoutMs :: u64

record SubCommand =
  sub_Topic :: string
  sub_Partition :: int
  sub_AllPartitions :: bool
  sub_ConsumerID :: string
  sub_Stale :: bool

datatype Command = C_Pub PubCommand | C_Sub SubCommand | C_Ack string int u64 | C_Nack string int u64
  | C_Create string int | C_Pause | C_Resume | C_Traceparent string string | C_Info string

record Hello =
  hello_Version :: int
  hello_Token :: string

datatype proto_err = PE_InvalidCommand | PE_PayloadTooLarge | PE_ShortBody | PE_BadFraming | PE_NotHello
  | PE_EOF | PE_IO string

definition MaxLineLength :: nat where
  "MaxLineLength = 2 ^ 16"

section \<open>Lines and topic tokens\<close>

definition readLine :: "stream \<Rightarrow> (proto_err + string) \<times> stream" where
  "readLine s =
     (case ReadString s of
        (Inl (IO_EOF, part), s1) \<Rightarrow> (Inl (if part = [] then PE_EOF else PE_BadFraming), s1)
      | (Inl (IO_UnexpectedEOF, part), s1) \<Rightarrow> (Inl (PE_IO ''unexpected EOF''), s1)
      | (Inl (IO_Err m, part), s1) \<Rightarrow> (Inl (PE_IO m), s1)
      | (Inr line, s1) \<Rightarrow>
          (if length line > MaxLineLength then (Inl PE_BadFraming, s1) else (Inr (TrimRightNL line), s1)))"

text \<open>The base topic, the partition, whether it was \<^verbatim>\<open>*\<close>, and whether it was a number.\<close>

definition parseTopicPartition :: "string \<Rightarrow> proto_err + (string \<times> int \<times> bool \<times> bool)" where
  "parseTopicPartition token =
     (let (base, suffix, hasHash) = Cut token (CHR ''#'') in
      if \<not> hasHash then (if token = [] then Inl PE_InvalidCommand else Inr (token, 0, False, False))
      else if base = [] then Inl PE_InvalidCommand
      else if CHR ''#'' \<in> set suffix then Inl PE_InvalidCommand
      else if suffix = ''*'' then Inr (base, 0, True, False)
      else case Atoi suffix of
             None \<Rightarrow> Inl PE_InvalidCommand
           | Some n \<Rightarrow> (if n < 0 then Inl PE_InvalidCommand else Inr (base, n, False, True)))"

section \<open>Verbs\<close>

text \<open>The optional tokens after the positional arguments of PUB, in any order; the last one wins.\<close>

fun pub_opts :: "string list \<Rightarrow> u64 \<times> int \<times> u64 \<Rightarrow> (u64 \<times> int \<times> u64) option" where
  "pub_opts [] acc = Some acc"
| "pub_opts (f # fs) (d, n, t) =
     (if f = ''DELAY''
      then (case fs of
              [] \<Rightarrow> None
            | a # r \<Rightarrow> (case ParseUint a of None \<Rightarrow> None | Some d' \<Rightarrow> pub_opts r (d', n, t)))
      else if f = ''WAIT''
      then (case fs of
              a # b # r \<Rightarrow>
                (case Atoi a of
                   None \<Rightarrow> None
                 | Some m \<Rightarrow>
                     if m < 0 then None
                     else (case ParseUint b of None \<Rightarrow> None | Some t' \<Rightarrow> pub_opts r (d, m, t')))
            | _ \<Rightarrow> None)
      else None)"

definition dash_empty :: "string \<Rightarrow> string" where
  "dash_empty k = (if k = ''-'' then [] else k)"

text \<open>The body of a PUB: the payload and its newline.\<close>

definition pub_body :: "nat \<Rightarrow> stream \<Rightarrow> (proto_err + bytes) \<times> stream" where
  "pub_body n s =
     (case ReadFull n s of
        (Inl _, s1) \<Rightarrow> (Inl PE_ShortBody, s1)
      | (Inr payload, s1) \<Rightarrow>
          (case ReadByte s1 of
             (Inl _, s2) \<Rightarrow> (Inl PE_BadFraming, s2)
           | (Inr nl, s2) \<Rightarrow> (if nl \<noteq> 10 then (Inl PE_BadFraming, s2) else (Inr payload, s2))))"

definition parsePub :: "string list \<Rightarrow> nat \<Rightarrow> stream \<Rightarrow> (proto_err + Command) \<times> stream" where
  "parsePub flds maxPayload s =
     (if length flds < 5 then (Inl PE_InvalidCommand, s)
      else case pub_opts (drop 5 flds) (0, 0, 0) of
        None \<Rightarrow> (Inl PE_InvalidCommand, s)
      | Some (delayMs, waitReplicas, waitTimeoutMs) \<Rightarrow>
          (case parseTopicPartition (flds ! 1) of
             Inl e \<Rightarrow> (Inl e, s)
           | Inr (topic, part, star, explicit) \<Rightarrow>
               if star then (Inl PE_InvalidCommand, s)
               else (case ParseUint (flds ! 4) of
                 None \<Rightarrow> (Inl PE_InvalidCommand, s)
               | Some payloadLen \<Rightarrow>
                   if unat payloadLen > maxPayload then (Inl PE_PayloadTooLarge, s)
                   else (case pub_body (unat payloadLen) s of
                     (Inl e, s1) \<Rightarrow> (Inl e, s1)
                   | (Inr payload, s1) \<Rightarrow>
                       (Inr (C_Pub \<lparr>pub_Topic = topic, pub_DedupeKey = dash_empty (flds ! 2),
                             pub_RoutingKey = dash_empty (flds ! 3), pub_Partition = part,
                             pub_PartitionSet = explicit, pub_Payload = payload, pub_DelayMs = delayMs,
                             pub_WaitReplicas = waitReplicas, pub_WaitTimeoutMs = waitTimeoutMs\<rparr>), s1)))))"

definition parseInfo :: "string list \<Rightarrow> proto_err + Command" where
  "parseInfo flds =
     (if length flds > 2 then Inl PE_InvalidCommand
      else let sect = (if length flds = 2 then flds ! 1 else ''replication'')
        in if sect \<noteq> ''replication'' then Inl PE_InvalidCommand else Inr (C_Info sect))"

definition parseSub :: "string list \<Rightarrow> proto_err + Command" where
  "parseSub flds =
     (if length flds = 4 \<and> flds ! 3 \<noteq> ''STALE'' then Inl PE_InvalidCommand
      else if length flds \<noteq> 4 \<and> length flds \<noteq> 3 then Inl PE_InvalidCommand
      else case parseTopicPartition (flds ! 1) of
        Inl e \<Rightarrow> Inl e
      | Inr (topic, part, star, explicit) \<Rightarrow>
          Inr (C_Sub \<lparr>sub_Topic = topic, sub_Partition = part, sub_AllPartitions = (star \<or> \<not> explicit),
                sub_ConsumerID = flds ! 2, sub_Stale = (length flds = 4)\<rparr>))"

definition parse_ack_args :: "string list \<Rightarrow> proto_err + (string \<times> int \<times> u64)" where
  "parse_ack_args flds =
     (if length flds \<noteq> 4 then Inl PE_InvalidCommand
      else case Atoi (flds ! 2) of
        None \<Rightarrow> Inl PE_InvalidCommand
      | Some part \<Rightarrow>
          if part < 0 then Inl PE_InvalidCommand
          else (case ParseUint (flds ! 3) of
                  None \<Rightarrow> Inl PE_InvalidCommand
                | Some i \<Rightarrow> Inr (flds ! 1, part, i)))"

definition parseAck :: "string list \<Rightarrow> proto_err + Command" where
  "parseAck flds =
     (case parse_ack_args flds of Inl e \<Rightarrow> Inl e | Inr (c, p, i) \<Rightarrow> Inr (C_Ack c p i))"

definition parseNack :: "string list \<Rightarrow> proto_err + Command" where
  "parseNack flds =
     (case parse_ack_args flds of Inl e \<Rightarrow> Inl e | Inr (c, p, i) \<Rightarrow> Inr (C_Nack c p i))"

definition parsePause :: "string list \<Rightarrow> proto_err + Command" where
  "parsePause flds = (if length flds \<noteq> 1 then Inl PE_InvalidCommand else Inr C_Pause)"

definition parseResume :: "string list \<Rightarrow> proto_err + Command" where
  "parseResume flds = (if length flds \<noteq> 1 then Inl PE_InvalidCommand else Inr C_Resume)"

definition parseTraceparent :: "string \<Rightarrow> proto_err + Command" where
  "parseTraceparent line =
     (let flds = Fields line in
      if length flds = 2 then Inr (C_Traceparent (flds ! 1) [])
      else if length flds = 4
      then (if flds ! 2 \<noteq> ''TRACESTATE'' then Inl PE_InvalidCommand
            else Inr (C_Traceparent (flds ! 1) (flds ! 3)))
      else Inl PE_InvalidCommand)"

definition parseCreate :: "string list \<Rightarrow> proto_err + Command" where
  "parseCreate flds =
     (if length flds \<noteq> 4 \<or> flds ! 2 \<noteq> ''PARTITIONS'' then Inl PE_InvalidCommand
      else case Atoi (flds ! 3) of
        None \<Rightarrow> Inl PE_InvalidCommand
      | Some n \<Rightarrow> (if n < 1 then Inl PE_InvalidCommand else Inr (C_Create (flds ! 1) n)))"

section \<open>Dispatch\<close>

definition ParseCommandLine :: "string \<Rightarrow> nat \<Rightarrow> stream \<Rightarrow> (proto_err + Command) \<times> stream" where
  "ParseCommandLine line maxPayload s =
     (let flds = Fields line in
      if flds = [] then (Inl PE_InvalidCommand, s)
      else let verb = hd flds in
        if verb = ''PUB'' then parsePub flds maxPayload s
        else if verb = ''SUB'' then (parseSub flds, s)
        else if verb = ''ACK'' then (parseAck flds, s)
        else if verb = ''NACK'' then (parseNack flds, s)
        else if verb = ''CREATE'' then (parseCreate flds, s)
        else if verb = ''PAUSE'' then (parsePause flds, s)
        else if verb = ''RESUME'' then (parseResume flds, s)
        else if verb = ''TRACEPARENT'' then (parseTraceparent line, s)
        else if verb = ''INFO'' then (parseInfo flds, s)
        else (Inl PE_InvalidCommand, s))"

definition ReadCommand :: "nat \<Rightarrow> stream \<Rightarrow> (proto_err + Command) \<times> stream" where
  "ReadCommand maxPayload s =
     (case readLine s of
        (Inl e, s1) \<Rightarrow> (Inl e, s1)
      | (Inr line, s1) \<Rightarrow> ParseCommandLine line maxPayload s1)"

definition ParseHello :: "string \<Rightarrow> proto_err + Hello" where
  "ParseHello line =
     (let flds = Fields line in
      if flds = [] \<or> hd flds \<noteq> ''HELLO'' then Inl PE_NotHello
      else if length flds \<noteq> 2 \<and> length flds \<noteq> 4 then Inl PE_InvalidCommand
      else case Atoi (flds ! 1) of
        None \<Rightarrow> Inl PE_InvalidCommand
      | Some v \<Rightarrow>
          if v < 1 then Inl PE_InvalidCommand
          else if length flds = 4
          then (if flds ! 2 \<noteq> ''AUTH'' then Inl PE_InvalidCommand
                else Inr \<lparr>hello_Version = v, hello_Token = flds ! 3\<rparr>)
          else Inr \<lparr>hello_Version = v, hello_Token = []\<rparr>)"

definition ReadHello :: "stream \<Rightarrow> (proto_err + Hello) \<times> string \<times> stream" where
  "ReadHello s =
     (case readLine s of
        (Inl e, s1) \<Rightarrow> (Inl e, [], s1)
      | (Inr line, s1) \<Rightarrow> (ParseHello line, line, s1))"

section \<open>Progress and well-formedness\<close>

lemma readLine_progress: "readLine s = (Inr line, s') \<Longrightarrow> length (sbuf s') < length (sbuf s)"
  by (auto simp: readLine_def dest: ReadString_shrinks split: prod.splits sum.splits io_err.splits if_splits)

lemma readLine_keeps: "length (sbuf (snd (readLine s))) \<le> length (sbuf s)"
  by (auto simp: readLine_def ReadString_def Let_def split: prod.splits sum.splits io_err.splits)

lemma ReadByte_le: "length (sbuf (snd (ReadByte s))) \<le> length (sbuf s)"
  by (simp add: ReadByte_def split: list.splits)

lemma ReadFull_le: "length (sbuf (snd (ReadFull n s))) \<le> length (sbuf s)"
  by (auto simp: ReadFull_def)

lemma pub_body_le: "length (sbuf (snd (pub_body n s))) \<le> length (sbuf s)"
proof (cases "ReadFull n s")
  case (Pair r s1)
  then show ?thesis
    using ReadFull_le [of n s] ReadByte_le [of s1]
    by (auto simp: pub_body_def split: prod.splits sum.splits)
qed

lemma parsePub_le: "length (sbuf (snd (parsePub flds mp s))) \<le> length (sbuf s)"
  using pub_body_le
  by (auto simp: parsePub_def split: option.splits sum.splits prod.splits) (metis snd_conv)+

lemma ParseCommandLine_le: "length (sbuf (snd (ParseCommandLine line mp s))) \<le> length (sbuf s)"
  by (simp add: ParseCommandLine_def Let_def parsePub_le)

lemma ReadCommand_progress:
  assumes "ReadCommand mp s = (r, s')"
  shows "length (sbuf s') < length (sbuf s) \<or> r \<in> {Inl PE_EOF} \<union> {Inl (PE_IO m) |m. True} \<union> {Inl PE_BadFraming}"
proof (cases "readLine s")
  case (Pair lr s1)
  show ?thesis
  proof (cases lr)
    case (Inl e)
    then show ?thesis
      using assms Pair
      by (auto simp: ReadCommand_def readLine_def split: prod.splits sum.splits io_err.splits if_splits)
  next
    case (Inr line)
    then have "length (sbuf s1) < length (sbuf s)" using readLine_progress Pair by blast
    moreover have "length (sbuf s') \<le> length (sbuf s1)"
      using assms Pair Inr ParseCommandLine_le [of line mp s1] by (simp add: ReadCommand_def)
    ultimately show ?thesis by simp
  qed
qed

text \<open>What the session may rely on for a command the parser returns.\<close>

fun command_ok :: "nat \<Rightarrow> Command \<Rightarrow> bool" where
  "command_ok mp (C_Pub c) \<longleftrightarrow>
     pub_Topic c \<noteq> [] \<and> CHR ''#'' \<notin> set (pub_Topic c) \<and> 0 \<le> pub_Partition c \<and>
     length (pub_Payload c) \<le> mp \<and> 0 \<le> pub_WaitReplicas c \<and> (\<not> pub_PartitionSet c \<longrightarrow> pub_Partition c = 0)"
| "command_ok mp (C_Sub c) \<longleftrightarrow>
     sub_Topic c \<noteq> [] \<and> CHR ''#'' \<notin> set (sub_Topic c) \<and> 0 \<le> sub_Partition c \<and> sub_ConsumerID c \<noteq> [] \<and>
     (sub_AllPartitions c \<longrightarrow> sub_Partition c = 0)"
| "command_ok mp (C_Ack cid p i) \<longleftrightarrow> cid \<noteq> [] \<and> 0 \<le> p"
| "command_ok mp (C_Nack cid p i) \<longleftrightarrow> cid \<noteq> [] \<and> 0 \<le> p"
| "command_ok mp (C_Create t n) \<longleftrightarrow> t \<noteq> [] \<and> 1 \<le> n"
| "command_ok mp (C_Traceparent tp ts) \<longleftrightarrow> tp \<noteq> []"
| "command_ok mp (C_Info sect) \<longleftrightarrow> sect = ''replication''"
| "command_ok mp _ \<longleftrightarrow> True"

lemma parseTopicPartition_ok:
  assumes "parseTopicPartition t = Inr (topic, p, star, explicit)"
  shows "topic \<noteq> [] \<and> CHR ''#'' \<notin> set topic \<and> 0 \<le> p \<and> (\<not> explicit \<longrightarrow> p = 0) \<and> \<not> (star \<and> explicit)"
  using assms
  by (auto simp: parseTopicPartition_def Let_def split: prod.splits if_splits option.splits
      dest!: Cut_True Cut_False)

lemma pub_opts_ok: "pub_opts fs (d, n, t) = Some (d', n', t') \<Longrightarrow> 0 \<le> n \<Longrightarrow> 0 \<le> n'"
  by (induction fs "(d, n, t)" arbitrary: d n t rule: pub_opts.induct)
     (auto split: if_splits list.splits option.splits)

lemma pub_body_payload: "pub_body n s = (Inr payload, s') \<Longrightarrow> length payload = n"
  by (auto simp: pub_body_def ReadFull_def split: prod.splits sum.splits if_splits)

lemma parsePub_cases:
  assumes "parsePub flds mp s = (Inr c, s')"
  obtains d n t topic part explicit pl payload where
    "pub_opts (drop 5 flds) (0, 0, 0) = Some (d, n, t)"
    "parseTopicPartition (flds ! 1) = Inr (topic, part, False, explicit)"
    "\<not> unat (pl :: u64) > mp" "pub_body (unat pl) s = (Inr payload, s')"
    "c = C_Pub \<lparr>pub_Topic = topic, pub_DedupeKey = dash_empty (flds ! 2),
           pub_RoutingKey = dash_empty (flds ! 3), pub_Partition = part, pub_PartitionSet = explicit,
           pub_Payload = payload, pub_DelayMs = d, pub_WaitReplicas = n, pub_WaitTimeoutMs = t\<rparr>"
proof -
  obtain d n t where o: "pub_opts (drop 5 flds) (0, 0, 0) = Some (d, n, t)"
    using assms by (auto simp: parsePub_def split: if_splits option.splits)
  obtain topic part explicit where t: "parseTopicPartition (flds ! 1) = Inr (topic, part, False, explicit)"
    using assms o by (auto simp: parsePub_def split: if_splits sum.splits)
  obtain pl where l: "ParseUint (flds ! 4) = Some pl" "\<not> unat pl > mp"
    using assms o t by (auto simp: parsePub_def split: if_splits option.splits)
  obtain payload where b: "pub_body (unat pl) s = (Inr payload, s')"
    using assms o t l by (auto simp: parsePub_def split: if_splits sum.splits prod.splits)
  have "c = C_Pub \<lparr>pub_Topic = topic, pub_DedupeKey = dash_empty (flds ! 2),
           pub_RoutingKey = dash_empty (flds ! 3), pub_Partition = part, pub_PartitionSet = explicit,
           pub_Payload = payload, pub_DelayMs = d, pub_WaitReplicas = n, pub_WaitTimeoutMs = t\<rparr>"
    using assms o t l b by (simp add: parsePub_def split: if_splits)
  then show thesis by (rule that [OF o t l(2) b])
qed

lemma parsePub_ok:
  assumes "parsePub flds mp s = (Inr c, s')"
  shows "command_ok mp c"
proof -
  obtain d n t topic part explicit pl payload where
    c: "pub_opts (drop 5 flds) (0, 0, 0) = Some (d, n, t)"
      "parseTopicPartition (flds ! 1) = Inr (topic, part, False, explicit)"
      "\<not> unat (pl :: u64) > mp" "pub_body (unat pl) s = (Inr payload, s')"
      "c = C_Pub \<lparr>pub_Topic = topic, pub_DedupeKey = dash_empty (flds ! 2),
           pub_RoutingKey = dash_empty (flds ! 3), pub_Partition = part, pub_PartitionSet = explicit,
           pub_Payload = payload, pub_DelayMs = d, pub_WaitReplicas = n, pub_WaitTimeoutMs = t\<rparr>"
    by (rule parsePub_cases [OF assms])
  then show ?thesis
    using parseTopicPartition_ok [OF c(2)] pub_opts_ok [OF c(1)] pub_body_payload [OF c(4)] by simp
qed

lemma field_nonempty: "flds = Fields line \<Longrightarrow> i < length flds \<Longrightarrow> flds ! i \<noteq> []"
  using Fields_nonempty nth_mem by blast

lemma parse_ack_args_ok:
  assumes "parse_ack_args (Fields line) = Inr (c, p, i)"
  shows "c \<noteq> [] \<and> 0 \<le> p"
  using assms by (auto simp: parse_ack_args_def field_nonempty split: if_splits option.splits)

lemma parseSub_ok:
  assumes "parseSub (Fields line) = Inr c"
  shows "command_ok mp c"
  using assms field_nonempty [of "Fields line" line 2]
  by (auto simp: parseSub_def dest!: parseTopicPartition_ok split: if_splits sum.splits prod.splits)

lemma parse_small_ok:
  shows "parseAck (Fields line) = Inr c \<Longrightarrow> command_ok mp c"
    and "parseNack (Fields line) = Inr c \<Longrightarrow> command_ok mp c"
    and "parseCreate (Fields line) = Inr c \<Longrightarrow> command_ok mp c"
    and "parsePause flds = Inr c \<Longrightarrow> command_ok mp c"
    and "parseResume flds = Inr c \<Longrightarrow> command_ok mp c"
    and "parseTraceparent line = Inr c \<Longrightarrow> command_ok mp c"
    and "parseInfo flds = Inr c \<Longrightarrow> command_ok mp c"
  by (auto simp: parseAck_def parseNack_def parseCreate_def parsePause_def parseResume_def parseTraceparent_def
      parseInfo_def Let_def field_nonempty
      dest: parse_ack_args_ok split: if_splits sum.splits option.splits)

lemma ParseCommandLine_ok:
  assumes "ParseCommandLine line mp s = (Inr c, s')"
  shows "command_ok mp c"
  using assms
  by (auto simp: ParseCommandLine_def Let_def parse_small_ok parseSub_ok parsePub_ok simp del: command_ok.simps
      split: if_splits)

text \<open>The errors after which the parser stands right behind the header line.\<close>

lemma pub_body_err: "pub_body n s = (Inl e, s') \<Longrightarrow> e = PE_ShortBody \<or> e = PE_BadFraming"
  by (auto simp: pub_body_def split: prod.splits sum.splits if_splits)

lemma parseTopicPartition_err: "parseTopicPartition t = Inl e \<Longrightarrow> e = PE_InvalidCommand"
  by (auto simp: parseTopicPartition_def Let_def split: prod.splits if_splits option.splits)

lemma parsePub_header_err:
  assumes "parsePub flds mp s = (Inl e, s')" "e \<in> {PE_InvalidCommand, PE_PayloadTooLarge}"
  shows "s' = s"
  using assms
  by (auto simp: parsePub_def dest: pub_body_err
      split: if_splits option.splits sum.splits prod.splits)

lemma ReadCommand_line:
  "readLine s = (Inr line, s1) \<Longrightarrow> ReadCommand mp s = ParseCommandLine line mp s1"
  by (simp add: ReadCommand_def)

section \<open>Request lines\<close>

text \<open>A request line as a client writes it: fields separated by single blanks, ended by a newline.\<close>

definition wire_line :: "string list \<Rightarrow> bytes" where
  "wire_line ts = bytes_of_string (unwords ts @ [CHR 0x0A])"

definition line_ok :: "string list \<Rightarrow> bool" where
  "line_ok ts \<longleftrightarrow> ts \<noteq> [] \<and> list_all tok ts \<and> length (unwords ts) < MaxLineLength"

lemma tok_dec [simp]: "tok (dec n)"
  using dec_digits [of _ n] by (fastforce simp: tok_def is_digit_def)

lemma tok_nl_free: "tok t \<Longrightarrow> nl_free t"
  by (auto simp: tok_def nl_free_def)

lemma unwords_nl_free: "list_all tok ts \<Longrightarrow> nl_free (unwords ts)"
  by (induction ts rule: unwords.induct) (auto simp: tok_nl_free, auto simp: nl_free_def dest!: tok_nl_free)

lemma readLine_wire:
  assumes "line_ok ts"
  shows "readLine \<lparr>sbuf = wire_line ts @ rest, send = e\<rparr> = (Inr (unwords ts), \<lparr>sbuf = rest, send = e\<rparr>)"
proof -
  have n: "nl_free (unwords ts)" using assms by (simp add: line_ok_def unwords_nl_free)
  then have "unwords ts = [] \<or> last (unwords ts) \<noteq> CHR 0x0D \<and> last (unwords ts) \<noteq> CHR 0x0A"
    by (metis last_in_set nl_free_def)
  with n show ?thesis
    using assms ReadString_line [OF n, of rest e]
    by (simp add: readLine_def wire_line_def line_ok_def TrimRightNL_line)
qed

lemma ReadCommand_wire:
  "line_ok ts \<Longrightarrow>
   ReadCommand mp \<lparr>sbuf = wire_line ts @ rest, send = e\<rparr> =
   ParseCommandLine (unwords ts) mp \<lparr>sbuf = rest, send = e\<rparr>"
  by (simp add: ReadCommand_line readLine_wire)

lemma Fields_wire: "line_ok ts \<Longrightarrow> Fields (unwords ts) = ts"
  by (simp add: line_ok_def Fields_unwords)

section \<open>Properties\<close>


text \<open>C37: A request that is rejected as invalid or as too large consumes its header line and nothing more.
  So the announced payload of an over-long PUB stays in the stream: whatever follows the header is read as
  the next command line, although the session goes on after the error.\<close>
theorem rejected_request_keeps_body:
  assumes "line_ok ts"
    and "ReadCommand mp \<lparr>sbuf = wire_line ts @ body, send = e\<rparr> = (Inl err, s')"
    and "err \<in> {PE_InvalidCommand, PE_PayloadTooLarge}"
  shows "s' = \<lparr>sbuf = body, send = e\<rparr>"
  using assms parsePub_header_err
  by (auto simp: ReadCommand_wire ParseCommandLine_def Let_def split: if_splits)

definition sample_oversize :: "string list" where
  "sample_oversize = [''PUB'', ''t'', ''-'', ''-'', dec 14]"

definition sample_payload :: bytes where
  "sample_payload = wire_line [''ACK'', ''c'', ''0'', ''1'']"

lemma dec_14: "dec 14 = ''14''"
  by code_simp

lemma line_ok_samples:
  "line_ok sample_oversize" "line_ok [''ACK'', ''c'', ''0'', ''1'']"
  by (simp_all add: sample_oversize_def dec_14 line_ok_def tok_def MaxLineLength_def)

lemma sample_payload_read:
  "ReadCommand 4 \<lparr>sbuf = sample_payload, send = At_EOF\<rparr> =
     (Inr (C_Ack ''c'' 0 1), \<lparr>sbuf = [], send = At_EOF\<rparr>)"
proof -
  have "Fields ''ACK c 0 1'' = [''ACK'', ''c'', ''0'', ''1'']"
    using Fields_wire [OF line_ok_samples(2)] by simp
  then show ?thesis
    using ReadCommand_wire [OF line_ok_samples(2), of 4 "[]" At_EOF]
    by (simp add: sample_payload_def ParseCommandLine_def parseAck_def parse_ack_args_def Atoi_def
        ParseUint_def is_digit_def)
qed

text \<open>An ACK smuggled as the payload of a PUB over a limit of 4 bytes.\<close>
theorem rejected_request_keeps_body_witness:
  "\<exists>s'. ReadCommand 4 \<lparr>sbuf = wire_line sample_oversize @ sample_payload, send = At_EOF\<rparr> =
          (Inl PE_PayloadTooLarge, s') \<and>
     s' = \<lparr>sbuf = sample_payload, send = At_EOF\<rparr> \<and>
     fst (ReadCommand 4 s') = Inr (C_Ack ''c'' 0 1)"
proof -
  have r: "ReadCommand 4 \<lparr>sbuf = wire_line sample_oversize @ sample_payload, send = At_EOF\<rparr> =
      (Inl PE_PayloadTooLarge, snd (ReadCommand 4 \<lparr>sbuf = wire_line sample_oversize @ sample_payload, send = At_EOF\<rparr>))"
    using ParseUint_dec [of 14]
    by (simp add: ReadCommand_wire line_ok_samples ParseCommandLine_def Fields_wire)
       (simp add: sample_oversize_def parsePub_def parseTopicPartition_def Cut_none)
  show ?thesis
    using sample_payload_read rejected_request_keeps_body [OF line_ok_samples(1) r] r by simp
qed


end
