(* ===== verification/Client_Frame.thy ===== *)
theory Client_Frame
  imports Proto_Response Proto_Parser
begin

text \<open>
  The client's frame reader (\<^verbatim>\<open>pkg/client/frame.go\<close>) and that it reads back every response the server
  writes.  A frame is the source's struct with the fields of its kind; error texts are not modelled.
\<close>

datatype frame = F_OK (okID: u64) | F_Dup (dupID: u64) | F_Err (errCode: string) (errMsg: string)
  | F_Msg (msgTopic: string) (msgPartition: int) (msgID: u64) (payload: bytes)
  | F_Info (infoLines: "string list")

datatype frame_err = FE_Read io_err | FE_Malformed

text \<open>The lines of an INFO block.\<close>

fun read_info_lines :: "nat \<Rightarrow> stream \<Rightarrow> (io_err + string list) \<times> stream" where
  "read_info_lines 0 s = (Inr [], s)"
| "read_info_lines (Suc n) s =
     (case ReadString s of
        (Inl (e, _), s1) \<Rightarrow> (Inl e, s1)
      | (Inr l, s1) \<Rightarrow>
          (case read_info_lines n s1 of
             (Inl e, s2) \<Rightarrow> (Inl e, s2)
           | (Inr ls, s2) \<Rightarrow> (Inr (TrimRightNL l # ls), s2)))"

definition read_msg :: "string \<Rightarrow> stream \<Rightarrow> (frame_err + frame) \<times> stream" where
  "read_msg line s =
     (let flds = Fields line in
      if length flds \<noteq> 5 then (Inl FE_Malformed, s)
      else case Atoi (flds ! 2) of
        None \<Rightarrow> (Inl FE_Malformed, s)
      | Some part \<Rightarrow>
          if part < 0 then (Inl FE_Malformed, s)
          else (case ParseUint (flds ! 3) of
            None \<Rightarrow> (Inl FE_Malformed, s)
          | Some i \<Rightarrow>
              (case Atoi (flds ! 4) of
                 None \<Rightarrow> (Inl FE_Malformed, s)
               | Some plen \<Rightarrow>
                   if plen < 0 then (Inl FE_Malformed, s)
                   else (case ReadFull (nat plen) s of
                     (Inl e, s1) \<Rightarrow> (Inl (FE_Read e), s1)
                   | (Inr pl, s1) \<Rightarrow>
                       (case ReadByte s1 of
                          (Inl e, s2) \<Rightarrow> (Inl (FE_Read e), s2)
                        | (Inr nl, s2) \<Rightarrow>
                            (if nl \<noteq> 10 then (Inl FE_Malformed, s2)
                             else (Inr (F_Msg (flds ! 1) part i pl), s2)))))))"

definition readFrame :: "stream \<Rightarrow> (frame_err + frame) \<times> stream" where
  "readFrame s =
     (case ReadString s of
        (Inl (e, _), s1) \<Rightarrow> (Inl (FE_Read e), s1)
      | (Inr l, s1) \<Rightarrow>
          (let line = TrimRightNL l in
           if HasPrefix line ''OK ''
           then (case ParseUint (TrimPrefix line ''OK '') of
                   None \<Rightarrow> (Inl FE_Malformed, s1) | Some i \<Rightarrow> (Inr (F_OK i), s1))
           else if HasPrefix line ''DUP ''
           then (case ParseUint (TrimPrefix line ''DUP '') of
                   None \<Rightarrow> (Inl FE_Malformed, s1) | Some i \<Rightarrow> (Inr (F_Dup i), s1))
           else if HasPrefix line ''ERR ''
           then (case Cut (TrimPrefix line ''ERR '') (CHR '' '') of
                   (code, msg, two) \<Rightarrow>
                     (if \<not> two then (Inl FE_Malformed, s1) else (Inr (F_Err code msg), s1)))
           else if HasPrefix line ''MSG '' then read_msg line s1
           else if HasPrefix line ''INFO ''
           then (case Atoi (TrimPrefix line ''INFO '') of
                   None \<Rightarrow> (Inl FE_Malformed, s1)
                 | Some n \<Rightarrow>
                     if n < 0 then (Inl FE_Malformed, s1)
                     else (case read_info_lines (nat n) s1 of
                             (Inl e, s2) \<Rightarrow> (Inl (FE_Read e), s2)
                           | (Inr ls, s2) \<Rightarrow> (Inr (F_Info ls), s2)))
           else (Inl FE_Malformed, s1)))"

section \<open>The frames a server sends\<close>

fun frame_bytes :: "frame \<Rightarrow> bytes" where
  "frame_bytes (F_OK i) = OK_frame i"
| "frame_bytes (F_Dup i) = Dup_frame i"
| "frame_bytes (F_Err c m) = Err_frame c m"
| "frame_bytes (F_Msg t p i pl) = Msg_frame t p i pl"
| "frame_bytes (F_Info ls) = Info_frame ls"

text \<open>What a frame needs to survive the wire.\<close>

fun frame_ok :: "frame \<Rightarrow> bool" where
  "frame_ok (F_Err c m) \<longleftrightarrow> nl_free c \<and> CHR '' '' \<notin> set c \<and> nl_free m"
| "frame_ok (F_Msg t p i pl) \<longleftrightarrow> tok t \<and> 0 \<le> p \<and> p < 2 ^ 63 \<and> length pl < 2 ^ 63"
| "frame_ok (F_Info ls) \<longleftrightarrow> list_all nl_free ls \<and> length ls < 2 ^ 63"
| "frame_ok _ \<longleftrightarrow> True"

lemma nl_free_append [simp]: "nl_free (a @ b) \<longleftrightarrow> nl_free a \<and> nl_free b"
  by (auto simp: nl_free_def)

lemma nl_free_Cons [simp]: "nl_free (c # b) \<longleftrightarrow> c \<noteq> CHR 0x0A \<and> c \<noteq> CHR 0x0D \<and> nl_free b"
  by (auto simp: nl_free_def)

lemma nl_free_Nil [simp]: "nl_free []"
  by (simp add: nl_free_def)

lemma nl_free_dec [simp]: "nl_free (dec n)"
  by (simp add: tok_nl_free)

lemma TrimRightNL_free: "nl_free s \<Longrightarrow> TrimRightNL (s @ [CHR 0x0A]) = s"
  by (rule TrimRightNL_line) (metis last_in_set nl_free_def)

lemma readFrame_line:
  assumes "nl_free line"
  shows "ReadString \<lparr>sbuf = bytes_of_string line @ 10 # rest, send = e\<rparr> =
     (Inr (line @ [CHR 0x0A]), \<lparr>sbuf = rest, send = e\<rparr>)"
  using ReadString_line [OF assms, of rest e] by (simp add: bytes_of_string_Cons)

lemma HasPrefix_Cons [simp]:
  "HasPrefix (c # s) (d # p) \<longleftrightarrow> c = d \<and> HasPrefix s p" "HasPrefix s []"
  by (auto simp: HasPrefix_def)

lemma TrimPrefix_Cons [simp]: "TrimPrefix (c # s) (c # p) = (if HasPrefix s p then TrimPrefix s p else c # s)"
  "TrimPrefix s [] = s"
  by (auto simp: TrimPrefix_def)

lemma read_OK: "readFrame \<lparr>sbuf = OK_frame i @ rest, send = e\<rparr> = (Inr (F_OK i), \<lparr>sbuf = rest, send = e\<rparr>)"
  using readFrame_line [of "''OK '' @ dec (unat i)" rest e]
    TrimRightNL_free [of "''OK '' @ dec (unat i)"]
  by (simp add: readFrame_def OK_frame_def bytes_of_string_Cons)

lemma read_Dup:
  "readFrame \<lparr>sbuf = Dup_frame i @ rest, send = e\<rparr> = (Inr (F_Dup i), \<lparr>sbuf = rest, send = e\<rparr>)"
  using readFrame_line [of "''DUP '' @ dec (unat i)" rest e]
    TrimRightNL_free [of "''DUP '' @ dec (unat i)"]
  by (simp add: readFrame_def Dup_frame_def bytes_of_string_Cons)

lemma read_Err:
  assumes "frame_ok (F_Err c m)"
  shows "readFrame \<lparr>sbuf = Err_frame c m @ rest, send = e\<rparr> = (Inr (F_Err c m), \<lparr>sbuf = rest, send = e\<rparr>)"
  using assms readFrame_line [of "''ERR '' @ c @ '' '' @ m" rest e]
    TrimRightNL_free [of "''ERR '' @ c @ '' '' @ m"]
  by (simp add: readFrame_def Err_frame_def bytes_of_string_Cons Cut_found)

lemma read_Msg:
  assumes "frame_ok (F_Msg t p i pl)"
  shows "readFrame \<lparr>sbuf = Msg_frame t p i pl @ rest, send = e\<rparr> = (Inr (F_Msg t p i pl), \<lparr>sbuf = rest, send = e\<rparr>)"
proof -
  let ?ts = "[''MSG'', t, Itoa p, dec (unat i), dec (length pl)]"
  have t: "list_all tok ?ts" using assms by (simp add: Itoa_def) (simp add: tok_def)
  then have nl: "nl_free (unwords ?ts)" and f: "Fields (unwords ?ts) = ?ts"
    by (simp_all only: unwords_nl_free Fields_unwords)
  have p: "Atoi (Itoa p) = Some p" using assms Atoi_dec [of "nat p"] by (simp add: Itoa_def nat_less_iff)
  show ?thesis
    using assms readFrame_line [OF nl, of "pl @ 10 # rest" e] TrimRightNL_free [OF nl] f p
      ReadFull_append [of "length pl" pl "10 # rest" e]
    by (simp add: readFrame_def Msg_frame_def bytes_of_string_Cons read_msg_def Atoi_dec ReadByte_def)
qed

lemma read_info_lines_frame:
  assumes "list_all nl_free ls"
  shows "read_info_lines (length ls)
       \<lparr>sbuf = bytes_of_string (concat (map (\<lambda>l. l @ [CHR 0x0A]) ls)) @ rest, send = e\<rparr> =
     (Inr ls, \<lparr>sbuf = rest, send = e\<rparr>)"
  using assms
  by (induction ls) (simp_all add: bytes_of_string_Cons readFrame_line TrimRightNL_free)

lemma read_Info:
  assumes "frame_ok (F_Info ls)"
  shows "readFrame \<lparr>sbuf = Info_frame ls @ rest, send = e\<rparr> = (Inr (F_Info ls), \<lparr>sbuf = rest, send = e\<rparr>)"
  using assms readFrame_line [of "''INFO '' @ dec (length ls)"]
    TrimRightNL_free [of "''INFO '' @ dec (length ls)"]
  by (simp add: readFrame_def Info_frame_def bytes_of_string_Cons read_info_lines_frame Atoi_dec)

lemma readFrame_frame:
  "frame_ok f \<Longrightarrow>
   readFrame \<lparr>sbuf = frame_bytes f @ rest, send = e\<rparr> = (Inr f, \<lparr>sbuf = rest, send = e\<rparr>)"
  by (cases f) (simp_all only: frame_bytes.simps read_OK read_Dup read_Err read_Msg read_Info)

section \<open>Progress of the reader\<close>

lemma ReadString_le: "length (sbuf (snd (ReadString s))) \<le> length (sbuf s)"
  by (simp add: ReadString_def Let_def)

lemma read_info_lines_le: "length (sbuf (snd (read_info_lines n s))) \<le> length (sbuf s)"
proof (induction n arbitrary: s)
  case (Suc n)
  obtain r s1 where r: "ReadString s = (r, s1)" by force
  then show ?case
    using ReadString_le [of s] Suc.IH [of s1] by (auto split: sum.splits prod.splits)
qed simp

lemma read_msg_le: "length (sbuf (snd (read_msg line s))) \<le> length (sbuf s)"
proof (cases "Atoi (Fields line ! 4)")
  case None
  then show ?thesis by (auto simp: read_msg_def Let_def split: option.splits)
next
  case (Some plen)
  obtain r s1 where r: "ReadFull (nat plen) s = (r, s1)" by force
  then show ?thesis
    using Some ReadFull_le [of "nat plen" s] ReadByte_le [of s1]
    by (auto simp: read_msg_def Let_def split: option.splits sum.splits prod.splits)
qed

lemma readFrame_progress:
  assumes "readFrame s = (Inr f, s')"
  shows "length (sbuf s') < length (sbuf s)"
proof -
  obtain l s1 where l: "ReadString s = (Inr l, s1)"
    using assms by (auto simp: readFrame_def split: prod.splits sum.splits)
  then have "length (sbuf s1) < length (sbuf s)" by (rule ReadString_shrinks)
  moreover have "length (sbuf s') \<le> length (sbuf s1)"
    using assms l read_msg_le [of "TrimRightNL l" s1]
      read_info_lines_le [of "nat (the (Atoi (TrimPrefix (TrimRightNL l) ''INFO '')))" s1]
    by (auto simp: readFrame_def Let_def split: if_splits option.splits prod.splits sum.splits)
  ultimately show ?thesis by simp
qed

text \<open>The frames the read loop dispatches before the read error that ends it.\<close>

function read_frames :: "stream \<Rightarrow> frame list \<times> frame_err \<times> stream" where
  "read_frames s =
     (case readFrame s of
        (Inl e, s1) \<Rightarrow> ([], e, s1)
      | (Inr f, s1) \<Rightarrow> (case read_frames s1 of (fs, e, s2) \<Rightarrow> (f # fs, e, s2)))"
  by pat_completeness auto
termination
  by (relation "measure (\<lambda>s. length (sbuf s))") (auto dest: readFrame_progress [OF sym])

declare read_frames.simps [simp del]

section \<open>Properties\<close>

text \<open>C28: The client reads back exactly what the server wrote: any sequence of well-formed responses and
  deliveries, written one after the other, is read as that sequence, whatever bytes the payloads contain,
  and the loop then ends with the state of the connection.\<close>
theorem frames_roundtrip:
  assumes "list_all frame_ok fs"
  shows "read_frames \<lparr>sbuf = concat (map frame_bytes fs), send = e\<rparr> =
     (fs, FE_Read (end_err e), \<lparr>sbuf = [], send = e\<rparr>)"
  using assms
proof (induction fs)
  case Nil
  then show ?case by (simp add: read_frames.simps [of "\<lparr>sbuf = [], send = e\<rparr>"] readFrame_def ReadString_def)
next
  case (Cons f fs)
  then show ?case
    by (subst read_frames.simps) (simp add: readFrame_frame)
qed

theorem frames_roundtrip_witness:
  "read_frames \<lparr>sbuf = concat (map frame_bytes [F_Msg ''t'' 0 1 (bytes_of_string (''OK 7'' @ [CHR 0x0A])),
       F_Err ''INVALID'' ''bad command'', F_OK 7]), send = At_EOF\<rparr> =
     ([F_Msg ''t'' 0 1 (bytes_of_string (''OK 7'' @ [CHR 0x0A])), F_Err ''INVALID'' ''bad command'', F_OK 7],
      FE_Read IO_EOF, \<lparr>sbuf = [], send = At_EOF\<rparr>)"
  using frames_roundtrip [of "[F_Msg ''t'' 0 1 (bytes_of_string (''OK 7'' @ [CHR 0x0A])),
       F_Err ''INVALID'' ''bad command'', F_OK 7]" At_EOF]
  by (simp add: tok_def end_err_def)

end
