(* ===== verification/Client_Conn.thy ===== *)
theory Client_Conn
  imports Client_Frame
begin

text \<open>
  One client connection (\<^verbatim>\<open>pkg/client\<close>: \<^verbatim>\<open>pending.go\<close>, \<^verbatim>\<open>client.go\<close>, \<^verbatim>\<open>pub.go\<close>, \<^verbatim>\<open>sub.go\<close>,
  \<^verbatim>\<open>create.go\<close>, \<^verbatim>\<open>flow.go\<close>, \<^verbatim>\<open>info.go\<close>, \<^verbatim>\<open>errors.go\<close>).  A request has three parts that interleave with
  those of other callers and with the reader: it joins the pending queue, it writes its bytes under the
  write lock, and it waits for its response, for its context or for the close of the connection.
\<close>

section \<open>Errors\<close>

datatype client_err = ErrClosed | ErrTransport | ErrServer string string | ErrNotLeader string
  | ErrWaitTimeout u64 | ErrSubInUse | ErrCtx | ErrUnexpected | ErrHandshake string string | ErrAuth string
  | ErrIdMismatch u64 u64 | ErrPartitions

definition serverErr :: "string \<Rightarrow> string \<Rightarrow> client_err" where
  "serverErr code msg =
     (if code = ''TRANSPORT'' then ErrTransport
      else if code = ''NOTLEADER'' then ErrNotLeader msg
      else ErrServer code msg)"

section \<open>Pending requests\<close>

text \<open>
  A request is its position in the list of all requests; its channel holds at most one frame.
  A send on a full channel blocks with the queue locked, which is \<open>None\<close>.
\<close>

record pendingReq =
  resp :: "frame option"
  cancelled :: bool

record pendingQueue =
  reqs :: "pendingReq list"
  queue :: "nat list"

definition newPendingQueue :: pendingQueue where
  "newPendingQueue = \<lparr>reqs = [], queue = []\<rparr>"

definition push :: "pendingQueue \<Rightarrow> nat \<times> pendingQueue" where
  "push q =
     (length (reqs q), q\<lparr>reqs := reqs q @ [\<lparr>resp = None, cancelled = False\<rparr>], queue := queue q @ [length (reqs q)]\<rparr>)"

definition send_resp :: "frame \<Rightarrow> nat \<Rightarrow> pendingReq list \<Rightarrow> pendingReq list option" where
  "send_resp f p rs = (if resp (rs ! p) = None then Some (rs[p := (rs ! p)\<lparr>resp := Some f\<rparr>]) else None)"

fun deliver_loop :: "frame \<Rightarrow> nat list \<Rightarrow> pendingReq list \<Rightarrow> (bool \<times> nat list \<times> pendingReq list) option" where
  "deliver_loop f [] rs = Some (False, [], rs)"
| "deliver_loop f (p # ps) rs =
     (if \<not> cancelled (rs ! p) then (case send_resp f p rs of None \<Rightarrow> None | Some rs' \<Rightarrow> Some (True, ps, rs'))
      else deliver_loop f ps rs)"

definition deliver :: "frame \<Rightarrow> pendingQueue \<Rightarrow> (bool \<times> pendingQueue) option" where
  "deliver f q =
     (case deliver_loop f (queue q) (reqs q) of
        None \<Rightarrow> None | Some (ok, ps, rs) \<Rightarrow> Some (ok, q\<lparr>reqs := rs, queue := ps\<rparr>))"

definition cancel :: "nat \<Rightarrow> pendingQueue \<Rightarrow> pendingQueue" where
  "cancel p q = q\<lparr>reqs := (reqs q)[p := (reqs q ! p)\<lparr>cancelled := True\<rparr>]\<rparr>"

fun drain_loop :: "frame \<Rightarrow> nat list \<Rightarrow> pendingReq list \<Rightarrow> pendingReq list option" where
  "drain_loop f [] rs = Some rs"
| "drain_loop f (p # ps) rs =
     (if \<not> cancelled (rs ! p) then (case send_resp f p rs of None \<Rightarrow> None | Some rs' \<Rightarrow> drain_loop f ps rs')
      else drain_loop f ps rs)"

definition drainErr :: "frame \<Rightarrow> pendingQueue \<Rightarrow> pendingQueue option" where
  "drainErr f q = (case drain_loop f (queue q) (reqs q) of None \<Rightarrow> None | Some rs \<Rightarrow> Some (q\<lparr>reqs := rs, queue := []\<rparr>))"

section \<open>The connection\<close>

record Delivery =
  d_Topic :: string
  d_Partition :: int
  d_MsgID :: u64
  d_Payload :: bytes
  d_consumer :: string

record client =
  cl_w :: writer
  cl_done :: bool
  cl_readErr :: "frame_err option"
  cl_loopDone :: bool
  cl_pending :: pendingQueue
  cl_subActive :: bool
  cl_consumerID :: string
  cl_deliveryCh :: "Delivery list option"

definition cl_Close :: "client \<Rightarrow> client" where
  "cl_Close c = c\<lparr>cl_done := True\<rparr>"

text \<open>\<open>fn\<close> is what the configured propagation function yields, \<open>None\<close> when there is none.\<close>

definition traceparentLine :: "(string \<times> string) option \<Rightarrow> string" where
  "traceparentLine fn =
     (case fn of
        None \<Rightarrow> []
      | Some (tp, ts) \<Rightarrow>
          if tp = [] then []
          else if ts = [] then ''TRACEPARENT '' @ tp @ [CHR 0x0A]
          else ''TRACEPARENT '' @ tp @ '' TRACESTATE '' @ ts @ [CHR 0x0A])"

subsection \<open>The parts of a request\<close>

definition begin_req :: "client \<Rightarrow> client_err + (nat \<times> client)" where
  "begin_req c =
     (if cl_done c then Inl ErrClosed
      else case push (cl_pending c) of (p, q) \<Rightarrow> Inr (p, c\<lparr>cl_pending := q\<rparr>))"

definition cancel_req :: "nat \<Rightarrow> client \<Rightarrow> client" where
  "cancel_req p c = c\<lparr>cl_pending := cancel p (cl_pending c)\<rparr>"

text \<open>Under the write lock: the closed check again, then the writes; \<open>None\<close> is success.\<close>

definition write_req :: "write_op list \<Rightarrow> nat \<Rightarrow> client \<Rightarrow> client_err option \<times> client" where
  "write_req ops p c =
     (if cl_done c then (Some ErrClosed, cancel_req p c)
      else case write_seq ops (cl_w c) of
        (ok, w) \<Rightarrow> if ok then (None, c\<lparr>cl_w := w\<rparr>) else (Some ErrTransport, cancel_req p (c\<lparr>cl_w := w\<rparr>)))"

text \<open>The arm of the final \<^verbatim>\<open>select\<close> that a waiting request takes.\<close>

datatype wait_arm = Ctx_Done | Conn_Done | Response

definition arm_ready :: "wait_arm \<Rightarrow> bool \<Rightarrow> nat \<Rightarrow> client \<Rightarrow> bool" where
  "arm_ready a ctx p c =
     (case a of
        Ctx_Done \<Rightarrow> ctx | Conn_Done \<Rightarrow> cl_done c | Response \<Rightarrow> resp (reqs (cl_pending c) ! p) \<noteq> None)"

definition await_req :: "wait_arm \<Rightarrow> nat \<Rightarrow> client \<Rightarrow> (client_err + frame) \<times> client" where
  "await_req a p c =
     (case a of
        Ctx_Done \<Rightarrow> (Inl ErrCtx, cancel_req p c)
      | Conn_Done \<Rightarrow> (Inl ErrClosed, c)
      | Response \<Rightarrow>
          (case resp (reqs (cl_pending c) ! p) of
             None \<Rightarrow> (Inl ErrUnexpected, c)
           | Some f \<Rightarrow>
               (Inr f, c\<lparr>cl_pending := (cl_pending c)\<lparr>reqs := (reqs (cl_pending c))[p := (reqs (cl_pending c) ! p)\<lparr>resp := None\<rparr>]\<rparr>\<rparr>)))"

subsection \<open>What each request writes\<close>

definition trace_writes :: "(string \<times> string) option \<Rightarrow> write_op list" where
  "trace_writes fn = (if traceparentLine fn = [] then [] else [WriteString (traceparentLine fn)])"

definition key_dash :: "string \<Rightarrow> string" where
  "key_dash k = (if k = [] then ''-'' else k)"

definition pub_header :: "string \<Rightarrow> string \<Rightarrow> string \<Rightarrow> nat \<Rightarrow> u64 \<Rightarrow> int \<Rightarrow> u64 \<Rightarrow> string" where
  "pub_header topic dedupeKey routingKey len delayMs waitReplicas waitTimeoutMs =
     ''PUB '' @ topic @ '' '' @ key_dash dedupeKey @ '' '' @ key_dash routingKey @ '' '' @ dec len @
     (if delayMs > 0 then '' DELAY '' @ dec (unat delayMs) else []) @
     (if waitReplicas > 0 then '' WAIT '' @ Itoa waitReplicas @ '' '' @ dec (unat waitTimeoutMs) else []) @
     [CHR 0x0A]"

definition pub_writes ::
  "(string \<times> string) option \<Rightarrow> string \<Rightarrow> string \<Rightarrow> string \<Rightarrow> bytes \<Rightarrow> u64 \<Rightarrow> int \<Rightarrow> u64 \<Rightarrow> write_op list" where
  "pub_writes fn topic dedupeKey routingKey body delayMs waitReplicas waitTimeoutMs =
     trace_writes fn @
     [WriteString (pub_header topic dedupeKey routingKey (length body) delayMs waitReplicas waitTimeoutMs),
      Write body, WriteByte 10, Flush]"

definition sub_writes :: "(string \<times> string) option \<Rightarrow> string \<Rightarrow> string \<Rightarrow> bool \<Rightarrow> write_op list" where
  "sub_writes fn topic cid stale =
     trace_writes fn @
     [WriteString (''SUB '' @ topic @ '' '' @ cid @ (if stale then '' STALE'' else []) @ [CHR 0x0A]), Flush]"

definition ack_writes :: "string \<Rightarrow> string \<Rightarrow> int \<Rightarrow> u64 \<Rightarrow> write_op list" where
  "ack_writes verb cid part i =
     [WriteString (verb @ '' '' @ cid @ '' '' @ Itoa part @ '' '' @ dec (unat i) @ [CHR 0x0A]), Flush]"

definition create_writes :: "string \<Rightarrow> int \<Rightarrow> write_op list" where
  "create_writes topic n = [WriteString (''CREATE '' @ topic @ '' PARTITIONS '' @ Itoa n @ [CHR 0x0A]), Flush]"

definition control_writes :: "string \<Rightarrow> write_op list" where
  "control_writes verb = [WriteString (verb @ [CHR 0x0A]), Flush]"

definition info_req_writes :: "write_op list" where
  "info_req_writes = [WriteString (''INFO replication'' @ [CHR 0x0A]), Flush]"

definition hello_writes :: "string \<Rightarrow> write_op list" where
  "hello_writes token =
     [WriteString (if token \<noteq> [] then ''HELLO 1 AUTH '' @ token @ [CHR 0x0A] else ''HELLO 1'' @ [CHR 0x0A]), Flush]"

subsection \<open>How each request reads its response\<close>

function trim_left :: "string \<Rightarrow> string" where
  "trim_left s = (if space_len s = 0 then s else trim_left (drop (space_len s) s))"
  by pat_completeness auto
termination
  by (relation "measure length") (auto simp: space_len_def code_at_def Let_def split: if_splits)

function trim_right :: "string \<Rightarrow> string" where
  "trim_right s =
     (let n = length s in
      if 1 \<le> n \<and> space_len (drop (n - 1) s) = 1 then trim_right (take (n - 1) s)
      else if 2 \<le> n \<and> space_len (drop (n - 2) s) = 2 then trim_right (take (n - 2) s)
      else if 3 \<le> n \<and> space_len (drop (n - 3) s) = 3 then trim_right (take (n - 3) s)
      else s)"
  by pat_completeness auto
termination
  by (relation "measure length") auto

declare trim_left.simps [simp del] trim_right.simps [simp del]

definition TrimSpace :: "string \<Rightarrow> string" where
  "TrimSpace s = trim_right (trim_left s)"

text \<open>The id, whether it is a duplicate's, and the error.\<close>

definition resolvePubResp :: "frame \<Rightarrow> u64 \<times> bool \<times> client_err option" where
  "resolvePubResp f =
     (case f of
        F_OK i \<Rightarrow> (i, False, None)
      | F_Dup i \<Rightarrow> (i, True, None)
      | F_Err code msg \<Rightarrow>
          (if code = ''WAIT_TIMEOUT''
           then (case ParseUint (TrimSpace msg) of
                   None \<Rightarrow> (0, False, Some ErrUnexpected)
                 | Some i \<Rightarrow> (i, False, Some (ErrWaitTimeout i)))
           else (0, False, Some (serverErr code msg)))
      | _ \<Rightarrow> (0, False, Some ErrUnexpected))"

definition resolve_sub :: "frame \<Rightarrow> client_err option" where
  "resolve_sub f =
     (case f of F_OK i \<Rightarrow> None | F_Err code msg \<Rightarrow> Some (serverErr code msg) | _ \<Rightarrow> Some ErrUnexpected)"

definition resolve_ack :: "u64 \<Rightarrow> frame \<Rightarrow> client_err option" where
  "resolve_ack i f =
     (case f of
        F_OK j \<Rightarrow> (if j \<noteq> i then Some (ErrIdMismatch i j) else None)
      | F_Err code msg \<Rightarrow> Some (serverErr code msg)
      | _ \<Rightarrow> Some ErrUnexpected)"

fun parse_info :: "string list \<Rightarrow> (string \<times> string) list \<Rightarrow> (string \<times> string) list option" where
  "parse_info [] raw = Some raw"
| "parse_info (l # ls) raw =
     (case Cut l (CHR '':'') of (k, v, ok) \<Rightarrow> if \<not> ok then None else parse_info ls (AList.update k v raw))"

text \<open>The role, the empty string when the block has none, and all the pairs.\<close>

definition resolveInfoResp :: "frame \<Rightarrow> client_err + (string \<times> (string \<times> string) list)" where
  "resolveInfoResp f =
     (case f of
        F_Info ls \<Rightarrow>
          (case parse_info ls [] of
             None \<Rightarrow> Inl ErrUnexpected
           | Some raw \<Rightarrow> Inr (case map_of raw ''role'' of None \<Rightarrow> [] | Some r \<Rightarrow> r, raw))
      | F_Err code msg \<Rightarrow> Inl (serverErr code msg)
      | _ \<Rightarrow> Inl ErrUnexpected)"

text \<open>The handshake's reading of the first line the server sends.\<close>

definition resolve_hello :: "string \<Rightarrow> client_err option" where
  "resolve_hello line =
     (if line = ''HELLO 1 OK'' then None
      else if HasPrefix line ''ERR ''
      then (case Cut (TrimPrefix line ''ERR '') (CHR '' '') of
              (code, reason, _) \<Rightarrow>
                (if code = ''AUTH'' then Some (ErrAuth reason) else Some (ErrHandshake code reason)))
      else Some (ErrHandshake [] line))"

definition handshake :: "string \<Rightarrow> writer \<Rightarrow> stream \<Rightarrow> client_err option \<times> writer \<times> stream" where
  "handshake token w s =
     (case write_seq (hello_writes token) w of
        (ok, w1) \<Rightarrow>
          if \<not> ok then (Some ErrTransport, w1, s)
          else (case ReadString s of
                  (Inl _, s1) \<Rightarrow> (Some ErrTransport, w1, s1)
                | (Inr line, s1) \<Rightarrow> (resolve_hello (TrimRightNL line), w1, s1)))"

subsection \<open>Subscription state\<close>

definition sub_begin :: "string \<Rightarrow> client \<Rightarrow> client_err + (nat \<times> client)" where
  "sub_begin cid c =
     (if cl_done c then Inl ErrClosed
      else if cl_subActive c then Inl ErrSubInUse
      else case push (cl_pending c) of
        (p, q) \<Rightarrow>
          Inr (p, c\<lparr>cl_pending := q, cl_subActive := True, cl_consumerID := cid, cl_deliveryCh := Some []\<rparr>))"

definition rollbackSub :: "client \<Rightarrow> client" where
  "rollbackSub c = c\<lparr>cl_subActive := False, cl_consumerID := [], cl_deliveryCh := None\<rparr>"

definition sub_write :: "write_op list \<Rightarrow> nat \<Rightarrow> client \<Rightarrow> client_err option \<times> client" where
  "sub_write ops p c =
     (case write_req ops p c of
        (None, c1) \<Rightarrow> (None, c1) | (Some e, c1) \<Rightarrow> (Some e, rollbackSub c1))"

definition sub_await :: "wait_arm \<Rightarrow> nat \<Rightarrow> client \<Rightarrow> client_err option \<times> client" where
  "sub_await a p c =
     (case await_req a p c of
        (Inl e, c1) \<Rightarrow> (Some e, rollbackSub c1)
      | (Inr f, c1) \<Rightarrow>
          (case resolve_sub f of None \<Rightarrow> (None, c1) | Some e \<Rightarrow> (Some e, rollbackSub c1)))"

subsection \<open>The reader\<close>

definition delivery_cap :: nat where
  "delivery_cap = 64"

text \<open>
  Routing one frame.  \<open>skip\<close> is the choice of the \<^verbatim>\<open>select\<close> when the channel has room and the connection is
  closed.  \<open>None\<close> stands for a reader that has to wait: for room in the delivery channel, or for ever on
  a full response channel.
\<close>

definition dispatch :: "bool \<Rightarrow> frame \<Rightarrow> client \<Rightarrow> client option" where
  "dispatch skip f c =
     (case f of
        F_Msg t p i pl \<Rightarrow>
          (case cl_deliveryCh c of
             None \<Rightarrow> Some c
           | Some ch \<Rightarrow>
               if cl_done c \<and> (skip \<or> length ch \<ge> delivery_cap) then Some c
               else if length ch < delivery_cap
               then Some (c\<lparr>cl_deliveryCh := Some (ch @ [\<lparr>d_Topic = t, d_Partition = p, d_MsgID = i,
                      d_Payload = pl, d_consumer = cl_consumerID c\<rparr>])\<rparr>)
               else None)
      | _ \<Rightarrow> (case deliver f (cl_pending c) of None \<Rightarrow> None | Some (_, q) \<Rightarrow> Some (c\<lparr>cl_pending := q\<rparr>)))"

text \<open>The end of the read loop on a read error with its text.\<close>

definition read_failed :: "frame_err \<Rightarrow> string \<Rightarrow> client \<Rightarrow> client option" where
  "read_failed e msg c =
     (let c1 = (if cl_done c then c else c\<lparr>cl_readErr := Some e\<rparr>)
      in case drainErr (F_Err ''TRANSPORT'' msg) (cl_pending c1) of
           None \<Rightarrow> None
         | Some q \<Rightarrow> Some ((cl_Close (c1\<lparr>cl_pending := q\<rparr>))\<lparr>cl_deliveryCh := None, cl_loopDone := True\<rparr>))"

section \<open>Requests as the server reads them\<close>

datatype topic_sel = Sel_None | Sel_All | Sel_Part nat

definition topic_token :: "string \<Rightarrow> topic_sel \<Rightarrow> string" where
  "topic_token base sel =
     base @ (case sel of Sel_None \<Rightarrow> [] | Sel_All \<Rightarrow> ''#*'' | Sel_Part n \<Rightarrow> ''#'' @ dec n)"

datatype request = R_Pub string topic_sel string string bytes u64 nat u64 | R_Sub string topic_sel string bool
  | R_Ack string nat u64 | R_Nack string nat u64 | R_Create string nat | R_Pause | R_Resume | R_Info

fun req_writes :: "request \<Rightarrow> write_op list" where
  "req_writes (R_Pub base sel dk rk body d n t) = pub_writes None (topic_token base sel) dk rk body d (int n) t"
| "req_writes (R_Sub base sel cid stale) = sub_writes None (topic_token base sel) cid stale"
| "req_writes (R_Ack cid p i) = ack_writes ''ACK'' cid (int p) i"
| "req_writes (R_Nack cid p i) = ack_writes ''NACK'' cid (int p) i"
| "req_writes (R_Create t n) = create_writes t (int n)"
| "req_writes R_Pause = control_writes ''PAUSE''"
| "req_writes R_Resume = control_writes ''RESUME''"
| "req_writes R_Info = info_req_writes"

fun req_tokens :: "request \<Rightarrow> string list" where
  "req_tokens (R_Pub base sel dk rk body d n t) =
     [''PUB'', topic_token base sel, key_dash dk, key_dash rk, dec (length body)] @
     (if d > 0 then [''DELAY'', dec (unat d)] else []) @ (if n > 0 then [''WAIT'', dec n, dec (unat t)] else [])"
| "req_tokens (R_Sub base sel cid stale) =
     [''SUB'', topic_token base sel, cid] @ (if stale then [''STALE''] else [])"
| "req_tokens (R_Ack cid p i) = [''ACK'', cid, dec p, dec (unat i)]"
| "req_tokens (R_Nack cid p i) = [''NACK'', cid, dec p, dec (unat i)]"
| "req_tokens (R_Create t n) = [''CREATE'', t, ''PARTITIONS'', dec n]"
| "req_tokens R_Pause = [''PAUSE'']"
| "req_tokens R_Resume = [''RESUME'']"
| "req_tokens R_Info = [''INFO'', ''replication'']"

fun req_body :: "request \<Rightarrow> bytes" where
  "req_body (R_Pub base sel dk rk body d n t) = body @ [10]"
| "req_body _ = []"

definition req_bytes :: "request \<Rightarrow> bytes" where
  "req_bytes r = wire_line (req_tokens r) @ req_body r"

definition sel_part :: "topic_sel \<Rightarrow> int" where
  "sel_part sel = (case sel of Sel_Part n \<Rightarrow> int n | _ \<Rightarrow> 0)"

definition sel_named :: "topic_sel \<Rightarrow> bool" where
  "sel_named sel = (case sel of Sel_Part n \<Rightarrow> True | _ \<Rightarrow> False)"

text \<open>The command a request means.\<close>

fun req_command :: "request \<Rightarrow> Command" where
  "req_command (R_Pub base sel dk rk body d n t) =
     C_Pub \<lparr>pub_Topic = base, pub_DedupeKey = dk, pub_RoutingKey = rk, pub_Partition = sel_part sel,
       pub_PartitionSet = sel_named sel, pub_Payload = body, pub_DelayMs = d, pub_WaitReplicas = int n,
       pub_WaitTimeoutMs = (if n > 0 then t else 0)\<rparr>"
| "req_command (R_Sub base sel cid stale) =
     C_Sub \<lparr>sub_Topic = base, sub_Partition = sel_part sel, sub_AllPartitions = (\<not> sel_named sel),
       sub_ConsumerID = cid, sub_Stale = stale\<rparr>"
| "req_command (R_Ack cid p i) = C_Ack cid (int p) i"
| "req_command (R_Nack cid p i) = C_Nack cid (int p) i"
| "req_command (R_Create t n) = C_Create t (int n)"
| "req_command R_Pause = C_Pause"
| "req_command R_Resume = C_Resume"
| "req_command R_Info = C_Info ''replication''"

definition topic_ok :: "string \<Rightarrow> topic_sel \<Rightarrow> bool" where
  "topic_ok base sel \<longleftrightarrow>
     tok base \<and> CHR ''#'' \<notin> set base \<and> (case sel of Sel_Part n \<Rightarrow> n < 2 ^ 63 | _ \<Rightarrow> True)"

definition key_ok :: "string \<Rightarrow> bool" where
  "key_ok k \<longleftrightarrow> k = [] \<or> tok k \<and> k \<noteq> ''-''"

fun req_ok :: "nat \<Rightarrow> request \<Rightarrow> bool" where
  "req_ok mp (R_Pub base sel dk rk body d n t) \<longleftrightarrow>
     topic_ok base sel \<and> sel \<noteq> Sel_All \<and> key_ok dk \<and> key_ok rk \<and> length body \<le> mp \<and> length body < 2 ^ 64 \<and>
     n < 2 ^ 63"
| "req_ok mp (R_Sub base sel cid stale) \<longleftrightarrow> topic_ok base sel \<and> tok cid"
| "req_ok mp (R_Ack cid p i) \<longleftrightarrow> tok cid \<and> p < 2 ^ 63"
| "req_ok mp (R_Nack cid p i) \<longleftrightarrow> tok cid \<and> p < 2 ^ 63"
| "req_ok mp (R_Create t n) \<longleftrightarrow> tok t \<and> 0 < n \<and> n < 2 ^ 63"
| "req_ok mp _ \<longleftrightarrow> True"

lemma parseTopicPartition_token:
  assumes "topic_ok base sel"
  shows "parseTopicPartition (topic_token base sel) = Inr (base, sel_part sel, sel = Sel_All, sel_named sel)"
proof (cases sel)
  case Sel_None
  then show ?thesis
    using assms by (simp add: topic_ok_def topic_token_def parseTopicPartition_def Cut_none sel_part_def
        sel_named_def tok_def)
next
  case Sel_All
  then show ?thesis
    using assms Cut_found [of "CHR ''#''" base "''*''"]
    by (simp add: topic_ok_def topic_token_def parseTopicPartition_def sel_part_def sel_named_def tok_def)
next
  case (Sel_Part n)
  have d: "CHR ''#'' \<notin> set (dec n)" using dec_digits [of "CHR ''#''" n] by (auto simp: is_digit_def)
  have s: "dec n \<noteq> ''*''" using dec_digits [of "CHR ''*''" n] by (auto simp: is_digit_def)
  show ?thesis
    using assms Sel_Part d s Cut_found [of "CHR ''#''" base "dec n"]
    by (simp add: topic_ok_def topic_token_def parseTopicPartition_def sel_part_def sel_named_def tok_def Atoi_dec)
qed

lemma tok_topic_token: "topic_ok base sel \<Longrightarrow> tok (topic_token base sel)"
  using tok_dec by (auto simp: topic_ok_def topic_token_def tok_def split: topic_sel.splits)

lemma tok_key_dash: "key_ok k \<Longrightarrow> tok (key_dash k)"
  by (auto simp: key_ok_def key_dash_def tok_def)

lemma dash_empty_key_dash: "key_ok k \<Longrightarrow> dash_empty (key_dash k) = k"
  by (auto simp: key_ok_def key_dash_def dash_empty_def)

lemma req_tokens_tok: "req_ok mp r \<Longrightarrow> list_all tok (req_tokens r)"
  by (cases r) (auto simp: tok_topic_token tok_key_dash, auto simp: tok_def)

lemma req_emits: "emits (write_seq (req_writes r)) (req_bytes r)"
proof -
  have e: "emits (write_seq (WriteString h # map Write bss @ [Flush])) (wire_line ts @ concat bss)"
    if "h = unwords ts @ [CHR 0x0A]" for h ts bss
    using emits_write_seq [of "bytes_of_string h # bss"] that by (simp add: WriteString_def wire_line_def)
  show ?thesis
  proof (cases r)
    case (R_Pub base sel dk rk body d n t)
    then show ?thesis
      using e [of "pub_header (topic_token base sel) dk rk (length body) d (int n) t" "req_tokens r" "[body, [10]]"]
      by (simp add: req_bytes_def pub_writes_def trace_writes_def traceparentLine_def pub_header_def WriteByte_def
          Itoa_def)
  qed (use e [of _ "req_tokens r" "[]"] in
      \<open>auto simp: req_bytes_def sub_writes_def ack_writes_def create_writes_def control_writes_def info_req_writes_def
         trace_writes_def traceparentLine_def Itoa_def\<close>)
qed

lemma req_nonempty: "req_tokens r \<noteq> []"
  by (cases r) auto

lemma parse_pub_request:
  assumes "req_ok mp (R_Pub base sel dk rk body d n t)"
  shows "parsePub (req_tokens (R_Pub base sel dk rk body d n t)) mp \<lparr>sbuf = body @ 10 # rest, send = e\<rparr> =
     (Inr (req_command (R_Pub base sel dk rk body d n t)), \<lparr>sbuf = rest, send = e\<rparr>)"
proof -
  have "unat (of_nat (length body) :: u64) = length body" "ParseUint (dec (length body)) = Some (of_nat (length body))"
    using assms by (simp_all add: unat_of_nat ParseUint_dec)
  moreover have "pub_body (length body) \<lparr>sbuf = body @ 10 # rest, send = e\<rparr> = (Inr body, \<lparr>sbuf = rest, send = e\<rparr>)"
    by (simp add: pub_body_def ReadFull_append ReadByte_def)
  moreover have "pub_opts (drop 5 (req_tokens (R_Pub base sel dk rk body d n t))) (0, 0, 0) =
      Some (d, int n, if n > 0 then t else 0)"
    using assms word_gt_0 [of d] by (simp add: Atoi_dec)
  ultimately show ?thesis
    using assms by (simp add: parsePub_def parseTopicPartition_token dash_empty_key_dash)
qed

lemma request_parses:
  assumes "req_ok mp r" "length (unwords (req_tokens r)) < MaxLineLength"
  shows "ReadCommand mp \<lparr>sbuf = req_bytes r @ rest, send = e\<rparr> = (Inr (req_command r), \<lparr>sbuf = rest, send = e\<rparr>)"
proof -
  have l: "line_ok (req_tokens r)"
    using assms req_tokens_tok req_nonempty by (simp add: line_ok_def)
  have f: "Fields (unwords (req_tokens r)) = req_tokens r" by (rule Fields_wire [OF l])
  have rc: "ReadCommand mp \<lparr>sbuf = req_bytes r @ rest, send = e\<rparr> =
      ParseCommandLine (unwords (req_tokens r)) mp \<lparr>sbuf = req_body r @ rest, send = e\<rparr>"
    using ReadCommand_wire [OF l, of mp "req_body r @ rest" e] by (simp add: req_bytes_def)
  show ?thesis
  proof (cases r)
    case (R_Pub base sel dk rk body d n t)
    then show ?thesis
      using rc f parse_pub_request [of mp base sel dk rk body d n t rest e] assms(1)
      by (simp add: ParseCommandLine_def)
  next
    case (R_Sub base sel cid stale)
    then show ?thesis
      using rc f assms(1) parseTopicPartition_token [of base sel]
      by (cases sel) (auto simp: ParseCommandLine_def parseSub_def sel_named_def)
  qed (use rc f assms(1) in
      \<open>auto simp: ParseCommandLine_def parseAck_def parseNack_def parse_ack_args_def parseCreate_def
         parsePause_def parseResume_def parseInfo_def Atoi_dec\<close>)
qed

text \<open>The handshake line, and a trace prefix.\<close>

lemma hello_emits:
  "emits (write_seq (hello_writes token)) (wire_line ([''HELLO'', ''1''] @ (if token = [] then [] else [''AUTH'', token])))"
  using emits_write_seq
    [of "[bytes_of_string (if token \<noteq> [] then ''HELLO 1 AUTH '' @ token @ [CHR 0x0A] else ''HELLO 1'' @ [CHR 0x0A])]"]
  by (cases "token = []") (simp_all add: hello_writes_def WriteString_def wire_line_def)

lemma hello_parses:
  assumes "token = [] \<or> tok token" "length token < 2 ^ 15"
  shows "ReadHello \<lparr>sbuf = wire_line ([''HELLO'', ''1''] @ (if token = [] then [] else [''AUTH'', token])) @ rest, send = e\<rparr> =
     (Inr \<lparr>hello_Version = 1, hello_Token = token\<rparr>,
      unwords ([''HELLO'', ''1''] @ (if token = [] then [] else [''AUTH'', token])), \<lparr>sbuf = rest, send = e\<rparr>)"
proof -
  let ?ts = "[''HELLO'', ''1''] @ (if token = [] then [] else [''AUTH'', token])"
  have l: "line_ok ?ts" using assms by (auto simp: line_ok_def MaxLineLength_def) (simp_all add: tok_def)
  have v: "Atoi ''1'' = Some 1" by (simp add: Atoi_def is_digit_def)
  show ?thesis
    using readLine_wire [OF l, of rest e] Fields_wire [OF l] v
    by (auto simp: ReadHello_def ParseHello_def Let_def)
qed

lemma handshake_accepts:
  "resolve_hello (TrimRightNL (string_of_bytes (Hello_frame 1))) = None"
  by code_simp

section \<open>The pending queue\<close>

text \<open>A queued request is known, queued once, and has no response yet.\<close>

definition pq_inv :: "pendingQueue \<Rightarrow> bool" where
  "pq_inv q \<longleftrightarrow> distinct (queue q) \<and> (\<forall>p \<in> set (queue q). p < length (reqs q) \<and> resp (reqs q ! p) = None)"

definition live :: "pendingQueue \<Rightarrow> nat list" where
  "live q = filter (\<lambda>p. \<not> cancelled (reqs q ! p)) (queue q)"

definition response :: "pendingQueue \<Rightarrow> nat \<Rightarrow> frame option" where
  "response q p = resp (reqs q ! p)"

lemma pq_inv_new: "pq_inv newPendingQueue"
  by (simp add: pq_inv_def newPendingQueue_def)

lemma push_post:
  assumes "pq_inv q" "push q = (p, q')"
  shows "pq_inv q'" "live q' = live q @ [p]" "p = length (reqs q)" "response q' p = None"
    "\<And>p'. p' < length (reqs q) \<Longrightarrow> response q' p' = response q p'"
  using assms by (auto simp: pq_inv_def push_def live_def response_def nth_append less_SucI intro!: filter_cong)

lemma cancel_post:
  assumes "pq_inv q" "p < length (reqs q)"
  shows "pq_inv (cancel p q)" "live (cancel p q) = filter (\<lambda>p'. p' \<noteq> p) (live q)"
    "response (cancel p q) p' = response q p'"
  using assms
  by (auto simp: pq_inv_def cancel_def live_def response_def nth_list_update intro!: filter_cong)

lemma deliver_loop_cases:
  assumes "\<forall>p \<in> set ps. resp (rs ! p) = None"
  shows "filter (\<lambda>p. \<not> cancelled (rs ! p)) ps = [] \<and> deliver_loop f ps rs = Some (False, [], rs) \<or>
     (\<exists>ds p ps'. ps = ds @ p # ps' \<and> (\<forall>d \<in> set ds. cancelled (rs ! d)) \<and> \<not> cancelled (rs ! p) \<and>
        deliver_loop f ps rs = Some (True, ps', rs[p := (rs ! p)\<lparr>resp := Some f\<rparr>]))"
  using assms
proof (induction f ps rs rule: deliver_loop.induct)
  case (2 f p ps rs)
  show ?case
  proof (cases "cancelled (rs ! p)")
    case True
    then have "filter (\<lambda>p. \<not> cancelled (rs ! p)) ps = [] \<and> deliver_loop f ps rs = Some (False, [], rs) \<or>
       (\<exists>ds p' ps'. ps = ds @ p' # ps' \<and> (\<forall>d \<in> set ds. cancelled (rs ! d)) \<and> \<not> cancelled (rs ! p') \<and>
          deliver_loop f ps rs = Some (True, ps', rs[p' := (rs ! p')\<lparr>resp := Some f\<rparr>]))"
      using 2 by simp
    then show ?thesis
      using True by (elim disjE exE) (simp, rule disjI2, rule exI [of _ "p # _"], auto)
  next
    case False
    then show ?thesis using 2(2) by (auto simp: send_resp_def)
  qed
qed simp

lemma deliver_cases:
  assumes "pq_inv q"
  obtains (none) "live q = []" "deliver f q = Some (False, q\<lparr>queue := []\<rparr>)"
  | (some) ds p ps where "queue q = ds @ p # ps" "\<forall>d \<in> set ds. cancelled (reqs q ! d)" "\<not> cancelled (reqs q ! p)"
      "deliver f q = Some (True, q\<lparr>reqs := (reqs q)[p := (reqs q ! p)\<lparr>resp := Some f\<rparr>], queue := ps\<rparr>)"
  using deliver_loop_cases [of "queue q" "reqs q" f] assms
  by (auto simp: pq_inv_def live_def deliver_def)

text \<open>What delivery does in terms of the live requests.\<close>

definition deliver_spec :: "frame \<Rightarrow> pendingQueue \<Rightarrow> bool \<times> pendingQueue \<Rightarrow> bool" where
  "deliver_spec f q r \<longleftrightarrow>
     (fst r \<longleftrightarrow> live q \<noteq> []) \<and> live (snd r) = tl (live q) \<and> length (reqs (snd r)) = length (reqs q) \<and>
     (\<forall>p. response (snd r) p = (if live q \<noteq> [] \<and> p = hd (live q) then Some f else response q p)) \<and>
     (\<forall>p. cancelled (reqs (snd r) ! p) = cancelled (reqs q ! p))"

lemma deliver_post:
  assumes "pq_inv q"
  shows "\<exists>r. deliver f q = Some r \<and> pq_inv (snd r) \<and> deliver_spec f q r"
proof (cases rule: deliver_cases [OF assms, of f, case_names none some])
  case none
  then show ?thesis using assms by (simp add: pq_inv_def deliver_spec_def live_def response_def)
next
  case (some ds p ps)
  have d: "p \<notin> set ps" "p \<notin> set ds" "p < length (reqs q)" using assms some(1) by (auto simp: pq_inv_def)
  have e: "filter (\<lambda>p. \<not> cancelled (reqs q ! p)) ds = []" using some(2) by (simp add: filter_empty_conv)
  have l: "live q = p # filter (\<lambda>p. \<not> cancelled (reqs q ! p)) ps"
    using some(3) e by (simp add: live_def some(1))
  show ?thesis
    using assms some(1,4) d l
    by (auto simp: pq_inv_def deliver_spec_def nth_list_update response_def) 
       (auto simp: live_def nth_list_update intro!: filter_cong)
qed

lemma drain_loop_post:
  assumes "distinct ps" "\<forall>p \<in> set ps. p < length rs \<and> resp (rs ! p) = None"
  shows "\<exists>rs'. drain_loop f ps rs = Some rs' \<and> length rs' = length rs \<and>
     (\<forall>p. resp (rs' ! p) = (if p \<in> set ps \<and> \<not> cancelled (rs ! p) then Some f else resp (rs ! p))) \<and>
     (\<forall>p. cancelled (rs' ! p) = cancelled (rs ! p))"
  using assms
proof (induction f ps rs rule: drain_loop.induct)
  case (2 f p ps rs)
  show ?case
  proof (cases "cancelled (rs ! p)")
    case True
    then show ?thesis using 2 by auto
  next
    case False
    let ?rs = "rs[p := (rs ! p)\<lparr>resp := Some f\<rparr>]"
    have s: "send_resp f p rs = Some ?rs" using 2(4) by (simp add: send_resp_def)
    have "\<forall>x \<in> set ps. x < length ?rs \<and> resp (?rs ! x) = None"
      using 2(3,4) by (auto simp: nth_list_update)
    then obtain rs' where "drain_loop f ps ?rs = Some rs'" "length rs' = length ?rs"
        "\<forall>x. resp (rs' ! x) = (if x \<in> set ps \<and> \<not> cancelled (?rs ! x) then Some f else resp (?rs ! x))"
        "\<forall>x. cancelled (rs' ! x) = cancelled (?rs ! x)"
      using 2(1) [OF _ s] False 2(3) by auto
    then show ?thesis using False s 2(3,4) by (auto simp: nth_list_update)
  qed
qed simp

definition drain_spec :: "frame \<Rightarrow> pendingQueue \<Rightarrow> pendingQueue \<Rightarrow> bool" where
  "drain_spec f q q' \<longleftrightarrow>
     queue q' = [] \<and> length (reqs q') = length (reqs q) \<and>
     (\<forall>p. response q' p = (if p \<in> set (live q) then Some f else response q p))"

lemma drainErr_post:
  assumes "pq_inv q"
  shows "\<exists>q'. drainErr f q = Some q' \<and> pq_inv q' \<and> drain_spec f q q'"
  using drain_loop_post [of "queue q" "reqs q" f] assms
  by (auto simp: pq_inv_def drainErr_def drain_spec_def live_def response_def)

section \<open>Interleavings of callers and reader\<close>

text \<open>
  The steps of a connection: callers at any of their parts, the reader at a frame or at its error, the
  consumer taking a delivery, a close.  The closed check and the push of a request are apart in the
  code, so a push may follow a close.
\<close>

definition fresh_client :: client where
  "fresh_client = \<lparr>cl_w = \<lparr>w_buf = [], w_sent = [], w_room = None, w_err = False\<rparr>, cl_done = False,
     cl_readErr = None, cl_loopDone = False, cl_pending = newPendingQueue, cl_subActive = False,
     cl_consumerID = [], cl_deliveryCh = None\<rparr>"

inductive client_step :: "client \<Rightarrow> client \<Rightarrow> bool" where
  cs_push: "push (cl_pending c) = (p, q) \<Longrightarrow> client_step c (c\<lparr>cl_pending := q\<rparr>)"
| cs_sub: "sub_begin cid c = Inr (p, c') \<Longrightarrow> client_step c c'"
| cs_write: "p < length (reqs (cl_pending c)) \<Longrightarrow> write_req ops p c = (e, c') \<Longrightarrow> client_step c c'"
| cs_sub_write: "p < length (reqs (cl_pending c)) \<Longrightarrow> sub_write ops p c = (e, c') \<Longrightarrow> client_step c c'"
| cs_await: "p < length (reqs (cl_pending c)) \<Longrightarrow> arm_ready a ctx p c \<Longrightarrow> await_req a p c = (r, c') \<Longrightarrow>
    client_step c c'"
| cs_sub_await: "p < length (reqs (cl_pending c)) \<Longrightarrow> arm_ready a ctx p c \<Longrightarrow> sub_await a p c = (e, c') \<Longrightarrow>
    client_step c c'"
| cs_dispatch: "\<not> cl_loopDone c \<Longrightarrow> dispatch skip f c = Some c' \<Longrightarrow> client_step c c'"
| cs_read_failed: "\<not> cl_loopDone c \<Longrightarrow> read_failed e msg c = Some c' \<Longrightarrow> client_step c c'"
| cs_take: "cl_deliveryCh c = Some (d # ds) \<Longrightarrow> client_step c (c\<lparr>cl_deliveryCh := Some ds\<rparr>)"
| cs_close: "client_step c (cl_Close c)"

definition client_inv :: "client \<Rightarrow> bool" where
  "client_inv c \<longleftrightarrow>
     pq_inv (cl_pending c) \<and>
     (\<forall>ch. cl_deliveryCh c = Some ch \<longrightarrow> cl_subActive c \<and> length ch \<le> delivery_cap) \<and>
     (cl_loopDone c \<longrightarrow> cl_done c)"

lemma client_inv_fresh: "client_inv fresh_client"
  by (simp add: client_inv_def fresh_client_def pq_inv_new)

lemma client_inv_cancel:
  "client_inv c \<Longrightarrow> p < length (reqs (cl_pending c)) \<Longrightarrow> client_inv (cancel_req p c)"
  by (simp add: client_inv_def cancel_req_def cancel_post)

lemma client_inv_rollback: "client_inv c \<Longrightarrow> client_inv (rollbackSub c)"
  by (simp add: client_inv_def rollbackSub_def)

lemma client_inv_w: "client_inv (c\<lparr>cl_w := w\<rparr>) = client_inv c"
  by (simp add: client_inv_def)

lemma client_inv_write:
  "client_inv c \<Longrightarrow> p < length (reqs (cl_pending c)) \<Longrightarrow> write_req ops p c = (e, c') \<Longrightarrow> client_inv c'"
  using client_inv_cancel [of "c\<lparr>cl_w := _\<rparr>" p]
  by (auto simp: write_req_def client_inv_cancel client_inv_w split: if_splits prod.splits)

lemma pq_inv_recv:
  assumes "pq_inv q" "response q p = Some f" "p < length (reqs q)"
  shows "pq_inv (q\<lparr>reqs := (reqs q)[p := (reqs q ! p)\<lparr>resp := None\<rparr>]\<rparr>)"
  using assms by (auto simp: pq_inv_def response_def nth_list_update)

lemma client_inv_await:
  "client_inv c \<Longrightarrow> p < length (reqs (cl_pending c)) \<Longrightarrow> await_req a p c = (r, c') \<Longrightarrow> client_inv c'"
  using pq_inv_recv [of "cl_pending c" p]
  by (auto simp: await_req_def client_inv_cancel split: wait_arm.splits option.splits)
     (auto simp: client_inv_def response_def)

lemma client_inv_dispatch:
  assumes "client_inv c" "dispatch skip f c = Some c'"
  shows "client_inv c'"
proof (cases "\<exists>t p i pl. f = F_Msg t p i pl")
  case True
  then show ?thesis
    using assms by (auto simp: dispatch_def client_inv_def split: option.splits if_splits)
next
  case False
  then obtain r where "deliver f (cl_pending c) = Some r" "c' = c\<lparr>cl_pending := snd r\<rparr>"
    using assms(2) by (cases f) (auto simp: dispatch_def split: option.splits prod.splits)
  then show ?thesis using assms(1) deliver_post [of "cl_pending c" f] by (auto simp: client_inv_def)
qed

lemma client_inv_step:
  assumes "client_step c c'" "client_inv c"
  shows "client_inv c'"
  using assms
proof (cases rule: client_step.cases)
  case (cs_push p q)
  then show ?thesis using assms(2) push_post(1) by (auto simp: client_inv_def)
next
  case (cs_sub cid p)
  then show ?thesis using assms(2) push_post(1)
    by (auto simp: client_inv_def sub_begin_def split: if_splits prod.splits)
next
  case (cs_sub_write p ops e)
  then show ?thesis using assms(2) client_inv_write client_inv_rollback
    by (auto simp: sub_write_def split: prod.splits option.splits)
next
  case (cs_sub_await p a ctx e)
  then show ?thesis using assms(2) client_inv_await client_inv_rollback
    by (auto simp: sub_await_def split: prod.splits option.splits sum.splits)
next
  case (cs_read_failed e msg)
  then show ?thesis using assms(2) drainErr_post [of "cl_pending c" "F_Err ''TRANSPORT'' msg"]
    by (auto simp: client_inv_def read_failed_def cl_Close_def Let_def split: if_splits)
next
  case (cs_write p ops e)
  then show ?thesis using assms(2) client_inv_write by blast
next
  case (cs_await p a ctx r)
  then show ?thesis using assms(2) client_inv_await by blast
next
  case (cs_dispatch skip f)
  then show ?thesis using assms(2) client_inv_dispatch by blast
qed (auto simp: client_inv_def cl_Close_def)

lemma client_inv_reach: "client_step\<^sup>*\<^sup>* c c' \<Longrightarrow> client_inv c \<Longrightarrow> client_inv c'"
  by (induction rule: rtranclp_induct) (auto intro: client_inv_step)

lemma reachable_inv: "client_step\<^sup>*\<^sup>* fresh_client c \<Longrightarrow> client_inv c"
  by (rule client_inv_reach [OF _ client_inv_fresh])

text \<open>Delivering a list of responses.\<close>

fun deliver_all :: "frame list \<Rightarrow> pendingQueue \<Rightarrow> pendingQueue option" where
  "deliver_all [] q = Some q"
| "deliver_all (f # fs) q = (case deliver f q of None \<Rightarrow> None | Some (_, q') \<Rightarrow> deliver_all fs q')"

lemma distinct_live: "pq_inv q \<Longrightarrow> distinct (live q)"
  by (simp add: pq_inv_def live_def)

lemma deliver_all_post:
  assumes "pq_inv q" "length fs \<le> length (live q)"
  shows "\<exists>q'. deliver_all fs q = Some q' \<and> pq_inv q' \<and> live q' = drop (length fs) (live q) \<and>
     (\<forall>i < length fs. response q' (live q ! i) = Some (fs ! i)) \<and>
     (\<forall>p. p \<notin> set (take (length fs) (live q)) \<longrightarrow> response q' p = response q p)"
  using assms
proof (induction fs arbitrary: q)
  case (Cons f fs)
  obtain p ps where l: "live q = p # ps" using Cons.prems(2) by (cases "live q") auto
  obtain r where r: "deliver f q = Some r" "pq_inv (snd r)" "deliver_spec f q r"
    using deliver_post [OF Cons.prems(1)] by blast
  then have ps: "live (snd r) = ps" using l by (simp add: deliver_spec_def)
  then obtain q' where q': "deliver_all fs (snd r) = Some q'" "pq_inv q'" "live q' = drop (length fs) ps"
      "\<forall>i < length fs. response q' (ps ! i) = Some (fs ! i)"
      "\<forall>x. x \<notin> set (take (length fs) ps) \<longrightarrow> response q' x = response (snd r) x"
    using Cons.IH [OF r(2)] Cons.prems(2) l by auto
  have "p \<notin> set ps" using distinct_live [OF Cons.prems(1)] l by simp
  then have "response q' p = Some f" using q'(5) r(3) l by (auto simp: deliver_spec_def dest: in_set_takeD)
  then show ?case
    using q' r l ps by (auto simp: deliver_spec_def nth_Cons split: prod.splits nat.splits)
qed simp

section \<open>Properties\<close>

text \<open>C27: Every request a client writes is read by the server as the command it means, whatever the payload
  contains: the writer emits the whole request or reports an error, and the parser returns exactly the topic,
  partition, keys, payload, delay and wait options that were asked for, leaving the stream at the next
  request.  The values must be single visible tokens, a key must not be the dash that stands for no key, and
  the header must fit the line limit.\<close>
theorem requests_roundtrip:
  assumes "req_ok mp r" and "length (unwords (req_tokens r)) < MaxLineLength"
  shows "emits (write_seq (req_writes r)) (req_bytes r) \<and>
     ReadCommand mp \<lparr>sbuf = req_bytes r @ rest, send = e\<rparr> = (Inr (req_command r), \<lparr>sbuf = rest, send = e\<rparr>)"
  using req_emits request_parses [OF assms] by blast

theorem requests_roundtrip_witness:
  "emits (write_seq (req_writes (R_Pub ''orders'' (Sel_Part 3) ''k1'' [] [10, 80] 5 2 7)))
     (req_bytes (R_Pub ''orders'' (Sel_Part 3) ''k1'' [] [10, 80] 5 2 7)) \<and>
   ReadCommand 1024 \<lparr>sbuf = req_bytes (R_Pub ''orders'' (Sel_Part 3) ''k1'' [] [10, 80] 5 2 7) @ [80], send = At_EOF\<rparr> =
     (Inr (C_Pub \<lparr>pub_Topic = ''orders'', pub_DedupeKey = ''k1'', pub_RoutingKey = [], pub_Partition = 3,
        pub_PartitionSet = True, pub_Payload = [10, 80], pub_DelayMs = 5, pub_WaitReplicas = 2,
        pub_WaitTimeoutMs = 7\<rparr>), \<lparr>sbuf = [80], send = At_EOF\<rparr>)"
proof -
  have "length (unwords (req_tokens (R_Pub ''orders'' (Sel_Part 3) ''k1'' [] [10, 80] 5 2 7))) < MaxLineLength"
    by (simp add: MaxLineLength_def topic_token_def key_dash_def dec.simps)
  moreover have "req_ok 1024 (R_Pub ''orders'' (Sel_Part 3) ''k1'' [] [10, 80] 5 2 7)"
    by (simp add: topic_ok_def key_ok_def tok_def)
  ultimately show ?thesis
    using requests_roundtrip [of 1024 "R_Pub ''orders'' (Sel_Part 3) ''k1'' [] [10, 80] 5 2 7" "[80]" At_EOF]
    by (simp add: sel_part_def sel_named_def)
qed


definition sample_client :: client where
  "sample_client = fresh_client\<lparr>cl_pending := snd (push (snd (push newPendingQueue)))\<rparr>"

lemma sample_client_reach: "client_step\<^sup>*\<^sup>* fresh_client sample_client"
proof -
  have "client_step fresh_client (fresh_client\<lparr>cl_pending := snd (push newPendingQueue)\<rparr>)"
    using cs_push [of fresh_client 0 "snd (push newPendingQueue)"]
    by (simp add: fresh_client_def push_def newPendingQueue_def)
  moreover have "client_step (fresh_client\<lparr>cl_pending := snd (push newPendingQueue)\<rparr>) sample_client"
    using cs_push [of "fresh_client\<lparr>cl_pending := snd (push newPendingQueue)\<rparr>" 1 "snd (push (snd (push newPendingQueue)))"]
    by (simp add: sample_client_def fresh_client_def push_def newPendingQueue_def)
  ultimately show ?thesis by (meson converse_rtranclp_into_rtranclp rtranclp.rtrancl_refl)
qed

lemma sample_client_live: "live (cl_pending sample_client) = [0, 1]"
  by (simp add: sample_client_def push_def newPendingQueue_def live_def)




end
