(* ===== verification/Cluster_Client.thy ===== *)
theory Cluster_Client
  imports Client_Conn
begin

text \<open>
  The redirect-following client of a replicated cluster (\<^verbatim>\<open>pkg/client/cluster.go\<close>, \<^verbatim>\<open>backoff.go\<close>): the
  member list, the current connection, the retry loop and its delays.  A connection is the address it
  was dialled at.  What a dial, an operation on a connection and a wait give, and whether \<^verbatim>\<open>Close\<close> has been
  called meanwhile, are arguments, one of each for every attempt.
\<close>

section \<open>Delays\<close>

text \<open>Durations are signed 64-bit numbers of nanoseconds.\<close>

record backoff =
  bo_base :: u64
  bo_max :: u64
  bo_attempts :: int

definition newBackoff :: "u64 \<Rightarrow> u64 \<Rightarrow> int \<Rightarrow> backoff" where
  "newBackoff base maxDelay n =
     \<lparr>bo_base = base, bo_max = maxDelay, bo_attempts = (if n < 1 then 1 else n)\<rparr>"

text \<open>\<open>jitter d\<close> is the random fraction of \<open>d\<close>, truncated.\<close>

definition delay :: "(int \<Rightarrow> int) \<Rightarrow> backoff \<Rightarrow> int \<Rightarrow> int" where
  "delay jitter bo attempt =
     (if attempt < 1 then 0
      else let d = sint (push_bit (nat (attempt - 1)) (bo_base bo)) in
        jitter (if d \<le> 0 \<or> d > sint (bo_max bo) then sint (bo_max bo) else d))"

text \<open>\<open>fired\<close> tells that the client was closed before the delay passed.\<close>

definition wait :: "(int \<Rightarrow> int) \<Rightarrow> backoff \<Rightarrow> int \<Rightarrow> bool \<Rightarrow> bool" where
  "wait jitter bo attempt fired = (if delay jitter bo attempt \<le> 0 then True else \<not> fired)"

section \<open>The cluster client\<close>

record cluster =
  cc_addrs :: "string list"
  cc_byID :: "(string \<times> string) list"
  cc_bo :: backoff
  cc_cur :: "string option"
  cc_idx :: nat
  cc_closed :: bool

datatype cluster_err = CE_NoMembers | CE_Client client_err | CE_Unreachable int client_err | CE_Limit int string client_err

definition splitMember :: "string \<Rightarrow> string \<times> string" where
  "splitMember m = (case Cut m (CHR ''@'') of (i, addr, ok) \<Rightarrow> if ok then (i, addr) else ([], m))"

type_synonym dial = "string \<Rightarrow> client_err option"

definition conn :: "dial \<Rightarrow> cluster \<Rightarrow> (client_err + string) \<times> cluster" where
  "conn dial cc =
     (if cc_closed cc then (Inl ErrClosed, cc)
      else case cc_cur cc of
        Some c \<Rightarrow> (Inr c, cc)
      | None \<Rightarrow>
          (case dial (cc_addrs cc ! cc_idx cc) of
             Some e \<Rightarrow> (Inl e, cc)
           | None \<Rightarrow> (Inr (cc_addrs cc ! cc_idx cc), cc\<lparr>cc_cur := Some (cc_addrs cc ! cc_idx cc)\<rparr>)))"

fun add_member :: "string \<Rightarrow> (string \<times> string) list \<Rightarrow> (string \<times> string) list" where
  "add_member m byID = (case splitMember m of (i, addr) \<Rightarrow> if i \<noteq> [] then AList.update i addr byID else byID)"

definition DialCluster :: "dial \<Rightarrow> string list \<Rightarrow> cluster_err + cluster" where
  "DialCluster dial members =
     (if members = [] then Inl CE_NoMembers
      else case conn dial \<lparr>cc_addrs = map (snd \<circ> splitMember) members, cc_byID = fold add_member members [],
                  cc_bo = newBackoff 20000000 500000000 10, cc_cur = None, cc_idx = 0, cc_closed = False\<rparr> of
        (Inl e, _) \<Rightarrow> Inl (CE_Client e)
      | (Inr _, cc) \<Rightarrow> Inr cc)"

fun find_addr :: "string \<Rightarrow> string list \<Rightarrow> nat option" where
  "find_addr addr [] = None"
| "find_addr addr (a # as) = (if a = addr then Some 0 else map_option Suc (find_addr addr as))"

definition redirect :: "string \<Rightarrow> cluster \<Rightarrow> cluster" where
  "redirect hint cc =
     (let cc1 = cc\<lparr>cc_cur := None\<rparr>; next = cc1\<lparr>cc_idx := (cc_idx cc + 1) mod length (cc_addrs cc)\<rparr> in
      case map_of (cc_byID cc) hint of
        Some addr \<Rightarrow>
          if hint \<noteq> []
          then (case find_addr addr (cc_addrs cc) of Some i \<Rightarrow> cc1\<lparr>cc_idx := i\<rparr> | None \<Rightarrow> next)
          else next
      | None \<Rightarrow> next)"

text \<open>The errors that are retried, with the hint they carry.\<close>

fun retry_hint :: "client_err \<Rightarrow> string option" where
  "retry_hint (ErrNotLeader h) = Some h"
| "retry_hint ErrTransport = Some []"
| "retry_hint ErrClosed = Some []"
| "retry_hint _ = None"

record 'r attempt_env =
  at_dial :: dial
  at_fn :: "string \<Rightarrow> client_err + 'r"
  at_jitter :: "int \<Rightarrow> int"
  at_fired :: bool
  at_close :: bool

text \<open>\<^verbatim>\<open>Close\<close>: the connection is dropped and every later \<^verbatim>\<open>conn\<close> fails.\<close>

definition cc_Close :: "cluster \<Rightarrow> cluster" where
  "cc_Close cc = (if cc_closed cc then cc else cc\<lparr>cc_closed := True, cc_cur := None\<rparr>)"

definition begin_attempt :: "'r attempt_env \<Rightarrow> cluster \<Rightarrow> cluster" where
  "begin_attempt at cc = (if at_close at then cc_Close cc else cc)"

lemma conn_bo [simp]: "cc_bo (snd (conn d cc)) = cc_bo cc" "cc_addrs (snd (conn d cc)) = cc_addrs cc"
  "cc_idx (snd (conn d cc)) = cc_idx cc" "cc_byID (snd (conn d cc)) = cc_byID cc"
  by (auto simp: conn_def split: option.splits)

lemma begin_bo [simp]: "cc_bo (begin_attempt at cc) = cc_bo cc" "cc_addrs (begin_attempt at cc) = cc_addrs cc"
  "cc_idx (begin_attempt at cc) = cc_idx cc" "cc_byID (begin_attempt at cc) = cc_byID cc"
  by (simp_all add: begin_attempt_def cc_Close_def)

lemma redirect_bo [simp]: "cc_bo (redirect h cc) = cc_bo cc" "cc_addrs (redirect h cc) = cc_addrs cc"
  "cc_byID (redirect h cc) = cc_byID cc" "cc_cur (redirect h cc) = None" "cc_closed (redirect h cc) = cc_closed cc"
  by (simp_all add: redirect_def Let_def split: option.splits)

lemma conn_bo_of: "conn d (begin_attempt at cc) = (r, cc1) \<Longrightarrow> cc_bo cc1 = cc_bo cc"
  using conn_bo(1) [of d "begin_attempt at cc"] by simp

text \<open>The result, the client afterwards, and the addresses the operation was tried on.\<close>

function redirectLoop ::
    "(nat \<Rightarrow> 'r attempt_env) \<Rightarrow> nat \<Rightarrow> cluster \<Rightarrow> (cluster_err + 'r) \<times> cluster \<times> string list" where
  "redirectLoop env k cc =
     (let n = bo_attempts (cc_bo cc); at = env k; attempt = int k + 1 in
      case conn (at_dial at) (begin_attempt at cc) of
        (Inl e, cc1) \<Rightarrow>
          if e = ErrClosed then (Inl (CE_Client e), cc1, [])
          else if attempt \<ge> n then (Inl (CE_Unreachable n e), cc1, [])
          else if \<not> wait (at_jitter at) (cc_bo cc) attempt (at_fired at) then (Inl (CE_Client ErrClosed), cc1, [])
          else redirectLoop env (Suc k) (redirect [] cc1)
      | (Inr c, cc1) \<Rightarrow>
          (case at_fn at c of
             Inr r \<Rightarrow> (Inr r, cc1, [c])
           | Inl e \<Rightarrow>
               (case retry_hint e of
                  None \<Rightarrow> (Inl (CE_Client e), cc1, [c])
                | Some hint \<Rightarrow>
                    if attempt \<ge> n then (Inl (CE_Limit n hint e), cc1, [c])
                    else if \<not> wait (at_jitter at) (cc_bo cc) attempt (at_fired at)
                    then (Inl (CE_Client ErrClosed), cc1, [c])
                    else (case redirectLoop env (Suc k) (redirect hint cc1) of
                            (r, cc2, cs) \<Rightarrow> (r, cc2, c # cs)))))"
  by pat_completeness auto
termination
  by (relation "measure (\<lambda>(env, k, cc). nat (bo_attempts (cc_bo cc)) - k)") (auto dest!: conn_bo_of [OF sym])

declare redirectLoop.simps [simp del]

text \<open>Reads that are served by the connected member and never redirected: \<^verbatim>\<open>Info\<close> and \<^verbatim>\<open>SubStale\<close>.\<close>

definition local_read :: "dial \<Rightarrow> (string \<Rightarrow> client_err + 'r) \<Rightarrow> cluster \<Rightarrow> (client_err + 'r) \<times> cluster" where
  "local_read dial fn cc = (case conn dial cc of (Inl e, cc1) \<Rightarrow> (Inl e, cc1) | (Inr c, cc1) \<Rightarrow> (fn c, cc1))"

section \<open>Lemmas on delays\<close>

lemma sint_u64: "sint (w :: u64) = (if uint w < 2 ^ 63 then uint w else uint w - 2 ^ 64)"
proof -
  have r: "0 \<le> uint w" "uint w < 2 ^ 64" using uint_bounded [of w] by simp_all
  have s: "sint w = signed_take_bit 63 (uint w)" by (simp add: sint_uint)
  show ?thesis
  proof (cases "uint w < 2 ^ 63")
    case True
    then have "signed_take_bit 63 (uint w) = uint w" 
      by (rule signed_take_bit_int_eq_self [rotated]) (use True r(1) in linarith)+
    then show ?thesis using s True by simp
  next
    case False
    then have "uint w div 2 ^ 63 = 1" using r by (intro int_div_pos_eq [of _ _ _ "uint w - 2 ^ 63"]) auto
    then have "bit (uint w) 63" by (simp add: bit_iff_odd)
    then show ?thesis
      using False r s by (simp add: signed_take_bit_eq_take_bit_minus take_bit_int_eq_self)
  qed
qed

lemma sint_shift:
  assumes "0 < sint (b :: u64)"
  shows "0 < sint (push_bit k b) \<Longrightarrow> sint (push_bit k b) \<le> sint b * 2 ^ k"
    and "sint (push_bit k b) \<le> 0 \<Longrightarrow> 2 ^ 63 \<le> sint b * 2 ^ k"
proof -
  have b: "uint b = sint b" using assms sint_u64 [of b] uint_bounded [of b] by (auto split: if_splits)
  have u: "uint (push_bit k b) = (sint b * 2 ^ k) mod 2 ^ 64"
    by (subst unsigned_push_bit_eq) (simp add: push_bit_eq_mult take_bit_eq_mod b)
  have pos: "0 < sint b * 2 ^ k" using assms by simp
  show "0 < sint (push_bit k b) \<Longrightarrow> sint (push_bit k b) \<le> sint b * 2 ^ k"
    using sint_u64 [of "push_bit k b"] u zmod_le_nonneg_dividend [of "sint b * 2 ^ k" "2 ^ 64"] pos
    by (auto split: if_splits)
  show "2 ^ 63 \<le> sint b * 2 ^ k" if "sint (push_bit k b) \<le> 0"
  proof (rule ccontr)
    assume n: "\<not> 2 ^ 63 \<le> sint b * 2 ^ k"
    then have "uint (push_bit k b) = sint b * 2 ^ k" using u pos by simp
    then show False using n pos that sint_u64 [of "push_bit k b"] by simp
  qed
qed

section \<open>Lemmas on members\<close>

definition cluster_inv :: "cluster \<Rightarrow> bool" where
  "cluster_inv cc \<longleftrightarrow>
     cc_idx cc < length (cc_addrs cc) \<and> (\<forall>c. cc_cur cc = Some c \<longrightarrow> c \<in> set (cc_addrs cc)) \<and> 1 \<le> bo_attempts (cc_bo cc)"

lemma find_addr_less: "find_addr a as = Some i \<Longrightarrow> i < length as \<and> as ! i = a"
  by (induction as arbitrary: i) (auto split: if_splits)

lemma find_addr_mem: "a \<in> set as \<Longrightarrow> \<exists>i. find_addr a as = Some i"
  by (induction as) auto

lemma conn_inv: "cluster_inv cc \<Longrightarrow> conn d cc = (r, cc') \<Longrightarrow> cluster_inv cc' \<and> (\<forall>c. r = Inr c \<longrightarrow> c \<in> set (cc_addrs cc))"
  by (auto simp: conn_def cluster_inv_def split: if_splits option.splits)

lemma conn_keeps:
  "conn d cc = (r, cc') \<Longrightarrow> cc_bo cc' = cc_bo cc \<and> cc_addrs cc' = cc_addrs cc \<and> cc_idx cc' = cc_idx cc \<and> cc_byID cc' = cc_byID cc"
  by (auto simp: conn_def split: if_splits option.splits)

lemma begin_inv: "cluster_inv cc \<Longrightarrow> cluster_inv (begin_attempt at cc)"
  by (simp add: begin_attempt_def cc_Close_def cluster_inv_def)

lemma redirect_idx: "cc_addrs cc \<noteq> [] \<Longrightarrow> cc_idx (redirect h cc) < length (cc_addrs cc)"
  by (auto simp: redirect_def Let_def dest: find_addr_less split: option.splits)

lemma redirect_inv: "cluster_inv cc \<Longrightarrow> cluster_inv (redirect h cc)"
  using redirect_idx [of cc h] by (cases "cc_addrs cc") (simp_all add: cluster_inv_def)

lemma DialCluster_inv:
  assumes "DialCluster dial ms = Inr cc"
  shows "cluster_inv cc \<and> bo_attempts (cc_bo cc) = 10 \<and> length (cc_addrs cc) = length ms"
proof -
  let ?c = "\<lparr>cc_addrs = map (snd \<circ> splitMember) ms, cc_byID = fold add_member ms [],
     cc_bo = newBackoff 20000000 500000000 10, cc_cur = None, cc_idx = 0, cc_closed = False\<rparr>"
  obtain r where c: "conn dial ?c = (r, cc)" and "ms \<noteq> []"
    using assms by (auto simp: DialCluster_def split: if_splits sum.splits prod.splits)
  then have "cluster_inv ?c" by (simp add: cluster_inv_def newBackoff_def)
  from conn_inv [OF this c] show ?thesis using conn_keeps [OF c] by (simp add: newBackoff_def)
qed

text \<open>The members are dialled in order only by later operations: the first dial decides.\<close>

lemma DialCluster_first_only:
  "dial (snd (splitMember m)) = Some e \<Longrightarrow> DialCluster dial (m # ms) = Inl (CE_Client e)"
  by (simp add: DialCluster_def conn_def)

section \<open>Lemmas on the loop\<close>

lemma wait_true: "wait j bo n False"
  by (simp add: wait_def)

lemma redirectLoop_bounded:
  assumes "cluster_inv cc" "redirectLoop env k cc = (r, cc', cs)" "int k < bo_attempts (cc_bo cc)"
  shows "int (length cs) + int k \<le> bo_attempts (cc_bo cc) \<and> cluster_inv cc' \<and> set cs \<subseteq> set (cc_addrs cc) \<and>
     (\<forall>v. r = Inr v \<longrightarrow> (\<exists>i. cs \<noteq> [] \<and> at_fn (env i) (last cs) = Inr v))"
  using assms
proof (induction env k cc arbitrary: r cc' cs rule: redirectLoop.induct)
  case (1 env k cc)
  obtain x cc1 where x: "conn (at_dial (env k)) (begin_attempt (env k) cc) = (x, cc1)" by fastforce
  have bo: "cc_bo cc1 = cc_bo cc" "cc_addrs cc1 = cc_addrs cc"
    using conn_bo [of "at_dial (env k)" "begin_attempt (env k) cc"] by (simp_all add: x)
  have i1: "cluster_inv cc1" "\<And>c. x = Inr c \<Longrightarrow> c \<in> set (cc_addrs cc)"
    using conn_inv [OF begin_inv [OF "1.prems"(1)] x] by simp_all
  note ih = "1.IH" [OF refl refl refl x [symmetric]]
  show ?case
  proof (cases x)
    case (Inl e)
    show ?thesis
    proof (cases "e = ErrClosed \<or> int k + 1 \<ge> bo_attempts (cc_bo cc) \<or>
        \<not> wait (at_jitter (env k)) (cc_bo cc) (int k + 1) (at_fired (env k))")
      case True
      then have "cs = [] \<and> cc' = cc1 \<and> (\<forall>v. r \<noteq> Inr v)"
        using "1.prems"(2) by (auto simp: redirectLoop.simps [of env k cc] Let_def x Inl split: if_splits)
      then show ?thesis using i1 "1.prems"(3) by simp
    next
      case False
      then have "redirectLoop env (Suc k) (redirect [] cc1) = (r, cc', cs)"
        using "1.prems"(2) by (simp add: redirectLoop.simps [of env k cc] Let_def x Inl)
      then show ?thesis
        using ih(1) [OF Inl _ _ _ redirect_inv [OF i1(1)]] False bo by auto
    qed
  next
    case (Inr c)
    show ?thesis
    proof (cases "\<exists>e h. at_fn (env k) c = Inl e \<and> retry_hint e = Some h \<and> int k + 1 < bo_attempts (cc_bo cc) \<and>
        wait (at_jitter (env k)) (cc_bo cc) (int k + 1) (at_fired (env k))")
      case False
      then have "cs = [c] \<and> cc' = cc1 \<and> (\<forall>v. r = Inr v \<longrightarrow> at_fn (env k) c = Inr v)"
        using "1.prems"(2)
        by (cases "at_fn (env k) c")
           (auto simp: redirectLoop.simps [of env k cc] Let_def x Inr split: if_splits option.splits)
      then show ?thesis using i1 Inr "1.prems"(3) by auto
    next
      case True
      then obtain e h where e: "at_fn (env k) c = Inl e" "retry_hint e = Some h" "int k + 1 < bo_attempts (cc_bo cc)"
        "wait (at_jitter (env k)) (cc_bo cc) (int k + 1) (at_fired (env k))" by blast
      obtain cs1 where l: "redirectLoop env (Suc k) (redirect h cc1) = (r, cc', cs1)" "cs = c # cs1"
        using "1.prems"(2) e by (auto simp: redirectLoop.simps [of env k cc] Let_def x Inr split: prod.splits)
      then show ?thesis
        using ih(2) [OF Inr e(1,2) _ _ redirect_inv [OF i1(1)] l(1)] e(3,4) bo i1(2) [OF Inr] by auto
    qed
  qed
qed

text \<open>
  A member that serves the operation, and one that passes it on: its dial may fail, and on a connection it
  answers with an error that is retried, whose hint is unknown or names a member that serves.
\<close>

definition serves :: "'r attempt_env \<Rightarrow> string \<Rightarrow> bool" where
  "serves at a \<longleftrightarrow> at_dial at a = None \<and> (\<exists>v. at_fn at a = Inr v)"

definition passes :: "'r attempt_env \<Rightarrow> cluster \<Rightarrow> string \<Rightarrow> bool" where
  "passes at cc a \<longleftrightarrow> at_dial at a \<noteq> Some ErrClosed \<and>
     (\<exists>e h. at_fn at a = Inl e \<and> retry_hint e = Some h \<and>
        (h = [] \<or> map_of (cc_byID cc) h = None \<or>
         (\<exists>a'. map_of (cc_byID cc) h = Some a' \<and> a' \<in> set (cc_addrs cc) \<and> serves at a')))"

definition open_at :: "cluster \<Rightarrow> bool" where
  "open_at cc \<longleftrightarrow> \<not> cc_closed cc \<and> (cc_cur cc = None \<or> cc_cur cc = Some (cc_addrs cc ! cc_idx cc))"

definition steady :: "'r attempt_env \<Rightarrow> bool" where
  "steady at \<longleftrightarrow> \<not> at_fired at \<and> \<not> at_close at"

lemma loop_serves:
  assumes "steady at" "open_at cc" "serves at (cc_addrs cc ! cc_idx cc)"
  shows "\<exists>v. fst (redirectLoop (\<lambda>_. at) k cc) = Inr v"
  using assms
  by (auto simp: redirectLoop.simps [of "\<lambda>_. at" k cc] Let_def conn_def begin_attempt_def steady_def open_at_def serves_def)

lemma redirect_unknown:
  "h = [] \<or> map_of (cc_byID cc) h = None \<Longrightarrow>
     redirect h cc = cc\<lparr>cc_cur := None, cc_idx := (cc_idx cc + 1) mod length (cc_addrs cc)\<rparr>"
  by (auto simp: redirect_def Let_def split: option.splits)

lemma redirect_known:
  assumes "h \<noteq> []" "map_of (cc_byID cc) h = Some a" "a \<in> set (cc_addrs cc)"
  shows "cc_addrs cc ! cc_idx (redirect h cc) = a"
  using find_addr_mem [OF assms(3)] find_addr_less [of a "cc_addrs cc"] assms(1,2)
  by (auto simp: redirect_def Let_def)

text \<open>One attempt at a member that passes moves on to the next member or to one that serves.\<close>

lemma loop_passes:
  assumes "steady at" "open_at cc" "passes at cc (cc_addrs cc ! cc_idx cc)" "int k + 1 < bo_attempts (cc_bo cc)"
  obtains cc' where "fst (redirectLoop (\<lambda>_. at) k cc) = fst (redirectLoop (\<lambda>_. at) (Suc k) cc')"
    "open_at cc'" "cc_addrs cc' = cc_addrs cc" "cc_byID cc' = cc_byID cc" "cc_bo cc' = cc_bo cc"
    "cc_idx cc' = (cc_idx cc + 1) mod length (cc_addrs cc) \<or> serves at (cc_addrs cc ! cc_idx cc')"
proof -
  let ?a = "cc_addrs cc ! cc_idx cc"
  obtain e h where e: "at_fn at ?a = Inl e" "retry_hint e = Some h" "at_dial at ?a \<noteq> Some ErrClosed"
    and h: "h = [] \<or> map_of (cc_byID cc) h = None \<or>
         (\<exists>a'. map_of (cc_byID cc) h = Some a' \<and> a' \<in> set (cc_addrs cc) \<and> serves at a')"
    using assms(3) by (auto simp: passes_def)
  have w: "wait (at_jitter at) (cc_bo cc) (int k + 1) (at_fired at)" using assms(1) wait_true by (simp add: steady_def)
  obtain x cc1 where x: "conn (at_dial at) cc = (x, cc1)" by fastforce
  have k: "cc_bo cc1 = cc_bo cc" "cc_addrs cc1 = cc_addrs cc" "cc_idx cc1 = cc_idx cc" "cc_byID cc1 = cc_byID cc"
    using conn_keeps [OF x] by simp_all
  have o: "\<And>h. open_at (redirect h cc1)"
    using x assms(2) by (auto simp: open_at_def conn_def split: if_splits option.splits)
  have b: "begin_attempt at cc = cc" using assms(1) by (simp add: begin_attempt_def steady_def)
  show ?thesis
  proof (cases x)
    case (Inl d)
    then have "d \<noteq> ErrClosed" using x e(3) assms(2) by (auto simp: conn_def open_at_def split: if_splits option.splits)
    then have "fst (redirectLoop (\<lambda>_. at) k cc) = fst (redirectLoop (\<lambda>_. at) (Suc k) (redirect [] cc1))"
      using assms(4) w by (simp add: redirectLoop.simps [of "\<lambda>_. at" k cc] Let_def b x Inl)
    moreover have "cc_idx (redirect [] cc1) = (cc_idx cc + 1) mod length (cc_addrs cc)"
      using redirect_unknown [of "[]" cc1] k by simp
    ultimately show ?thesis using that [of "redirect [] cc1"] k o by simp
  next
    case (Inr c)
    then have "c = ?a" using x assms(2) by (auto simp: conn_def open_at_def split: if_splits option.splits)
    then have "fst (redirectLoop (\<lambda>_. at) k cc) = fst (redirectLoop (\<lambda>_. at) (Suc k) (redirect h cc1))"
      using assms(4) w e
      by (simp add: redirectLoop.simps [of "\<lambda>_. at" k cc] Let_def b x Inr split: prod.splits)
    moreover have "cc_idx (redirect h cc1) = (cc_idx cc + 1) mod length (cc_addrs cc) \<or>
        serves at (cc_addrs cc ! cc_idx (redirect h cc1))"
    proof (cases "h = [] \<or> map_of (cc_byID cc) h = None")
      case True
      then show ?thesis using redirect_unknown [of h cc1] k by simp
    next
      case False
      then obtain a' where "map_of (cc_byID cc) h = Some a'" "a' \<in> set (cc_addrs cc)" "serves at a'" using h by auto
      then show ?thesis using redirect_known [of h cc1 a'] False k by simp
    qed
    ultimately show ?thesis using that [of "redirect h cc1"] k o by simp
  qed
qed

lemma sweep:
  assumes "steady at" "open_at cc" "cc_idx cc < length (cc_addrs cc)"
    "\<forall>a \<in> set (cc_addrs cc). serves at a \<or> passes at cc a"
    "serves at (cc_addrs cc ! ((cc_idx cc + d) mod length (cc_addrs cc)))" "int k + int d < bo_attempts (cc_bo cc)"
  shows "\<exists>v. fst (redirectLoop (\<lambda>_. at) k cc) = Inr v"
  using assms
proof (induction d arbitrary: k cc)
  case 0
  then show ?case using loop_serves [of at cc k] by simp
next
  case (Suc d)
  show ?case
  proof (cases "serves at (cc_addrs cc ! cc_idx cc)")
    case True
    then show ?thesis using loop_serves Suc.prems by blast
  next
    case False
    then have p: "passes at cc (cc_addrs cc ! cc_idx cc)" using Suc.prems(3,4) nth_mem by blast
    have lt: "int k + 1 < bo_attempts (cc_bo cc)" using Suc.prems(6) by simp
    obtain cc' where c: "fst (redirectLoop (\<lambda>_. at) k cc) = fst (redirectLoop (\<lambda>_. at) (Suc k) cc')"
      "open_at cc'" "cc_addrs cc' = cc_addrs cc" "cc_byID cc' = cc_byID cc" "cc_bo cc' = cc_bo cc"
      "cc_idx cc' = (cc_idx cc + 1) mod length (cc_addrs cc) \<or> serves at (cc_addrs cc ! cc_idx cc')"
      by (rule loop_passes [OF Suc.prems(1,2) p lt])
    show ?thesis
    proof (cases "serves at (cc_addrs cc ! cc_idx cc')")
      case True
      then show ?thesis using loop_serves [OF Suc.prems(1) c(2)] c by simp
    next
      case False
      then have i: "cc_idx cc' = (cc_idx cc + 1) mod length (cc_addrs cc)" using c(6) by simp
      have "\<forall>a \<in> set (cc_addrs cc'). serves at a \<or> passes at cc' a" using Suc.prems(4) c by (simp add: passes_def)
      moreover have "cc_idx cc' < length (cc_addrs cc')" 
        unfolding i c(3) by (rule mod_less_divisor) (use Suc.prems(3) in linarith)
      moreover have "(cc_idx cc' + d) mod length (cc_addrs cc') = (cc_idx cc + Suc d) mod length (cc_addrs cc)"
        using i c by (simp add: mod_simps)
      ultimately show ?thesis using Suc.IH [OF Suc.prems(1) c(2), of "Suc k"] Suc.prems(5,6) c by simp
    qed
  qed
qed

section \<open>Properties\<close>

text \<open>A redirect storm ends: the loop runs the operation at most as often as the attempt limit says, only on
  members of the cluster, keeps the member index in range, and reports success only with the value of the last
  operation it ran.\<close>
theorem redirect_loop_bounded:
  assumes "cluster_inv cc" "redirectLoop env 0 cc = (r, cc', cs)"
  shows "int (length cs) \<le> bo_attempts (cc_bo cc) \<and> set cs \<subseteq> set (cc_addrs cc) \<and> cluster_inv cc' \<and>
     (\<forall>v. r = Inr v \<longrightarrow> (\<exists>i. cs \<noteq> [] \<and> at_fn (env i) (last cs) = Inr v))"
proof -
  have "int 0 < bo_attempts (cc_bo cc)" using assms(1) by (simp add: cluster_inv_def)
  from redirectLoop_bounded [OF assms this] show ?thesis by simp
qed

text \<open>C15: The client finds the leader.  On a freshly dialled cluster of at most ten members, if one member serves the
  operation and every other passes it on (it cannot be dialled, the connection dies, or it answers NOTLEADER with an
  unknown hint or with one that names a serving member), the operation succeeds.\<close>
theorem sweep_finds_leader:
  assumes "DialCluster dial ms = Inr cc" "length ms \<le> 10" "steady at"
    and "leader \<in> set (cc_addrs cc)" "serves at leader"
    and "\<forall>a \<in> set (cc_addrs cc). serves at a \<or> passes at cc a"
  shows "\<exists>v. fst (redirectLoop (\<lambda>_. at) 0 cc) = Inr v"
proof -
  have i: "cluster_inv cc" "bo_attempts (cc_bo cc) = 10" "length (cc_addrs cc) = length ms"
    using DialCluster_inv [OF assms(1)] by simp_all
  have o: "open_at cc" "cc_idx cc = 0"
    using assms(1) by (auto simp: DialCluster_def conn_def open_at_def split: if_splits option.splits)
  obtain d where d: "d < length (cc_addrs cc)" "cc_addrs cc ! d = leader" using assms(4) by (auto simp: in_set_conv_nth)
  show ?thesis
    by (rule sweep [OF assms(3) o(1) _ assms(6), of d 0]) (use d o i assms(2,5) in \<open>simp_all add: cluster_inv_def\<close>)
qed

text \<open>The delay before a retry is never negative, never above the ceiling and never above the base doubled for each
  retry, also where the shift overflows 64 bits: the fraction taken of it is between nothing and all.\<close>
theorem delay_bounds:
  assumes "\<forall>d. 0 \<le> d \<longrightarrow> 0 \<le> jitter d \<and> jitter d \<le> d" "0 < sint (bo_base bo)" "0 \<le> sint (bo_max bo)" "1 \<le> attempt"
  shows "0 \<le> delay jitter bo attempt \<and> delay jitter bo attempt \<le> sint (bo_max bo) \<and>
     delay jitter bo attempt \<le> sint (bo_base bo) * 2 ^ nat (attempt - 1)"
proof -
  let ?d = "sint (push_bit (nat (attempt - 1)) (bo_base bo))"
  let ?e = "if ?d \<le> 0 \<or> ?d > sint (bo_max bo) then sint (bo_max bo) else ?d"
  have m: "sint (bo_max bo) < 2 ^ 63"
    using sint_u64 [of "bo_max bo"] uint_bounded [of "bo_max bo"] by (simp split: if_splits)
  note sh = sint_shift [OF assms(2), of "nat (attempt - 1)"]
  consider "?d \<le> 0" | "0 < ?d" "?d > sint (bo_max bo)" | "0 < ?d" "?d \<le> sint (bo_max bo)" by linarith
  then have "0 \<le> ?e \<and> ?e \<le> sint (bo_max bo) \<and> ?e \<le> sint (bo_base bo) * 2 ^ nat (attempt - 1)"
  proof cases
    case 1
    then show ?thesis using sh(2) m assms(3) by simp
  next
    case 2
    then show ?thesis using sh(1) assms(3) by simp
  next
    case 3
    then show ?thesis using sh(1) by simp
  qed
  moreover have "delay jitter bo attempt = jitter ?e" using assms(4) by (simp add: delay_def Let_def)
  ultimately show ?thesis using assms(1) [rule_format, of ?e] by linarith
qed

section \<open>Witnesses\<close>

definition sample_members :: "string list" where
  "sample_members = [''n1@a:1'', ''n2@b:1'', ''c:1'']"

definition sample_at :: "nat attempt_env" where
  "sample_at = \<lparr>at_dial = (\<lambda>a. if a = ''b:1'' then Some ErrTransport else None),
     at_fn = (\<lambda>a. if a = ''c:1'' then Inr 7 else if a = ''a:1'' then Inl (ErrNotLeader ''n9'') else Inl ErrTransport),
     at_jitter = id, at_fired = False, at_close = False\<rparr>"

lemma sample_dial:
  "\<exists>cc. DialCluster (at_dial sample_at) sample_members = Inr cc \<and> cc_addrs cc = [''a:1'', ''b:1'', ''c:1''] \<and>
     cc_byID cc = [(''n1'', ''a:1''), (''n2'', ''b:1'')]"
  by (simp add: DialCluster_def sample_members_def conn_def sample_at_def splitMember_def Cut_def Let_def)

theorem redirect_loop_bounded_witness:
  "\<exists>cc r cc' cs. DialCluster (at_dial sample_at) sample_members = Inr cc \<and>
     redirectLoop (\<lambda>_. sample_at) 0 cc = (r, cc', cs) \<and> length cs \<le> 10 \<and> cluster_inv cc'"
proof -
  obtain cc where d: "DialCluster (at_dial sample_at) sample_members = Inr cc" using sample_dial by blast
  obtain r cc' cs where l: "redirectLoop (\<lambda>_. sample_at) 0 cc = (r, cc', cs)" by (metis prod.exhaust)
  have "cluster_inv cc" "bo_attempts (cc_bo cc) = 10" using DialCluster_inv [OF d] by simp_all
  with redirect_loop_bounded [OF this(1) l] d l show ?thesis by auto
qed

theorem sweep_finds_leader_witness:
  "\<exists>cc v. DialCluster (at_dial sample_at) sample_members = Inr cc \<and> fst (redirectLoop (\<lambda>_. sample_at) 0 cc) = Inr v"
proof -
  obtain cc where d: "DialCluster (at_dial sample_at) sample_members = Inr cc"
    and a: "cc_addrs cc = [''a:1'', ''b:1'', ''c:1'']" "cc_byID cc = [(''n1'', ''a:1''), (''n2'', ''b:1'')]"
    using sample_dial by blast
  have "\<forall>x \<in> set (cc_addrs cc). serves sample_at x \<or> passes sample_at cc x"
    by (simp add: a serves_def passes_def sample_at_def)
  moreover have "steady sample_at" "serves sample_at ''c:1''" "''c:1'' \<in> set (cc_addrs cc)" "length sample_members \<le> 10"
    by (simp_all add: steady_def serves_def sample_at_def a sample_members_def)
  ultimately show ?thesis using sweep_finds_leader [OF d, of sample_at "''c:1''"] d by blast
qed

theorem delay_bounds_witness:
  "delay (\<lambda>d. d div 2) (newBackoff 20000000 500000000 10) 3 \<le> 80000000 \<and>
   delay (\<lambda>d. d div 2) (newBackoff 20000000 500000000 10) 60 \<le> 500000000"
proof -
  have j: "\<forall>d. 0 \<le> d \<longrightarrow> 0 \<le> d div 2 \<and> d div 2 \<le> (d :: int)" by auto
  have s: "sint (20000000 :: u64) = 20000000" "sint (500000000 :: u64) = 500000000"
    by (simp_all add: sint_u64)
  show ?thesis
    using delay_bounds [OF j, of "newBackoff 20000000 500000000 10" 3] delay_bounds [OF j, of "newBackoff 20000000 500000000 10" 60]
    by (simp add: newBackoff_def s)
qed

end
