(* ===== verification/Partition_Safety.thy ===== *)
theory Partition_Safety
  imports Partition_Model
begin

text \<open>
  What a partition promises over its whole life: publishes, retention sweeps, consumer activity,
  offset flushes and crashes with recovery interleave in any order.  The state is the partition
  together with the offsets file on disk.
\<close>

section \<open>Runs\<close>

type_synonym part_sys = "partition \<times> offsetsFile option"

fun offsets_found :: "offsetsFile option \<Rightarrow> offsets_read" where
  "offsets_found None = OR_Missing"
| "offsets_found (Some f) = OR_File f"

text \<open>The disk after a crash: the surviving file contents and the last complete offsets file.\<close>

definition crash_disk :: "part_sys \<Rightarrow> (u64 \<Rightarrow> bytes) \<Rightarrow> part_disk" where
  "crash_disk s d = \<lparr>pd_entries = log_entries (plog (fst s)), pd_files = d, pd_offsets = offsets_found (snd s)\<rparr>"

inductive part_step :: "int \<Rightarrow> SyncMode \<Rightarrow> u64 \<Rightarrow> part_sys \<Rightarrow> part_sys \<Rightarrow> bool" for cap mode sb where
  ps_publish: "io_write io = None \<Longrightarrow> log_room (plog p) (pub_record ts vis ri key payload) \<Longrightarrow>
    applyPublish io ts vis ri key payload p = (res, p') \<Longrightarrow> part_step cap mode sb (p, foff) (p', foff)"
| ps_sweep: "sweepPartitionRetention (\<lambda>_. False) rb rd now (plog p) = (n, bytes, l') \<Longrightarrow>
    part_step cap mode sb (p, foff) (p\<lparr>plog := l'\<rparr>, foff)"
| ps_attach: "getOrCreateConsumer cid p = (c, p') \<Longrightarrow> part_step cap mode sb (p, foff) (p', foff)"
| ps_consumer: "map_of (consumers p) cid = Some c \<Longrightarrow> cons_step threshold timeout (c, pc) (c', pc') \<Longrightarrow>
    part_step cap mode sb (p, foff) (put_consumer cid c' p, foff)"
| ps_fired: "part_step cap mode sb (p, foff) (decDelayed p, foff)"
| ps_flush: "flushOffsets fio p foff = (e, foff', p') \<Longrightarrow> part_step cap mode sb (p, foff) (p', foff')"
| ps_crash: "crash_image (plog p) d \<Longrightarrow> recoverable (plog p) \<Longrightarrow>
    openPartition open_ok cap mode sb (part_window p) (part_topic p) (part_id p) (part_dir p)
      (crash_disk (p, foff) d) hw = Inr (p', hw') \<Longrightarrow>
    part_step cap mode sb (p, foff) (p', foff)"

inductive part_reach :: "int \<Rightarrow> SyncMode \<Rightarrow> u64 \<Rightarrow> part_sys \<Rightarrow> bool" for cap mode sb where
  pr_new: "openPartition open_ok cap mode sb win topic i dir
      \<lparr>pd_entries = [], pd_files = d, pd_offsets = OR_Missing\<rparr> hw = Inr (p, hw') \<Longrightarrow>
    part_reach cap mode sb (p, None)"
| pr_step: "part_reach cap mode sb s \<Longrightarrow> part_step cap mode sb s s' \<Longrightarrow> part_reach cap mode sb s'"

section \<open>Consumers and the offsets file\<close>

lemma getOrCreate_log:
  "getOrCreateConsumer cid p = (c, p') \<Longrightarrow> plog p' = plog p \<and> pdedupe p' = pdedupe p"
  by (auto simp: getOrCreateConsumer_def Let_def split: option.splits)

lemma put_consumer_log [simp]: "plog (put_consumer cid c p) = plog p" "pdedupe (put_consumer cid c p) = pdedupe p"
  by (simp_all add: put_consumer_def)

lemma load_one_log [simp]: "plog (load_one e p) = plog p" "pdedupe (load_one e p) = pdedupe p"
  by (simp_all add: load_one_def getOrCreateConsumer_def put_consumer_def Let_def split: prod.split option.split)

lemma fold_load_log [simp]: "plog (fold load_one data p) = plog p" "pdedupe (fold load_one data p) = pdedupe p"
  by (induction data arbitrary: p) simp_all

lemma loadOffsets_log:
  "loadOffsets foff p = (e, p') \<Longrightarrow> plog p' = plog p \<and> pdedupe p' = pdedupe p"
  by (auto simp: loadOffsets_def split: offsets_read.splits)

lemma flushOffsets_log:
  "flushOffsets fio p foff = (e, foff', p') \<Longrightarrow> plog p' = plog p \<and> pdedupe p' = pdedupe p"
  by (auto simp: flushOffsets_def Let_def split: if_splits)

lemma cons_step_ack:
  assumes "cons_step th to s s'" "ack_inv (fst s)"
  shows "ack_inv (fst s') \<and> acked (fst s) \<subseteq> acked (fst s')"
  using assms
proof (induction rule: cons_step.induct)
  case (cs_ack m c e c' pc)
  show ?case
  proof (cases e)
    case None
    have "Suc (unat (lastAcked c)) < 2 ^ 64" if "hasAcked c"
      using cs_ack(2) that by (intro u64_below_max) simp
    from Ack_acked [OF _ _ this, of m c'] cs_ack None show ?thesis by auto
  next
    case (Some x)
    then show ?thesis using cs_ack by (auto simp: Ack_cases split: if_splits)
  qed
next
  case (cs_recv dn pick c c')
  then show ?case by (auto simp: credit_select_def ack_inv_def acked_def split: if_splits)
next
  case (cs_cancel dn pick c c')
  then show ?case by (auto simp: credit_select_def split: if_splits)
next
  case (cs_deliver topic part now m payload c im c')
  then have "c' = c\<lparr>inflight := AList.update m im (inflight c)\<rparr>" by (auto simp: deliver_record_def Let_def)
  with cs_deliver show ?case by (simp add: ack_inv_def acked_def)
next
  case (cs_rollback topic part now m payload c im c')
  then have "c' = c\<lparr>inflight := AList.update m im (inflight c)\<rparr>" by (auto simp: deliver_record_def Let_def)
  with cs_rollback show ?case by (simp add: ack_inv_def acked_def rollback_delivery_def)
next
  case (cs_nack now m c r c' pc)
  then have "hasAcked c' = hasAcked c \<and> lastAcked c' = lastAcked c \<and> aboveLast c' = aboveLast c"
    by (auto simp: nackOrKill_def signalWake_def Let_def split: option.splits if_splits)
  with cs_nack show ?case by (simp add: ack_inv_def acked_def)
next
  case (cs_expire now c r c' pc)
  from collectExpired_cases [OF cs_expire(1)] cs_expire(2) show ?case
    by (auto simp: ack_inv_def acked_def signalWake_def)
qed (simp_all add: ack_inv_def acked_def setPaused_def signalWake_def Let_def)

text \<open>The acknowledged set a stored offset stands for.\<close>

definition off_acked :: "consumerOffsets \<Rightarrow> u64 set" where
  "off_acked off = (if off_HasAcked off then {i. i \<le> off_LastAcked off} else {}) \<union> set (off_AboveLast off)"

definition restored :: "string \<Rightarrow> int \<Rightarrow> consumerOffsets \<Rightarrow> consumer" where
  "restored cid win off = (newConsumer cid win)\<lparr>hasAcked := off_HasAcked off, lastAcked := off_LastAcked off,
     aboveLast := fset_of_list (off_AboveLast off)\<rparr>"

lemma restored_acked: "acked (restored cid win off) = off_acked off"
  by (simp add: acked_def restored_def off_acked_def newConsumer_def fset_of_list.rep_eq)

lemma snapshot_acked: "off_acked (snapshot_one c) = acked c"
  by (simp add: off_acked_def snapshot_one_def acked_def)

lemma snapshot_inv: "ack_inv c \<Longrightarrow> ack_inv (restored cid win (snapshot_one c))"
  by (simp add: ack_inv_def restored_def snapshot_one_def newConsumer_def fset_of_list.rep_eq)

lemma load_consumers:
  assumes "map_inv data" "consumers p = []" 
  shows "map_of (consumers (fold load_one data p)) cid = map_option (restored cid (part_window p)) (map_of data cid)"
proof -
  have "map_of (consumers (fold load_one data q)) cid =
      (case map_of data cid of Some off \<Rightarrow> Some (restored cid (part_window p) off) | None \<Rightarrow> map_of (consumers q) cid)"
    if "part_window q = part_window p" "\<forall>k \<in> fst ` set data. map_of (consumers q) k = None" for q
    using that assms(1)
  proof (induction data arbitrary: q)
    case (Cons e data)
    obtain k off where e: "e = (k, off)" by (cases e)
    have n: "map_of (consumers q) k = None" using Cons.prems(2) e by simp
    have l: "load_one e q = put_consumer k (restored k (part_window p) off)
        (q\<lparr>consumers := AList.update k (newConsumer k (part_window q)) (consumers q)\<rparr>)"
      using n Cons.prems(1) by (simp add: e load_one_def getOrCreateConsumer_def restored_def newConsumer_def Let_def)
    have upd: "map_of (consumers (load_one e q)) = (map_of (consumers q))(k \<mapsto> restored k (part_window p) off)"
      by (simp add: l put_consumer_def)
    have "part_window (load_one e q) = part_window p" using Cons.prems(1) by (simp add: l put_consumer_def)
    moreover have "\<forall>k' \<in> fst ` set data. map_of (consumers (load_one e q)) k' = None"
      unfolding upd using Cons.prems(2,3) e by auto
    moreover have "map_of data k = None" using Cons.prems(3) e by (simp add: map_of_eq_None_iff)
    ultimately have "map_of (consumers (fold load_one data (load_one e q))) cid =
        (case map_of data cid of Some off \<Rightarrow> Some (restored cid (part_window p) off)
         | None \<Rightarrow> ((map_of (consumers q))(k \<mapsto> restored k (part_window p) off)) cid)"
      using Cons.IH [of "load_one e q"] Cons.prems(3) e unfolding upd by simp
    with \<open>map_of data k = None\<close> show ?case by (simp add: e split: option.split)
  qed simp
  from this [of p] assms(2) show ?thesis by (simp split: option.split)
qed

section \<open>The rebuilt index\<close>

definition keyed :: "wal_record list \<Rightarrow> wal_record list" where
  "keyed rs = filter (\<lambda>r. rec_DedupeKey r \<noteq> []) rs"

definition key_ops :: "wal_record list \<Rightarrow> dedupe_op list" where
  "key_ops rs = map (\<lambda>r. D_Insert (rec_DedupeKey r) (rec_MsgID r)) (keyed rs)"

abbreviation rebuild :: "wal_record list \<Rightarrow> dedupe \<Rightarrow> dedupe" where
  "rebuild rs d \<equiv> fold (\<lambda>r d. rebuildIndexes d r) rs d"

lemma rebuild_ops: "rebuild rs d = fold run_op (key_ops rs) d"
  by (induction rs arbitrary: d) (simp_all add: key_ops_def keyed_def rebuildIndexes_def)

lemma rebuild_ok:
  assumes "ddi.entries_ok P d" "\<And>r. r \<in> set rs \<Longrightarrow> rec_DedupeKey r \<noteq> [] \<Longrightarrow> P (rec_DedupeKey r) (rec_MsgID r)"
  shows "ddi.entries_ok P (rebuild rs d)"
  using assms
  by (induction rs arbitrary: d) (auto simp: rebuildIndexes_def intro: ddi.entries_ok_Insert)

lemma rebuild_cap: "dedupe_inv d \<Longrightarrow> dd_cap (rebuild rs d) = dd_cap d \<and> dedupe_inv (rebuild rs d)"
proof (induction rs arbitrary: d)
  case (Cons r rs)
  have "dd_cap (rebuildIndexes d r) = dd_cap d \<and> dedupe_inv (rebuildIndexes d r)"
    using run_op_inv [OF Cons(2), of "D_Insert (rec_DedupeKey r) (rec_MsgID r)"] Cons(2)
    by (simp add: rebuildIndexes_def)
  with Cons(1) show ?case by simp
qed simp

lemma entries_ok_New: "ddi.entries_ok P (NewDedupeIndex cap)"
  unfolding ddi.entries_ok_def using dedupe_inv_New by (simp add: lru_of_def) (simp add: NewDedupeIndex_def)

lemma rebuild_finds:
  assumes "rs = pre @ r # post" "rec_DedupeKey r \<noteq> []" "\<And>x. x \<in> set post \<Longrightarrow> rec_DedupeKey x \<noteq> rec_DedupeKey r"
    and "card (rec_DedupeKey ` set (keyed post)) < nat cap"
  shows "fst (dedupe_Lookup (rec_DedupeKey r) (rebuild rs (NewDedupeIndex cap))) = Some (rec_MsgID r)"
proof -
  let ?d = "rebuild pre (NewDedupeIndex cap)"
  have d: "dedupe_inv ?d" "dd_cap ?d = cap"
    using rebuild_cap [OF dedupe_inv_New, of pre cap] by (simp_all add: NewDedupeIndex_def)
  have eq: "rebuild rs (NewDedupeIndex cap) =
      fold run_op (key_ops post) (dedupe_Insert (rec_DedupeKey r) (rec_MsgID r) ?d)"
    using assms(1,2) rebuild_ops [of post] by (simp add: rebuildIndexes_def)
  have "op_key ` set (key_ops post) = rec_DedupeKey ` set (keyed post)" by (force simp: key_ops_def)
  then have c: "card (op_key ` set (key_ops post)) < nat (dd_cap ?d)" using assms(4) d by simp
  have "\<forall>w. D_Insert (rec_DedupeKey r) w \<notin> set (key_ops post)"
    using assms(3) by (fastforce simp: key_ops_def keyed_def)
  from Lookup_after_ops [OF d(1) c this] show ?thesis unfolding eq .
qed

section \<open>The invariant\<close>

definition logged :: "wlog \<Rightarrow> string \<Rightarrow> u64 \<Rightarrow> bool" where
  "logged l k v \<longleftrightarrow> (\<exists>r. rec_DedupeKey r = k \<and> rec_MsgID r = v \<and> holds (unat v) r (log_view l))"

definition file_ok :: "partition \<Rightarrow> offsetsFile option \<Rightarrow> bool" where
  "file_ok p foff \<longleftrightarrow>
     (\<forall>f. foff = Some f \<longrightarrow> map_inv f \<and>
        (\<forall>cid off. map_of f cid = Some off \<longrightarrow> ack_inv (restored cid 0 off) \<and>
           (\<exists>c. map_of (consumers p) cid = Some c \<and> off_acked off \<subseteq> acked c)))"

definition cons_ok :: "partition \<Rightarrow> bool" where
  "cons_ok p \<longleftrightarrow> map_inv (consumers p) \<and> (\<forall>cid c. map_of (consumers p) cid = Some c \<longrightarrow> ack_inv c)"

definition part_inv :: "int \<Rightarrow> SyncMode \<Rightarrow> u64 \<Rightarrow> part_sys \<Rightarrow> bool" where
  "part_inv cap mode sb s \<longleftrightarrow>
     wal_reach mode sb (plog (fst s), F_Idle) \<and>
     ddi.entries_ok (\<lambda>k v. k \<noteq> [] \<and> logged (plog (fst s)) k v) (pdedupe (fst s)) \<and>
     cons_ok (fst s) \<and> file_ok (fst s) (snd s)"

lemma wal_reach_steps: "wal_step\<^sup>*\<^sup>* s s' \<Longrightarrow> wal_reach mode sb s \<Longrightarrow> wal_reach mode sb s'"
  by (induction rule: rtranclp_induct) (auto intro: wr_step)

lemma logged_steps:
  "wal_step\<^sup>*\<^sup>* (l, f) (l', f') \<Longrightarrow> wal_inv l f R m \<Longrightarrow> logged l k v \<Longrightarrow> logged l' k v"
  by (auto simp: logged_def dest: holds_wal_steps)

lemma logged_append:
  assumes inv: "wal_inv l' f R m" and p: "append_post r l (Inr i) l'" and k: "rec_DedupeKey r = k"
    and nx: "unat (nextMsgID l) = unat (RetainedFloor l) + length (retained_records l)"
  shows "logged l' k i"
  using p k nx unfolding logged_def holds_log_view [OF inv]
  by (intro exI [of _ "stamped r l"]) (auto simp: append_post_def stamped_def nth_append)

lemma nextMsgID_eq: "wal_inv l f R m \<Longrightarrow> unat (nextMsgID l) = unat (RetainedFloor l) + length (retained_records l)"
  using retained_records_rel [of l R] by (simp add: wal_inv_def log_rel_def floor_unat)

text \<open>The effect of one publish, branch by branch.\<close>

lemma applyPublish_cases:
  assumes "applyPublish io ts vis ri key payload p = (res, p')"
    and "ddi.entries_ok P (pdedupe p)"
  obtains (hit) i d where "res = Inr (i, True)" "p' = p\<lparr>pdedupe := d\<rparr>" "key \<noteq> []"
      "fst (dedupe_Lookup key (pdedupe p)) = Some i" "ddi.entries_ok P d"
  | (stored) i l d where "res = Inr (i, False)" "append_sync io (pub_record ts vis ri key payload) (plog p) = (Inr i, l)"
      "p' = p\<lparr>plog := l, pendingDelayed := (if vis > 0 then pendingDelayed p + 1 else pendingDelayed p),
          pdedupe := (if key \<noteq> [] then dedupe_Insert key i d else d)\<rparr>" "ddi.entries_ok P d"
      "key \<noteq> [] \<Longrightarrow> fst (dedupe_Lookup key (pdedupe p)) = None"
  | (failed) e l d where "res = Inl e" "append_sync io (pub_record ts vis ri key payload) (plog p) = (Inl e, l)"
      "p' = p\<lparr>plog := l, pdedupe := d\<rparr>" "ddi.entries_ok P d"
proof -
  define look where "look = (if key \<noteq> [] then dedupe_Lookup key (pdedupe p) else (None, pdedupe p))"
  obtain o' d where lk: "look = (o', d)" by (cases look)
  have ok: "ddi.entries_ok P d"
    using lk assms(2) ddi.entries_ok_Lookup [OF assms(2), of key] by (auto simp: look_def split: if_splits)
  obtain ar l where a: "append_sync io (pub_record ts vis ri key payload) (plog p) = (ar, l)" by fastforce
  have eq: "applyPublish io ts vis ri key payload p =
     (case look of (Some existing, d) \<Rightarrow> (Inr (existing, True), p\<lparr>pdedupe := d\<rparr>)
      | (None, d) \<Rightarrow> (case (ar, l) of
             (Inl e, l) \<Rightarrow> (Inl e, p\<lparr>plog := l, pdedupe := d\<rparr>)
           | (Inr i, l) \<Rightarrow> (Inr (i, False),
                p\<lparr>plog := l, pendingDelayed := (if vis > 0 then pendingDelayed p + 1 else pendingDelayed p),
                  pdedupe := (if key \<noteq> [] then dedupe_Insert key i d else d)\<rparr>)))"
    by (simp only: applyPublish_def look_def a)
  show thesis
  proof (cases o')
    case (Some i)
    then show thesis
      using hit [of i d] assms(1) eq lk ok by (auto simp: look_def split: if_splits)
  next
    case None
    show thesis
    proof (cases ar)
      case (Inl e)
      then show thesis using failed [of e l d] assms(1) eq lk ok None a by simp
    next
      case (Inr i)
      have "key \<noteq> [] \<Longrightarrow> fst (dedupe_Lookup key (pdedupe p)) = None" using lk None by (simp add: look_def)
      then show thesis using stored [of i l d] assms(1) eq lk ok None a Inr by simp
    qed
  qed
qed

lemma cons_file_cong:
  "consumers p' = consumers p \<Longrightarrow> cons_ok p' = cons_ok p"
  "consumers p' = consumers p \<Longrightarrow> file_ok p' foff = file_ok p foff"
  by (simp_all add: cons_ok_def file_ok_def)

lemma file_okD:
  assumes "file_ok p (Some f)" "map_of f cid = Some off"
  shows "\<exists>c. map_of (consumers p) cid = Some c \<and> off_acked off \<subseteq> acked c" "ack_inv (restored cid 0 off)"
  using assms unfolding file_ok_def by blast+

lemma file_okI:
  assumes "\<And>f. foff = Some f \<Longrightarrow> map_inv f"
    and "\<And>f cid off. foff = Some f \<Longrightarrow> map_of f cid = Some off \<Longrightarrow> ack_inv (restored cid 0 off)"
    and "\<And>f cid off. foff = Some f \<Longrightarrow> map_of f cid = Some off \<Longrightarrow>
      \<exists>c. map_of (consumers p) cid = Some c \<and> off_acked off \<subseteq> acked c"
  shows "file_ok p foff"
  using assms unfolding file_ok_def by blast

lemma file_ok_grow:
  assumes "file_ok p foff"
    and "\<And>cid c. map_of (consumers p) cid = Some c \<Longrightarrow> \<exists>c'. map_of (consumers p') cid = Some c' \<and> acked c \<subseteq> acked c'"
  shows "file_ok p' foff"
proof (rule file_okI)
  show "map_inv f" if "foff = Some f" for f using assms(1) that by (simp add: file_ok_def)
next
  fix f cid off assume f: "foff = Some f" "map_of f cid = Some off"
  show "ack_inv (restored cid 0 off)" using file_okD(2) assms(1) f by blast
  show "\<exists>c. map_of (consumers p') cid = Some c \<and> off_acked off \<subseteq> acked c"
    using file_okD(1) [OF assms(1) [unfolded f(1)] f(2)] assms(2) by (meson subset_trans)
qed

lemma part_inv_publish:
  assumes inv: "part_inv cap mode sb (p, foff)" and mode: "mode \<noteq> SyncNone"
    and io: "io_write io = None" "log_room (plog p) (pub_record ts vis ri key payload)"
    and ap: "applyPublish io ts vis ri key payload p = (res, p')"
  shows "part_inv cap mode sb (p', foff)"
proof -
  obtain R m where w: "wal_inv (plog p) F_Idle R m"
    using wal_reach_inv [OF _ mode] inv by (fastforce simp: part_inv_def)
  have ok: "ddi.entries_ok (\<lambda>k v. k \<noteq> [] \<and> logged (plog p) k v) (pdedupe p)"
    using inv by (simp add: part_inv_def)
  have rest: "part_inv cap mode sb (p', foff)"
    if "consumers p' = consumers p" "wal_step\<^sup>*\<^sup>* (plog p, F_Idle) (plog p', F_Idle)"
      "ddi.entries_ok (\<lambda>k v. k \<noteq> [] \<and> logged (plog p') k v) (pdedupe p')"
    using that inv wal_reach_steps [OF that(2)] cons_file_cong [of p' p] by (simp add: part_inv_def)
  show ?thesis
  proof (cases rule: applyPublish_cases [OF ap ok, case_names hit stored failed])
    case (hit i d)
    then show ?thesis by (intro rest) simp_all
  next
    case (stored i l d)
    note st = append_sync_steps [OF io stored(2)]
    have post: "append_post (pub_record ts vis ri key payload) (plog p) (Inr i) l"
      and w': "\<exists>R' m'. wal_inv l F_Idle R' m'"
      using append_sync_post [OF w io stored(2)] by blast+
    have d: "ddi.entries_ok (\<lambda>k v. k \<noteq> [] \<and> logged l k v) d"
      by (rule ddi.entries_ok_mono [OF stored(4)]) (simp add: logged_steps [OF st w])
    have "logged l key i"
      using w' logged_append [OF _ post _ nextMsgID_eq [OF w], of F_Idle _ _ key] by (auto simp: pub_record_def)
    then have "ddi.entries_ok (\<lambda>k v. k \<noteq> [] \<and> logged l k v) (pdedupe p')"
      using d stored(3) ddi.entries_ok_Insert [OF d, of key i] by simp
    then show ?thesis using stored(3) st by (intro rest) simp_all
  next
    case (failed e l d)
    note st = append_sync_steps [OF io failed(2)]
    have "ddi.entries_ok (\<lambda>k v. k \<noteq> [] \<and> logged l k v) d"
      by (rule ddi.entries_ok_mono [OF failed(4)]) (simp add: logged_steps [OF st w])
    then show ?thesis using failed(3) st by (intro rest) simp_all
  qed
qed

lemma part_inv_log:
  assumes inv: "part_inv cap mode sb (p, foff)" and mode: "mode \<noteq> SyncNone"
    and st: "wal_step\<^sup>*\<^sup>* (plog p, F_Idle) (l', F_Idle)"
  shows "part_inv cap mode sb (p\<lparr>plog := l'\<rparr>, foff)"
proof -
  obtain R m where w: "wal_inv (plog p) F_Idle R m"
    using wal_reach_inv [OF _ mode] inv by (fastforce simp: part_inv_def)
  have "ddi.entries_ok (\<lambda>k v. k \<noteq> [] \<and> logged l' k v) (pdedupe p)"
    by (rule ddi.entries_ok_mono [of "\<lambda>k v. k \<noteq> [] \<and> logged (plog p) k v"])
       (use inv in \<open>simp_all add: part_inv_def logged_steps [OF st w]\<close>)
  with inv wal_reach_steps [OF st] cons_file_cong [of "p\<lparr>plog := l'\<rparr>" p] show ?thesis by (simp add: part_inv_def)
qed

lemma part_inv_consumers:
  assumes "part_inv cap mode sb (p, foff)" "plog p' = plog p" "pdedupe p' = pdedupe p"
    and "cons_ok p'" "file_ok p' foff'"
  shows "part_inv cap mode sb (p', foff')"
  using assms by (simp add: part_inv_def)

lemma cons_ok_update:
  assumes "cons_ok p" "ack_inv c" "consumers p' = AList.update cid c (consumers p)"
  shows "cons_ok p'"
  using assms by (auto simp: cons_ok_def)

lemma file_ok_update:
  assumes "file_ok p foff" "consumers p' = AList.update cid c (consumers p)"
    and "\<And>c0. map_of (consumers p) cid = Some c0 \<Longrightarrow> acked c0 \<subseteq> acked c"
  shows "file_ok p' foff"
  by (rule file_ok_grow [OF assms(1)]) (use assms(2,3) in auto)

lemma attach_ok:
  assumes "getOrCreateConsumer cid p = (c, p')" "cons_ok p" "file_ok p foff"
  shows "cons_ok p'" "file_ok p' foff" "map_of (consumers p') cid = Some c"
proof -
  show "map_of (consumers p') cid = Some c"
    using assms(1) by (auto simp: getOrCreateConsumer_def Let_def split: option.splits)
  have n: "ack_inv (newConsumer cid (part_window p))" by (simp add: ack_inv_def newConsumer_def)
  have "p' = p \<or> map_of (consumers p) cid = None \<and>
      consumers p' = AList.update cid (newConsumer cid (part_window p)) (consumers p)"
    using assms(1) by (auto simp: getOrCreateConsumer_def Let_def split: option.splits)
  then have "cons_ok p' \<and> file_ok p' foff"
  proof
    assume u: "map_of (consumers p) cid = None \<and>
      consumers p' = AList.update cid (newConsumer cid (part_window p)) (consumers p)"
    have "file_ok p' foff" by (rule file_ok_update [OF assms(3) conjunct2 [OF u]]) (simp add: conjunct1 [OF u])
    with cons_ok_update [OF assms(2) n conjunct2 [OF u]] show ?thesis by blast
  qed (simp add: assms)
  then show "cons_ok p'" "file_ok p' foff" by blast+
qed

lemma snapshot_map: "map_of (snapshotOffsets p) cid = map_option snapshot_one (map_of (consumers p) cid)"
  by (simp add: snapshotOffsets_def map_of_map)

lemma flush_ok:
  assumes fl: "flushOffsets fio p foff = (e, foff', p')" and ok: "cons_ok p" "file_ok p foff"
  shows "cons_ok p'" "file_ok p' foff'"
    and "\<And>cid. map_of (consumers p') cid = map_option (\<lambda>c. c\<lparr>persistDirty := False\<rparr>) (map_of (consumers p) cid)"
    and "foff' = foff \<or> foff' = Some (snapshotOffsets p')"
proof -
  have c: "consumers p' = map (\<lambda>(cid, c). (cid, c\<lparr>persistDirty := False\<rparr>)) (consumers p)"
    using fl by (auto simp: flushOffsets_def Let_def split: if_splits)
  show f: "foff' = foff \<or> foff' = Some (snapshotOffsets p')"
    using fl by (auto simp: flushOffsets_def Let_def split: if_splits)
  show m: "map_of (consumers p') cid = map_option (\<lambda>c. c\<lparr>persistDirty := False\<rparr>) (map_of (consumers p) cid)" for cid
    by (simp add: c map_of_map)
  have mi: "map_inv (consumers p')" using ok(1) by (simp add: c cons_ok_def comp_def case_prod_unfold)
  have same: "acked (c\<lparr>persistDirty := b\<rparr>) = acked c" "ack_inv (c\<lparr>persistDirty := b\<rparr>) = ack_inv c" for c b
    by (simp_all add: acked_def ack_inv_def)
  show ok': "cons_ok p'" using ok(1) mi m by (auto simp: cons_ok_def same)
  from f show "file_ok p' foff'"
  proof
    assume "foff' = foff"
    moreover have "file_ok p' foff" by (rule file_ok_grow [OF ok(2)]) (simp add: m same)
    ultimately show ?thesis by simp
  next
    assume s: "foff' = Some (snapshotOffsets p')"
    have "map_inv (snapshotOffsets p')" using mi by (simp add: snapshotOffsets_def comp_def case_prod_unfold)
    then show ?thesis
      using s ok' snapshot_inv by (auto simp: file_ok_def snapshot_map snapshot_acked cons_ok_def)
  qed
qed

section \<open>Reopening\<close>

lemma loadOffsets_found:
  assumes "\<forall>f. foff = Some f \<longrightarrow> map_inv f" "consumers q = []"
  shows "\<exists>q'. loadOffsets (offsets_found foff) q = (None, q') \<and> plog q' = plog q \<and> pdedupe q' = pdedupe q \<and>
     (\<forall>cid. map_of (consumers q') cid =
        map_option (restored cid (part_window q)) (case foff of None \<Rightarrow> None | Some f \<Rightarrow> map_of f cid))"
proof (cases foff)
  case None
  then show ?thesis using assms(2) by (simp add: loadOffsets_def)
next
  case (Some f)
  have "map_of (consumers (fold load_one f q)) cid = map_option (restored cid (part_window q)) (map_of f cid)" for cid
    by (rule load_consumers) (use assms Some in simp_all)
  then show ?thesis using Some by (simp add: loadOffsets_def)
qed

lemma openPartition_ok:
  assumes op: "Open open_ok mode sb (pd_entries pd) (pd_files pd) = Inr (l, rs)"
    and off: "pd_offsets pd = offsets_found foff" "\<forall>f. foff = Some f \<longrightarrow> map_inv f"
  shows "\<exists>p' hw'. openPartition open_ok cap mode sb win topic i dir pd hw = Inr (p', hw') \<and>
     plog p' = l \<and> pdedupe p' = rebuild rs (NewDedupeIndex cap) \<and>
     (\<forall>cid. map_of (consumers p') cid =
        map_option (restored cid win) (case foff of None \<Rightarrow> None | Some f \<Rightarrow> map_of f cid))"
proof -
  let ?q = "newPartition topic i dir l (rebuild rs (NewDedupeIndex cap)) win"
  obtain q' where "loadOffsets (offsets_found foff) ?q = (None, q')" "plog q' = l"
      "pdedupe q' = rebuild rs (NewDedupeIndex cap)"
      "\<And>cid. map_of (consumers q') cid =
        map_option (restored cid win) (case foff of None \<Rightarrow> None | Some f \<Rightarrow> map_of f cid)"
    using loadOffsets_found [OF off(2), of ?q] by (auto simp: newPartition_def)
  then show ?thesis using op off(1) by (simp add: openPartition_def Let_def)
qed

lemma consumers_inv_load: "map_inv (consumers q) \<Longrightarrow> map_inv (consumers (fold load_one data q))"
  by (induction data arbitrary: q)
     (simp_all add: load_one_def getOrCreateConsumer_def put_consumer_def Let_def split: prod.split option.split)

lemma openPartition_map_inv:
  assumes "openPartition io cap mode sb win topic i dir pd hw = Inr (p', hw')"
  shows "map_inv (consumers p')"
  using assms consumers_inv_load
  by (auto simp: openPartition_def Let_def loadOffsets_def newPartition_def split: sum.splits prod.splits option.splits
      offsets_read.splits)

lemma restored_inv: "ack_inv (restored cid win off) = ack_inv (restored cid 0 off)"
  by (simp add: ack_inv_def restored_def newConsumer_def)

lemma all_logged:
  assumes inv: "wal_inv l f R m" and eq: "committed_records l = rs" and rel: "log_rel l R" and r: "r \<in> set rs"
  shows "logged l (rec_DedupeKey r) (rec_MsgID r)"
proof -
  obtain k where k: "k < length rs" "rs ! k = r" using r by (auto simp: in_set_conv_nth)
  have "k < length (retained_records l)" "retained_records l ! k = r"
    using committed_prefix [OF inv] k by (auto simp: eq prefix_def nth_append)
  then have "unat (rec_MsgID r) = log_floor l + k"
    using ids_from_nth [OF conjunct2 [OF log_rel_all [OF rel]], of k] retained_records_rel [OF rel] by auto
  then show ?thesis
    unfolding logged_def holds_log_view [OF inv] using k by (intro exI [of _ r]) (simp add: eq floor_unat)
qed

lemma reopen:
  assumes inv: "part_inv cap mode sb (p, foff)" and mode: "mode \<noteq> SyncNone"
    and cr: "crash_image (plog p) d" "recoverable (plog p)"
  obtains p' hw' rs where
    "openPartition open_ok cap mode sb win topic i dir (crash_disk (p, foff) d) hw = Inr (p', hw')"
    "pdedupe p' = rebuild rs (NewDedupeIndex cap)"
    "prefix rs (retained_records (plog p))" "RetainedFloor (plog p') = RetainedFloor (plog p)"
    "committed_records (plog p') = rs" "wal_reach mode sb (plog p', F_Idle)"
    "\<And>n r. holds n r (log_view (plog p)) \<Longrightarrow> holds n r (log_view (plog p'))"
    "\<And>cid. map_of (consumers p') cid =
        map_option (restored cid win) (case foff of None \<Rightarrow> None | Some f \<Rightarrow> map_of f cid)"
proof -
  have reach: "wal_reach mode sb (plog p, F_Idle)" using inv by (simp add: part_inv_def)
  obtain R m where w: "wal_inv (plog p) F_Idle R m" using wal_reach_inv [OF reach mode] by auto
  obtain l rs where op: "Open open_ok mode sb (log_entries (plog p)) d = Inr (l, rs)"
    using crash_recovers_after [OF w cr(2,1) mode, of sb] by blast
  have reach': "wal_reach mode sb (l, F_Idle)" by (rule wr_crash [OF reach cr op])
  obtain R' m' where w': "wal_inv l F_Idle R' m'" using wal_reach_inv [OF reach' mode] by auto
  note hc = holds_crash [OF w cr(2,1) mode op w' Open_committed [OF op]]
  have pd: "pd_offsets (crash_disk (p, foff) d) = offsets_found foff" "\<forall>f. foff = Some f \<longrightarrow> map_inv f"
    using inv by (auto simp: crash_disk_def part_inv_def file_ok_def)
  have op': "Open open_ok mode sb (pd_entries (crash_disk (p, foff) d)) (pd_files (crash_disk (p, foff) d)) = Inr (l, rs)"
    using op by (simp add: crash_disk_def)
  obtain p' hw' where p': "openPartition open_ok cap mode sb win topic i dir (crash_disk (p, foff) d) hw = Inr (p', hw')"
      "plog p' = l" "pdedupe p' = rebuild rs (NewDedupeIndex cap)"
      "\<And>cid. map_of (consumers p') cid =
        map_option (restored cid win) (case foff of None \<Rightarrow> None | Some f \<Rightarrow> map_of f cid)"
    using openPartition_ok [OF op' pd(1,2)] by metis
  show thesis
    by (rule that [OF p'(1,3) hc(4) _ _ _ _ p'(4)]) (use hc(1,3,5) p'(2) reach' in simp_all)
qed

lemma rebuilt_entries:
  assumes reach: "wal_reach mode sb (l, F_Idle)" "mode \<noteq> SyncNone" and rs: "committed_records l = rs"
  shows "ddi.entries_ok (\<lambda>k v. k \<noteq> [] \<and> logged l k v) (rebuild rs (NewDedupeIndex cap))"
proof -
  obtain R m where w: "wal_inv l F_Idle R m" using wal_reach_inv [OF reach] by auto
  then have "log_rel l R" by (simp add: wal_inv_def)
  from all_logged [OF w rs this] show ?thesis by (intro rebuild_ok [OF entries_ok_New]) blast
qed

lemma part_inv_crash:
  assumes inv: "part_inv cap mode sb (p, foff)" and mode: "mode \<noteq> SyncNone"
    and cr: "crash_image (plog p) d" "recoverable (plog p)"
    and op: "openPartition open_ok cap mode sb win topic i dir (crash_disk (p, foff) d) hw = Inr (p', hw')"
  shows "part_inv cap mode sb (p', foff)"
proof -
  obtain q hw2 rs where r: "openPartition open_ok cap mode sb win topic i dir (crash_disk (p, foff) d) hw = Inr (q, hw2)"
      "pdedupe q = rebuild rs (NewDedupeIndex cap)" "committed_records (plog q) = rs"
      "wal_reach mode sb (plog q, F_Idle)"
      "\<And>cid. map_of (consumers q) cid =
        map_option (restored cid win) (case foff of None \<Rightarrow> None | Some f \<Rightarrow> map_of f cid)"
    by (rule reopen [OF inv mode cr, of win topic i dir hw]) blast
  then have q: "q = p'" using op by simp
  have fo: "file_ok p foff" using inv by (simp add: part_inv_def)
  have "ack_inv c" if c: "map_of (consumers q) cid = Some c" for cid c
  proof -
    obtain f off where "foff = Some f" "map_of f cid = Some off" "c = restored cid win off"
      using c unfolding r(5) by (auto split: option.splits)
    with file_okD(2) [of p f cid off] fo restored_inv [of cid win off] show ?thesis by simp
  qed
  then have "cons_ok q" using openPartition_map_inv [OF r(1)] unfolding cons_ok_def by blast
  moreover have "file_ok q foff"
  proof (rule file_okI)
    show "map_inv f" if "foff = Some f" for f using fo that by (simp add: file_ok_def)
    show "ack_inv (restored cid 0 off)" if "foff = Some f" "map_of f cid = Some off" for f cid off
      using file_okD(2) [of p f] fo that by simp
    show "\<exists>c. map_of (consumers q) cid = Some c \<and> off_acked off \<subseteq> acked c"
      if "foff = Some f" "map_of f cid = Some off" for f cid off
      using that unfolding r(5) by (simp add: restored_acked)
  qed
  ultimately show ?thesis
    using r(4) rebuilt_entries [OF r(4) mode r(3)] unfolding q [symmetric] by (simp add: part_inv_def r(2))
qed

lemma part_step_inv:
  assumes "part_step cap mode sb s s'" "part_inv cap mode sb s" "mode \<noteq> SyncNone"
  shows "part_inv cap mode sb s'"
  using assms(1,2)
proof (induction rule: part_step.induct)
  case (ps_publish io p ts vis ri key payload res p' foff)
  from part_inv_publish [OF ps_publish(4) assms(3) ps_publish(1-3)] show ?case .
next
  case (ps_sweep rb rd now p n bytes l' foff)
  from part_inv_log [OF ps_sweep(2) assms(3) sweep_steps [OF ps_sweep(1)]] show ?case .
next
  case (ps_attach cid p c p' foff)
  then have ok: "cons_ok p" "file_ok p foff" by (simp_all add: part_inv_def)
  from part_inv_consumers [OF ps_attach(2) _ _ attach_ok(1,2) [OF ps_attach(1) ok]] getOrCreate_log [OF ps_attach(1)]
  show ?case by simp
next
  case (ps_consumer p cid c threshold timeout pc c' pc' foff)
  then have ok: "cons_ok p" "file_ok p foff" by (simp_all add: part_inv_def)
  have "ack_inv c" using ok(1) ps_consumer(1) unfolding cons_ok_def by blast
  then have a: "ack_inv c'" "acked c \<subseteq> acked c'" using cons_step_ack [OF ps_consumer(2)] by simp_all
  have u: "consumers (put_consumer cid c' p) = AList.update cid c' (consumers p)" by (simp add: put_consumer_def)
  have "file_ok (put_consumer cid c' p) foff"
    by (rule file_ok_update [OF ok(2) u]) (use a(2) ps_consumer(1) in simp)
  from part_inv_consumers [OF ps_consumer(3) _ _ cons_ok_update [OF ok(1) a(1) u] this] show ?case by simp
next
  case (ps_fired p foff)
  have "consumers (decDelayed p) = consumers p" by (simp add: decDelayed_def Let_def)
  from cons_file_cong [OF this] ps_fired show ?case by (simp add: part_inv_def decDelayed_def Let_def)
next
  case (ps_flush fio p foff e foff' p')
  then have ok: "cons_ok p" "file_ok p foff" by (simp_all add: part_inv_def)
  from part_inv_consumers [OF ps_flush(2) _ _ flush_ok(1,2) [OF ps_flush(1) ok]] flushOffsets_log [OF ps_flush(1)]
  show ?case by simp
next
  case (ps_crash p d foff hw p' hw')
  from part_inv_crash [OF ps_crash(4) assms(3) ps_crash(1-3)] show ?case .
qed

lemma part_inv_new:
  assumes op: "openPartition open_ok cap mode sb win topic i dir
      \<lparr>pd_entries = [], pd_files = d, pd_offsets = OR_Missing\<rparr> hw = Inr (p, hw')"
  shows "part_inv cap mode sb (p, None)"
proof -
  let ?pd = "\<lparr>pd_entries = [], pd_files = d, pd_offsets = OR_Missing\<rparr>"
  have o: "Open open_ok mode sb (pd_entries ?pd) (pd_files ?pd) = Inr (empty_log mode sb d, [])"
    by (simp add: Open_empty)
  from openPartition_ok [OF o, of None cap win topic i dir hw] op
  have p: "plog p = empty_log mode sb d" "pdedupe p = NewDedupeIndex cap" "\<And>cid. map_of (consumers p) cid = None"
    by auto
  have "cons_ok p" using openPartition_map_inv [OF op] p(3) unfolding cons_ok_def by simp
  moreover have "wal_reach mode sb (plog p, F_Idle)" unfolding p(1) by (rule wr_init [OF Open_empty])
  ultimately show ?thesis by (simp add: part_inv_def p(2) entries_ok_New file_ok_def)
qed

lemma part_reach_inv:
  "part_reach cap mode sb s \<Longrightarrow> mode \<noteq> SyncNone \<Longrightarrow> part_inv cap mode sb s"
  by (induction rule: part_reach.induct) (auto intro: part_inv_new part_step_inv)

lemma part_step_holds:
  assumes "part_step cap mode sb s s'" "part_inv cap mode sb s" "mode \<noteq> SyncNone"
    and "holds n r (log_view (plog (fst s)))"
  shows "holds n r (log_view (plog (fst s')))"
  using assms(1,2,4)
proof (induction rule: part_step.induct)
  case (ps_publish io p ts vis ri key payload res p' foff)
  obtain R m where w: "wal_inv (plog p) F_Idle R m"
    using wal_reach_inv [OF _ assms(3)] ps_publish(4) by (fastforce simp: part_inv_def)
  have ok: "ddi.entries_ok (\<lambda>k v. k \<noteq> [] \<and> logged (plog p) k v) (pdedupe p)"
    using ps_publish(4) by (simp add: part_inv_def)
  show ?case
  proof (cases rule: applyPublish_cases [OF ps_publish(3) ok, case_names hit stored failed])
    case (hit i d)
    then show ?thesis using ps_publish(5) by simp
  next
    case (stored i l d)
    then show ?thesis
      using holds_wal_steps [OF append_sync_steps [OF ps_publish(1,2) stored(2)] w] ps_publish(5) by simp
  next
    case (failed e l d)
    then show ?thesis
      using holds_wal_steps [OF append_sync_steps [OF ps_publish(1,2) failed(2)] w] ps_publish(5) by simp
  qed
next
  case (ps_sweep rb rd now p n bytes l' foff)
  obtain R m where w: "wal_inv (plog p) F_Idle R m"
    using wal_reach_inv [OF _ assms(3)] ps_sweep(2) by (fastforce simp: part_inv_def)
  from holds_wal_steps [OF sweep_steps [OF ps_sweep(1)] w] ps_sweep(3) show ?case by simp
next
  case (ps_attach cid p c p' foff)
  then show ?case using getOrCreate_log [OF ps_attach(1)] by simp
next
  case (ps_flush fio p foff e foff' p')
  then show ?case using flushOffsets_log [OF ps_flush(1)] by simp
next
  case (ps_crash p d foff hw p' hw')
  have "holds n r (log_view (plog p'))" if "holds n r (log_view (plog p))" for n r
    by (rule reopen [OF ps_crash(4) assms(3) ps_crash(1,2), of "part_window p" "part_topic p" "part_id p"
        "part_dir p" hw]) (use ps_crash(3) that in simp)
  then show ?case using ps_crash(5) by simp
qed (simp_all add: decDelayed_def Let_def)

lemma part_steps_holds:
  assumes "(part_step cap mode sb)\<^sup>*\<^sup>* s s'" "part_inv cap mode sb s" "mode \<noteq> SyncNone"
    and "holds n r (log_view (plog (fst s)))"
  shows "holds n r (log_view (plog (fst s'))) \<and> part_inv cap mode sb s'"
  using assms(1,2,4)
proof (induction rule: rtranclp_induct)
  case (step s1 s2)
  then have ih: "holds n r (log_view (plog (fst s1)))" "part_inv cap mode sb s1" by blast+
  from part_step_holds [OF step(2) ih(2) assms(3) ih(1)] part_step_inv [OF step(2) ih(2) assms(3)] show ?case by blast
qed simp

text \<open>A sample partition with one published message.\<close>

definition fresh_part :: partition where
  "fresh_part = newPartition ''t'' 0 ''d'' (empty_log SyncPerMessage 0 (\<lambda>_. [])) (NewDedupeIndex 4) 8"

lemma fresh_reach: "part_reach 4 SyncPerMessage 0 (fresh_part, None)"
  by (rule pr_new [where d = "\<lambda>_. []" and win = 8 and topic = "''t''" and i = 0 and dir = "''d''" and hw = 0 and hw' = 0])
     (simp add: openPartition_def Open_empty loadOffsets_def fresh_part_def Let_def)

lemma sample_pub: "pub_record 7 0 5 ''k'' [1, 2, 3] = sample_rec"
  by (simp add: pub_record_def sample_rec_def)

lemma sample_publish:
  "\<exists>p1. applyPublish io_ok 7 0 5 ''k'' [1, 2, 3] fresh_part = (Inr (0, False), p1) \<and> plog p1 = sample_log \<and>
     pdedupe p1 = dedupe_Insert ''k'' 0 (NewDedupeIndex 4)"
proof -
  have "append_sync io_ok (pub_record 7 0 5 ''k'' [1, 2, 3]) (plog fresh_part) = (Inr 0, sample_log)"
    by (simp add: sample_pub append_sync_def sample_append fresh_part_def newPartition_def)
  moreover have "dedupe_Lookup ''k'' (pdedupe fresh_part) = (None, NewDedupeIndex 4)"
    by (simp add: fresh_part_def newPartition_def dedupe_Lookup_def) (simp add: NewDedupeIndex_def)
  ultimately show ?thesis by (simp add: applyPublish_def)
qed

lemma fresh_room: "log_room (plog fresh_part) (pub_record 7 0 5 ''k'' [1, 2, 3])"
  using sample_room by (simp add: sample_pub fresh_part_def newPartition_def)

lemma io_ok_write [simp]: "io_write io_ok = None" by (simp add: io_ok_def)

lemma dd_cap_Insert [simp]: "dd_cap (dedupe_Insert k v d) = dd_cap d"
  by (simp add: dedupe_Insert_def Let_def split: option.split)

lemma dd_cap_Lookup [simp]: "dd_cap (snd (dedupe_Lookup k d)) = dd_cap d"
  by (simp add: dedupe_Lookup_def split: option.split)

lemma dd_cap_rebuild [simp]: "dd_cap (rebuild rs d) = dd_cap d"
  by (induction rs arbitrary: d) (simp_all add: rebuildIndexes_def)

lemma dd_cap_publish: "dd_cap (pdedupe (snd (applyPublish io ts vis ri key payload p))) = dd_cap (pdedupe p)"
proof -
  obtain o' d where lk: "(if key \<noteq> [] then dedupe_Lookup key (pdedupe p) else (None, pdedupe p)) = (o', d)" by fastforce
  then have "dd_cap d = dd_cap (pdedupe p)" by (metis dd_cap_Lookup snd_conv)
  then show ?thesis unfolding applyPublish_def lk by (auto split: prod.splits option.splits sum.splits)
qed

lemma dd_cap_open:
  "openPartition io cap mode sb win topic i dir pd hw = Inr (p, hw') \<Longrightarrow> dd_cap (pdedupe p) = cap"
  by (auto simp: openPartition_def Let_def newPartition_def NewDedupeIndex_def
      split: sum.splits prod.splits option.splits dest!: loadOffsets_log)

lemma part_reach_cap: "part_reach cap mode sb s \<Longrightarrow> dd_cap (pdedupe (fst s)) = cap"
proof (induction rule: part_reach.induct)
  case (pr_new win topic i dir d hw p hw')
  then show ?case using dd_cap_open by simp
next
  case (pr_step s s')
  from pr_step(2,3) show ?case
  proof (induction rule: part_step.induct)
    case (ps_publish io p ts vis ri key payload res p' foff)
    then show ?case using dd_cap_publish [of io ts vis ri key payload p] by simp
  next
    case (ps_crash p d foff hw p' hw')
    then show ?case using dd_cap_open by simp
  qed (auto simp: decDelayed_def Let_def dest: getOrCreate_log flushOffsets_log)
qed

section \<open>Properties\<close>

text \<open>C6: A publish stores its message exactly once.  On every reachable partition, a publish that
  reports a duplicate leaves the log alone and names a message with that very key that was
  committed before; one that reports success appends exactly one record, with the next MsgID, and
  that record is committed; a second publish with the same key is then a duplicate of it.  A failed
  publish appends at most that record and reports no MsgID.\<close>

theorem publish_exactly_once:
  assumes "part_reach cap mode sb (p, foff)" "mode \<noteq> SyncNone" "0 < cap"
    and "io_write io = None" "log_room (plog p) (pub_record ts vis ri key payload)"
    and "applyPublish io ts vis ri key payload p = (res, p')"
  shows "case res of
      Inl e \<Rightarrow> retained_records (plog p') \<in>
          {retained_records (plog p), retained_records (plog p) @ [(pub_record ts vis ri key payload)\<lparr>rec_MsgID := nextMsgID (plog p)\<rparr>]}
    | Inr (i, True) \<Rightarrow> plog p' = plog p \<and> key \<noteq> [] \<and>
          (i < RetainedFloor (plog p) \<or>
           (\<exists>r \<in> set (committed_records (plog p)). rec_MsgID r = i \<and> rec_DedupeKey r = key))
    | Inr (i, False) \<Rightarrow> i = nextMsgID (plog p) \<and>
          retained_records (plog p') = retained_records (plog p) @ [(pub_record ts vis ri key payload)\<lparr>rec_MsgID := i\<rparr>] \<and>
          committed_records (plog p') = retained_records (plog p') \<and>
          (key \<noteq> [] \<longrightarrow> fst (applyPublish io2 ts2 vis2 ri2 key payload2 p') = Inr (i, True))"
proof -
  have inv: "part_inv cap mode sb (p, foff)" by (rule part_reach_inv [OF assms(1,2)])
  obtain R m where w: "wal_inv (plog p) F_Idle R m"
    using wal_reach_inv [OF _ assms(2)] inv by (fastforce simp: part_inv_def)
  have ok: "ddi.entries_ok (\<lambda>k v. k \<noteq> [] \<and> logged (plog p) k v) (pdedupe p)" using inv by (simp add: part_inv_def)
  show ?thesis
  proof (cases rule: applyPublish_cases [OF assms(6) ok, case_names hit stored failed])
    case (hit i d)
    have "logged (plog p) key i" using ddi.entries_ok_hit [OF ok hit(4)] by blast
    then have "i < RetainedFloor (plog p) \<or>
        (\<exists>r \<in> set (committed_records (plog p)). rec_MsgID r = i \<and> rec_DedupeKey r = key)"
      unfolding logged_def holds_log_view [OF w] by (metis nth_mem u64_less_iff)
    with hit show ?thesis by simp
  next
    case (stored i l d)
    have post: "append_post (pub_record ts vis ri key payload) (plog p) (Inr i) l"
      using append_sync_post [OF w assms(4,5) stored(2)] by blast
    have d: "dedupe_inv d" "dd_cap d = cap" if "key \<noteq> []"
      using that stored(4) part_reach_cap [OF assms(1)] dd_cap_publish [of io ts vis ri key payload p] assms(6) stored(3)
      by (auto simp: ddi.entries_ok_def)
    have "fst (dedupe_Lookup key (pdedupe p')) = Some i" if k: "key \<noteq> []"
      using Lookup_after_ops [OF d(1) [OF k], of "[]" key i] d(2) [OF k] assms(3) stored(3) k by simp
    then have "fst (applyPublish io2 ts2 vis2 ri2 key payload2 p') = Inr (i, True)" if "key \<noteq> []"
      using that by (auto simp: applyPublish_def split: prod.splits option.splits)
    with post stored show ?thesis by (simp add: append_post_def stamped_def)
  next
    case (failed e l d)
    then show ?thesis
      using append_sync_post [OF w assms(4,5) failed(2)] by (auto simp: append_post_def stamped_def)
  qed
qed

theorem publish_exactly_once_witness:
  "\<exists>p'. applyPublish io_ok 7 0 5 ''k'' [1, 2, 3] fresh_part = (Inr (0, False), p') \<and>
     committed_records (plog p') = retained_records (plog p') \<and>
     fst (applyPublish io_ok 9 0 6 ''k'' [4] p') = Inr (0, True)"
proof -
  obtain p1 where p1: "applyPublish io_ok 7 0 5 ''k'' [1, 2, 3] fresh_part = (Inr (0, False), p1)"
    using sample_publish by blast
  from publish_exactly_once [OF fresh_reach _ _ _ fresh_room p1, of io_ok 9 0 6 "[4]"] p1 show ?thesis by simp
qed



text \<open>C8: Resuming a subscription never skips an unacknowledged message.  After a crash at any
  reachable point the partition reopens with each consumer's acknowledged set no larger than it was;
  delivery then starts at or below every retained MsgID the consumer had not acknowledged, and
  the consumer is refused as out of range only if retention has reclaimed its next message.\<close>

theorem resume_never_skips:
  assumes "part_reach cap mode sb (p, foff)" "mode \<noteq> SyncNone"
    and "recoverable (plog p)" "crash_image (plog p) d"
  shows "\<exists>p3 hw'. openPartition open_ok cap mode sb win topic i dir (crash_disk (p, foff) d) hw = Inr (p3, hw') \<and>
     (let c = fst (getOrCreateConsumer cid p); c3 = fst (getOrCreateConsumer cid p3)
      in acked c3 \<subseteq> acked c \<and>
         (lastAcked c3 \<noteq> - 1 \<longrightarrow>
           (case consumerStartID (plog p3) c3 of
              (s, False) \<Rightarrow> RetainedFloor (plog p3) \<le> s \<and>
                 (\<forall>m. RetainedFloor (plog p3) \<le> m \<longrightarrow> m \<notin> acked c \<longrightarrow> s \<le> m)
            | (s, True) \<Rightarrow> lastAcked c3 + 1 \<notin> acked c3 \<and> lastAcked c3 + 1 < RetainedFloor (plog p3))))"
proof -
  have inv: "part_inv cap mode sb (p, foff)" by (rule part_reach_inv [OF assms(1,2)])
  obtain p3 hw' where r3: "openPartition open_ok cap mode sb win topic i dir (crash_disk (p, foff) d) hw = Inr (p3, hw')"
      "\<And>cid. map_of (consumers p3) cid =
        map_option (restored cid win) (case foff of None \<Rightarrow> None | Some f \<Rightarrow> map_of f cid)"
    by (rule reopen [OF inv assms(2,4,3), of win topic i dir hw]) blast
  let ?c = "fst (getOrCreateConsumer cid p)" and ?c3 = "fst (getOrCreateConsumer cid p3)"
  have "acked ?c3 \<subseteq> acked ?c \<and> ack_inv ?c3"
  proof (cases "map_of (consumers p3) cid")
    case None
    then have "?c3 = newConsumer cid (part_window p3)" by (simp add: getOrCreateConsumer_def Let_def)
    then show ?thesis by (simp add: acked_def newConsumer_def ack_inv_def)
  next
    case (Some c)
    then obtain f off where f: "foff = Some f" "map_of f cid = Some off" "c = restored cid win off"
      unfolding r3(2) by (auto split: option.splits)
    from file_okD [of p f cid off] inv f obtain c0 where
      "map_of (consumers p) cid = Some c0" "off_acked off \<subseteq> acked c0" "ack_inv (restored cid 0 off)"
      by (auto simp: part_inv_def)
    with Some f show ?thesis by (simp add: getOrCreateConsumer_def restored_acked restored_inv [of cid win])
  qed
  then have a: "acked ?c3 \<subseteq> acked ?c" "ack_inv ?c3" by blast+
  have up: "unat (lastAcked ?c3 + 1) = Suc (unat (lastAcked ?c3))" if "lastAcked ?c3 \<noteq> - 1"
    using u64_below_max [OF that] by (rule unat_Suc_no_wrap)
  have "lastAcked ?c3 + 1 \<notin> acked ?c3" if "hasAcked ?c3" "lastAcked ?c3 \<noteq> - 1"
    using acked_prefix [OF a(2)] that u64_below_max by simp
  moreover have "lastAcked ?c3 + 1 \<le> m" if "hasAcked ?c3" "lastAcked ?c3 \<noteq> - 1" "m \<notin> acked ?c" for m
  proof -
    have "\<not> m \<le> lastAcked ?c3" using that a(1) by (auto simp: acked_def)
    then show ?thesis using up [OF that(2)] by (simp add: u64_le_iff)
  qed
  ultimately have "lastAcked ?c3 \<noteq> - 1 \<longrightarrow>
           (case consumerStartID (plog p3) ?c3 of
              (s, False) \<Rightarrow> RetainedFloor (plog p3) \<le> s \<and>
                 (\<forall>m. RetainedFloor (plog p3) \<le> m \<longrightarrow> m \<notin> acked ?c \<longrightarrow> s \<le> m)
            | (s, True) \<Rightarrow> lastAcked ?c3 + 1 \<notin> acked ?c3 \<and> lastAcked ?c3 + 1 < RetainedFloor (plog p3))"
    by (simp add: consumerStartID_def Let_def not_less)
  with r3(1) a(1) show ?thesis by (auto simp: Let_def)
qed

theorem resume_never_skips_witness:
  "\<exists>p1 p3 hw'. applyPublish io_ok 7 0 5 ''k'' [1, 2, 3] fresh_part = (Inr (0, False), p1) \<and>
     openPartition open_ok 4 SyncPerMessage 0 8 ''t'' 0 ''d'' (crash_disk (p1, None) (disk sample_log)) 0 = Inr (p3, hw') \<and>
     acked (fst (getOrCreateConsumer ''c'' p3)) = {}"
proof -
  obtain p1 where p1: "applyPublish io_ok 7 0 5 ''k'' [1, 2, 3] fresh_part = (Inr (0, False), p1)" "plog p1 = sample_log"
    using sample_publish by blast
  have "consumers p1 = []"
    using p1(1) by (auto simp: applyPublish_def fresh_part_def newPartition_def split: prod.splits option.splits sum.splits)
  then have c: "acked (fst (getOrCreateConsumer ''c'' p1)) = {}"
    by (simp add: getOrCreateConsumer_def acked_def newConsumer_def Let_def)
  have "part_reach 4 SyncPerMessage 0 (p1, None)"
    by (rule pr_step [OF fresh_reach ps_publish [OF _ fresh_room p1(1)]]) simp
  from resume_never_skips [OF this, of "disk sample_log" 8 "''t''" 0 "''d''" 0 "''c''"] p1 c sample_recoverable sample_crash
  show ?thesis by (auto simp: Let_def)
qed

end
