(* ===== verification/Topic_Routing.thy ===== *)
theory Topic_Routing
  imports Partition_Safety Proto_Response
begin

text \<open>
  Topics (\<^verbatim>\<open>internal/broker/topic.go\<close>), their on-disk descriptor (\<^verbatim>\<open>meta.go\<close>) and the naming of
  dead-letter topics (\<^verbatim>\<open>dlq.go\<close>).  A partition is named by its position in the topic.
\<close>

section \<open>FNV-1a\<close>

text \<open>\<^verbatim>\<open>hash/fnv\<close> \<^verbatim>\<open>New32a\<close>: exclusive or with the byte, then a wrapping multiplication.\<close>

definition fnv32a_step :: "u32 \<Rightarrow> u8 \<Rightarrow> u32" where
  "fnv32a_step h b = (h XOR ucast b) * 16777619"

definition fnv32a :: "bytes \<Rightarrow> u32" where
  "fnv32a bs = foldl fnv32a_step 2166136261 bs"

section \<open>Topics\<close>

record topic =
  t_name :: string
  t_parts :: "partition list"
  t_rr :: u64

definition newTopic :: "string \<Rightarrow> partition list \<Rightarrow> topic" where
  "newTopic name parts = \<lparr>t_name = name, t_parts = parts, t_rr = 0\<rparr>"

definition t_count :: "topic \<Rightarrow> int" where
  "t_count t = int (length (t_parts t))"

datatype route_err = PartitionOutOfRange int int

definition route :: "int \<Rightarrow> bool \<Rightarrow> string \<Rightarrow> topic \<Rightarrow> (route_err + nat) \<times> topic" where
  "route part explicit routingKey t =
     (let n = length (t_parts t) in
      if explicit
      then (if part < 0 \<or> part \<ge> int n then (Inl (PartitionOutOfRange part (int n)), t)
            else (Inr (nat part), t))
      else if n = 1 then (Inr 0, t)
      else if routingKey \<noteq> []
      then (Inr (unat (fnv32a (bytes_of_string routingKey) mod of_nat n)), t)
      else let t' = t\<lparr>t_rr := t_rr t + 1\<rparr>
           in (Inr (unat ((t_rr t' - 1) mod of_nat n)), t'))"

definition selectPartitions :: "int \<Rightarrow> bool \<Rightarrow> topic \<Rightarrow> route_err + nat list" where
  "selectPartitions part all t =
     (if all then Inr [0..<length (t_parts t)]
      else if part < 0 \<or> part \<ge> int (length (t_parts t))
      then Inl (PartitionOutOfRange part (int (length (t_parts t))))
      else Inr [nat part])"

section \<open>The descriptor on disk\<close>

text \<open>
  What \<^verbatim>\<open>meta.json\<close> and the topic's directory look like to the operating system: reading the file
  fails, is not JSON of the right shape, or gives the value of its \<^verbatim>\<open>partitions\<close> field.
\<close>

datatype meta_read = MR_Missing | MR_Err | MR_BadJSON | MR_Partitions int

datatype stat_read = ST_Missing | ST_Err | ST_File | ST_Dir

record topic_disk =
  td_meta :: meta_read
  td_stat :: stat_read
  td_part :: "nat \<Rightarrow> part_disk"

datatype meta_err = ME_Parse | ME_Invalid int | ME_Read | ME_Stat | ME_NotDir | ME_Mkdir | ME_Write

definition topicPartitionCount :: "topic_disk \<Rightarrow> meta_err + (int \<times> bool)" where
  "topicPartitionCount d =
     (case td_meta d of
        MR_BadJSON \<Rightarrow> Inl ME_Parse
      | MR_Partitions n \<Rightarrow> (if n < 1 then Inl (ME_Invalid n) else Inr (n, True))
      | MR_Err \<Rightarrow> Inl ME_Read
      | MR_Missing \<Rightarrow>
          (case td_stat d of
             ST_Missing \<Rightarrow> Inr (0, False)
           | ST_Err \<Rightarrow> Inl ME_Stat
           | ST_File \<Rightarrow> Inl ME_NotDir
           | ST_Dir \<Rightarrow> Inr (1, True)))"

text \<open>
  \<^verbatim>\<open>writeTopicMeta\<close>: the directory is made, then the file is written in place.  When the write fails
  after the directory was made, what a later read of the file finds is the argument.
\<close>

datatype meta_io = WM_MkdirFails | WM_WriteFails meta_read | WM_OK

definition writeTopicMeta :: "meta_io \<Rightarrow> int \<Rightarrow> topic_disk \<Rightarrow> meta_err option \<times> topic_disk" where
  "writeTopicMeta io partitions d =
     (case io of
        WM_MkdirFails \<Rightarrow> (Some ME_Mkdir, d)
      | WM_WriteFails m \<Rightarrow> (Some ME_Write, d\<lparr>td_stat := ST_Dir, td_meta := m\<rparr>)
      | WM_OK \<Rightarrow> (None, d\<lparr>td_stat := ST_Dir, td_meta := MR_Partitions partitions\<rparr>))"

section \<open>Dead-letter topics\<close>

definition dlqSuffix :: string where
  "dlqSuffix = ''.dlq''"

definition isDLQTopic :: "string \<Rightarrow> bool" where
  "isDLQTopic name \<longleftrightarrow> suffix dlqSuffix name"

section \<open>Routing\<close>

lemma route_range:
  assumes "route part explicit key t = (Inr i, t')" "t_parts t \<noteq> []" "length (t_parts t) < 2 ^ 32"
  shows "i < length (t_parts t)"
proof -
  let ?n = "length (t_parts t)"
  have n32: "unat (of_nat ?n :: u32) = ?n" and n64: "unat (of_nat ?n :: u64) = ?n"
    using assms(3) by (simp_all add: unat_of_nat)
  have pos: "0 < ?n" using assms(2) by simp
  have "unat (x mod of_nat ?n) < ?n" for x :: u32
    using pos by (simp add: unat_mod n32)
  moreover have "unat (x mod of_nat ?n) < ?n" for x :: u64
    using pos by (simp add: unat_mod n64)
  ultimately show ?thesis
    using assms(1) pos by (auto simp: route_def Let_def split: if_splits)
qed

lemma route_keeps: "route part explicit key t = (r, t') \<Longrightarrow> t_parts t' = t_parts t \<and> t_name t' = t_name t"
  by (auto simp: route_def Let_def split: if_splits)

text \<open>A run of keyless publishes.\<close>

fun rr_routes :: "nat \<Rightarrow> topic \<Rightarrow> nat list" where
  "rr_routes 0 t = []"
| "rr_routes (Suc k) t = (case route 0 False [] t of (Inr i, t') \<Rightarrow> i # rr_routes k t' | (Inl _, t') \<Rightarrow> [])"

lemma rr_routes_eq:
  assumes "length (t_parts t) > 1" "length (t_parts t) < 2 ^ 32" "unat (t_rr t) + k < 2 ^ 64"
  shows "rr_routes k t = map (\<lambda>j. (unat (t_rr t) + j) mod length (t_parts t)) [0..<k]"
  using assms
proof (induction k arbitrary: t)
  case (Suc k)
  let ?n = "length (t_parts t)"
  let ?t = "t\<lparr>t_rr := t_rr t + 1\<rparr>"
  have r: "route 0 False [] t = (Inr (unat (t_rr t) mod ?n), ?t)"
    using Suc.prems by (simp add: route_def Let_def unat_mod unat_of_nat)
  have u: "unat (t_rr t + 1) = Suc (unat (t_rr t))"
    using Suc.prems by (intro unat_Suc_no_wrap) simp
  then have "rr_routes k ?t = map (\<lambda>j. (Suc (unat (t_rr t)) + j) mod ?n) [0..<k]"
    using Suc.IH [of ?t] Suc.prems by simp
  then show ?case
    by (simp add: r upt_conv_Cons map_Suc_upt [symmetric] del: upt_Suc)
qed simp

lemma keyed_route:
  assumes "key \<noteq> []"
  shows "fst (route part False key t) =
     Inr (if length (t_parts t) = 1 then 0 else unat (fnv32a (bytes_of_string key) mod of_nat (length (t_parts t))))"
  using assms by (simp add: route_def)

lemma mod_interval_perm:
  assumes "0 < n"
  shows "distinct (map (\<lambda>j. (r + j) mod n) [0..<n])" "set (map (\<lambda>j. (r + j) mod n) [0..<n]) = {0..<n}"
proof -
  have inj: "inj_on (\<lambda>j. (r + j) mod n) {0..<n}"
  proof (rule inj_onI)
    fix x y :: nat
    assume xy: "x \<in> {0..<n}" "y \<in> {0..<n}" and e: "(r + x) mod n = (r + y) mod n"
    have "(int r + int x) mod int n = (int r + int y) mod int n" using e by (metis of_nat_add zmod_int)
    then have "int x mod int n = int y mod int n" by (simp add: mod_eq_dvd_iff)
    then show "x = y" using xy by simp
  qed
  then show "distinct (map (\<lambda>j. (r + j) mod n) [0..<n])" by (simp add: distinct_map)
  have "(\<lambda>j. (r + j) mod n) ` {0..<n} \<subseteq> {0..<n}" using assms by auto
  then show "set (map (\<lambda>j. (r + j) mod n) [0..<n]) = {0..<n}"
    using inj by (simp add: endo_inj_surj)
qed

section \<open>Properties\<close>

text \<open>A publish is never routed outside its topic.  A routing key picks a partition that depends on the key
  and the number of partitions only, not on the round-robin cursor, the topic's name or what the partitions
  hold, so it picks the same one before and after a restart; an explicit partition is taken as it is or
  refused.\<close>
theorem routing_stable:
  assumes "t_parts t \<noteq> []" and "length (t_parts t) < 2 ^ 32" and "length (t_parts t2) = length (t_parts t)"
  shows "(\<forall>i t'. route part explicit key t = (Inr i, t') \<longrightarrow> i < length (t_parts t)) \<and>
     (key \<noteq> [] \<longrightarrow> fst (route part False key t) = fst (route part False key t2)) \<and>
     fst (route part True key t) =
       (if 0 \<le> part \<and> part < t_count t then Inr (nat part) else Inl (PartitionOutOfRange part (t_count t)))"
  using route_range [OF _ assms(1,2)] assms(3) keyed_route [of key part t] keyed_route [of key part t2]
  by (auto simp: route_def t_count_def)

theorem routing_stable_witness:
  "fst (route 0 False ''user-17'' (newTopic ''a'' [fresh_part, fresh_part, fresh_part])) =
     fst (route 0 False ''user-17'' ((newTopic ''b'' [fresh_part, fresh_part, fresh_part])\<lparr>t_rr := 5\<rparr>)) \<and>
   fst (route 3 True [] (newTopic ''a'' [fresh_part, fresh_part, fresh_part])) = Inl (PartitionOutOfRange 3 3)"
  using routing_stable [of "newTopic ''a'' [fresh_part, fresh_part, fresh_part]"
      "(newTopic ''b'' [fresh_part, fresh_part, fresh_part])\<lparr>t_rr := 5\<rparr>" 0 False "''user-17''"]
    routing_stable [of "newTopic ''a'' [fresh_part, fresh_part, fresh_part]"
      "(newTopic ''b'' [fresh_part, fresh_part, fresh_part])\<lparr>t_rr := 5\<rparr>" 3 True "[]"]
  by (simp add: newTopic_def t_count_def)

text \<open>Keyless publishes are spread evenly: the cursor arithmetic of the code is the rotation of the
  partition numbers, and over any run of as many publishes as there are partitions each partition is chosen
  exactly once, until the cursor wraps after a full turn of its 64 bits.\<close>
theorem round_robin_fair:
  assumes "length (t_parts t) > 1" and "length (t_parts t) < 2 ^ 32"
    and "unat (t_rr t) + k < 2 ^ 64" and "length (t_parts t) \<le> k"
  shows "rr_routes k t = map (\<lambda>j. (unat (t_rr t) + j) mod length (t_parts t)) [0..<k] \<and>
     distinct (take (length (t_parts t)) (rr_routes k t)) \<and>
     set (take (length (t_parts t)) (rr_routes k t)) = {0..<length (t_parts t)}"
proof -
  let ?n = "length (t_parts t)"
  have r: "rr_routes k t = map (\<lambda>j. (unat (t_rr t) + j) mod ?n) [0..<k]"
    by (rule rr_routes_eq [OF assms(1-3)])
  then have "take ?n (rr_routes k t) = map (\<lambda>j. (unat (t_rr t) + j) mod ?n) [0..<?n]"
    using assms(4) by (simp add: take_map)
  moreover have "0 < ?n" using assms(1) by linarith
  ultimately show ?thesis
    using r mod_interval_perm [of ?n "unat (t_rr t)"] by (simp only: simp_thms)
qed

theorem round_robin_fair_witness:
  "rr_routes 3 ((newTopic ''a'' [fresh_part, fresh_part, fresh_part])\<lparr>t_rr := 5\<rparr>) = [2, 0, 1]"
  using round_robin_fair [of "(newTopic ''a'' [fresh_part, fresh_part, fresh_part])\<lparr>t_rr := 5\<rparr>" 3]
  by (simp add: newTopic_def upt_rec)

end
