(* ===== verification/Envelope.thy ===== *)
theory Envelope
  imports Wal_Record
begin

text \<open>
  The command envelope that travels in a raft entry (\<^verbatim>\<open>internal/replication/envelope.go\<close>): its
  wire form, the decoder with every rejection, and that the two are inverse on everything the
  decoder accepts.  \<^verbatim>\<open>int32\<close> fields are 32-bit words read as signed.
\<close>

section \<open>Format\<close>

definition EnvelopeVersion :: u8 where
  "EnvelopeVersion = 1"

definition maxEnvelopeSize :: nat where
  "maxEnvelopeSize = 4 * 2 ^ 20"

datatype Kind = KindPublish | KindAck | KindNack | KindCreateTopic

fun kind_byte :: "Kind \<Rightarrow> u8" where
  "kind_byte KindPublish = 0"
| "kind_byte KindAck = 1"
| "kind_byte KindNack = 2"
| "kind_byte KindCreateTopic = 3"

definition kind_of :: "u8 \<Rightarrow> Kind option" where
  "kind_of b = (if b = 0 then Some KindPublish else if b = 1 then Some KindAck
                else if b = 2 then Some KindNack else if b = 3 then Some KindCreateTopic else None)"

datatype env_err = Env_ShortRead | Env_BadVersion | Env_BadKind | Env_TooLarge | Env_TrailingGarbage

record envelope =
  env_Kind :: Kind
  env_Topic :: string
  env_Partition :: u32
  env_DedupeKey :: string
  env_TsNs :: u64
  env_VisibleAtNs :: u64
  env_ConsumerID :: string
  env_MsgID :: u64
  env_Payload :: bytes
  env_Partitions :: u32

definition putStr :: "string \<Rightarrow> bytes" where
  "putStr s = PutUint32 (of_nat (length s)) @ bytes_of_string s"

definition env_Encode :: "envelope \<Rightarrow> bytes" where
  "env_Encode e =
     [EnvelopeVersion, kind_byte (env_Kind e)] @
     putStr (env_Topic e) @
     PutUint32 (env_Partition e) @
     putStr (env_DedupeKey e) @
     PutUint64 (env_TsNs e) @
     PutUint64 (env_VisibleAtNs e) @
     putStr (env_ConsumerID e) @
     PutUint64 (env_MsgID e) @
     PutUint32 (of_nat (length (env_Payload e))) @
     env_Payload e @
     PutUint32 (env_Partitions e)"

section \<open>Decoding\<close>

text \<open>The field readers, on the bytes from \<^verbatim>\<open>off\<close> on; \<open>None\<close> is their \<^verbatim>\<open>ok == false\<close>.\<close>

definition read_u64 :: "bytes \<Rightarrow> (u64 \<times> bytes) option" where
  "read_u64 d = (if length d < 8 then None else Some (Uint64 d, drop 8 d))"

definition read_u32 :: "bytes \<Rightarrow> (u32 \<times> bytes) option" where
  "read_u32 d = (if length d < 4 then None else Some (Uint32 d, drop 4 d))"

definition read_bytesField :: "bytes \<Rightarrow> (bytes \<times> bytes) option" where
  "read_bytesField d =
     (case read_u32 d of
        None \<Rightarrow> None
      | Some (n, d1) \<Rightarrow> (if length d1 < unat n then None else Some (take (unat n) d1, drop (unat n) d1)))"

definition read_str :: "bytes \<Rightarrow> (string \<times> bytes) option" where
  "read_str d = map_option (\<lambda>(b, d1). (string_of_bytes b, d1)) (read_bytesField d)"

text \<open>Each missing field is a short read.\<close>

definition need :: "('a \<times> bytes) option \<Rightarrow> ('a \<Rightarrow> bytes \<Rightarrow> env_err + 'b) \<Rightarrow> env_err + 'b" where
  "need r k = (case r of None \<Rightarrow> Inl Env_ShortRead | Some (v, d) \<Rightarrow> k v d)"

definition env_fields :: "Kind \<Rightarrow> bytes \<Rightarrow> env_err + envelope" where
  "env_fields kind d0 =
     need (read_str d0) (\<lambda>topic d1.
     need (read_u32 d1) (\<lambda>part d2.
     need (read_str d2) (\<lambda>key d3.
     need (read_u64 d3) (\<lambda>ts d4.
     need (read_u64 d4) (\<lambda>vis d5.
     need (read_str d5) (\<lambda>cid d6.
     need (read_u64 d6) (\<lambda>mid d7.
     need (read_bytesField d7) (\<lambda>payload d8.
     need (read_u32 d8) (\<lambda>parts d9.
       if d9 \<noteq> [] then Inl Env_TrailingGarbage
       else Inr \<lparr>env_Kind = kind, env_Topic = topic, env_Partition = part, env_DedupeKey = key,
                 env_TsNs = ts, env_VisibleAtNs = vis, env_ConsumerID = cid, env_MsgID = mid,
                 env_Payload = payload, env_Partitions = parts\<rparr>)))))))))"

definition env_Decode :: "bytes \<Rightarrow> env_err + envelope" where
  "env_Decode data =
     (if length data > maxEnvelopeSize then Inl Env_TooLarge
      else if length data < 50 then Inl Env_ShortRead
      else if hd data \<noteq> EnvelopeVersion then Inl Env_BadVersion
      else case kind_of (data ! 1) of
             None \<Rightarrow> Inl Env_BadKind
           | Some kind \<Rightarrow> env_fields kind (drop 2 data))"

section \<open>Field lemmas\<close>

lemma kind_of_byte [simp]: "kind_of (kind_byte k) = Some k"
  by (cases k) (simp_all add: kind_of_def)

lemma kind_of_Some: "kind_of b = Some k \<Longrightarrow> b = kind_byte k"
  by (auto simp: kind_of_def split: if_splits)

lemma read_u64_Put [codec]: "read_u64 (PutUint64 w @ rest) = Some (w, rest)"
  by (simp add: read_u64_def)

lemma read_u32_Put [codec]: "read_u32 (PutUint32 w @ rest) = Some (w, rest)"
  by (simp add: read_u32_def)

lemma read_bytesField_Put [codec]:
  "length b < 2 ^ 32 \<Longrightarrow> read_bytesField (PutUint32 (of_nat (length b)) @ b @ rest) = Some (b, rest)"
  by (simp add: read_bytesField_def read_u32_Put unat_of_nat_u32)

lemma read_str_Put [codec]: "length s < 2 ^ 32 \<Longrightarrow> read_str (putStr s @ rest) = Some (s, rest)"
  using read_bytesField_Put [of "bytes_of_string s" rest] by (simp add: read_str_def putStr_def)

lemma read_u64_Some: "read_u64 d = Some (w, r) \<Longrightarrow> d = PutUint64 w @ r"
  using PutUint64_Uint64 [of "take 8 d"]
  by (auto simp: read_u64_def Uint64_def split: if_splits)

lemma read_u32_Some: "read_u32 d = Some (w, r) \<Longrightarrow> d = PutUint32 w @ r"
  using PutUint32_Uint32 [of "take 4 d"]
  by (auto simp: read_u32_def Uint32_def split: if_splits)

lemma read_bytesField_Some:
  assumes "read_bytesField d = Some (b, r)"
  shows "d = PutUint32 (of_nat (length b)) @ b @ r"
proof -
  obtain n d1 where n: "read_u32 d = Some (n, d1)" "\<not> length d1 < unat n" "b = take (unat n) d1" "r = drop (unat n) d1"
    using assms by (auto simp: read_bytesField_def split: option.splits if_splits)
  then have "of_nat (length b) = n" by (simp add: min_absorb2)
  with n read_u32_Some [OF n(1)] show ?thesis by simp
qed

lemma read_str_Some: "read_str d = Some (s, r) \<Longrightarrow> d = putStr s @ r"
  by (auto simp: read_str_def putStr_def dest!: read_bytesField_Some)

lemma need_Inr: "need x k = Inr v \<longleftrightarrow> (\<exists>a d. x = Some (a, d) \<and> k a d = Inr v)"
  by (auto simp: need_def split: option.splits)

lemma need_Some [simp]: "need (Some (a, d)) k = k a d"
  by (simp add: need_def)

text \<open>The encoded fields after the version and kind bytes.\<close>

lemma length_env_Encode:
  "length (env_Encode e) = 50 + length (env_Topic e) + length (env_DedupeKey e) + length (env_ConsumerID e) +
     length (env_Payload e)"
  by (simp add: env_Encode_def putStr_def)

lemma env_fields_Encode:
  assumes "length (env_Encode e) < 2 ^ 32"
  shows "env_fields (env_Kind e) (drop 2 (env_Encode e)) = Inr e"
proof -
  have "length (env_Topic e) < 2 ^ 32" "length (env_DedupeKey e) < 2 ^ 32" "length (env_ConsumerID e) < 2 ^ 32"
    "length (env_Payload e) < 2 ^ 32"
    using assms by (simp_all add: length_env_Encode)
  then show ?thesis
    using read_u32_Put [of "env_Partitions e" "[]"]
    by (simp add: env_fields_def env_Encode_def codec)
qed

lemma env_Encode_Decode:
  assumes l: "length (env_Encode e) \<le> maxEnvelopeSize"
  shows "env_Decode (env_Encode e) = Inr e"
proof -
  have "length (env_Encode e) < 2 ^ 32" using l by (simp add: maxEnvelopeSize_def)
  from env_fields_Encode [OF this] l show ?thesis
    by (simp add: env_Decode_def length_env_Encode) (simp add: env_Encode_def)
qed

lemma env_Decode_Encode:
  assumes d: "env_Decode d = Inr e"
  shows "d = env_Encode e"
proof -
  from d obtain kind where k: "kind_of (d ! 1) = Some kind" "env_fields kind (drop 2 d) = Inr e"
      "hd d = EnvelopeVersion" "50 \<le> length d"
    by (auto simp: env_Decode_def split: if_splits option.splits)
  then obtain x y rest where xy: "d = x # y # rest" by (cases d; cases "tl d") auto
  have "rest = drop 2 (env_Encode e) \<and> env_Kind e = kind"
    using k(2) unfolding xy env_fields_def need_Inr
    by (fastforce simp: env_Encode_def need_Inr dest!: read_str_Some read_u32_Some read_u64_Some read_bytesField_Some
        split: if_splits)
  with k xy kind_of_Some [OF k(1)] show ?thesis by (simp add: env_Encode_def)
qed

lemma env_Decode_trailing:
  assumes "t \<noteq> []" "length (env_Encode e) \<le> maxEnvelopeSize"
  shows "\<exists>x. env_Decode (env_Encode e @ t) = Inl x"
proof -
  have "length (env_Topic e) < 2 ^ 32" "length (env_DedupeKey e) < 2 ^ 32" "length (env_ConsumerID e) < 2 ^ 32"
    "length (env_Payload e) < 2 ^ 32"
    using assms(2) by (simp_all add: length_env_Encode maxEnvelopeSize_def)
  then have "env_fields (env_Kind e) (drop 2 (env_Encode e @ t)) = Inl Env_TrailingGarbage"
    using assms(1) by (simp add: env_fields_def env_Encode_def codec)
  moreover have "(env_Encode e @ t) ! 1 = kind_byte (env_Kind e)" by (simp add: env_Encode_def)
  ultimately show ?thesis by (simp add: env_Decode_def)
qed

section \<open>Properties\<close>

text \<open>C25: The envelope codec is a bijection between the envelopes of at most 4 MiB and the byte
  strings the decoder accepts: encoding and decoding returns the envelope, and whatever the decoder
  accepts is the encoding of what it returns (no second spelling of a command, no unread bytes).\<close>

theorem envelope_codec:
  "(length (env_Encode e) \<le> maxEnvelopeSize \<longrightarrow> env_Decode (env_Encode e) = Inr e) \<and>
   (env_Decode d = Inr e \<longrightarrow> d = env_Encode e \<and> length d \<le> maxEnvelopeSize)"
  using env_Encode_Decode env_Decode_Encode [of d e] by (auto simp: env_Decode_def split: if_splits)

definition sample_env :: envelope where
  "sample_env = \<lparr>env_Kind = KindNack, env_Topic = ''orders'', env_Partition = 3, env_DedupeKey = [], env_TsNs = 0,
     env_VisibleAtNs = 0, env_ConsumerID = ''c1'', env_MsgID = 41, env_Payload = [], env_Partitions = 0\<rparr>"

theorem envelope_codec_witness: "env_Decode (env_Encode sample_env) = Inr sample_env"
  using envelope_codec [of sample_env "[]"] by (simp add: length_env_Encode sample_env_def maxEnvelopeSize_def)

text \<open>A truncated envelope is never misread: every proper prefix of an encoded envelope is
  rejected, and so is an encoded envelope followed by any further bytes.\<close>

theorem envelope_framing:
  assumes "length (env_Encode e) \<le> maxEnvelopeSize"
  shows "(\<forall>n < length (env_Encode e). \<exists>x. env_Decode (take n (env_Encode e)) = Inl x) \<and>
     (t \<noteq> [] \<longrightarrow> (\<exists>x. env_Decode (env_Encode e @ t) = Inl x))"
proof (intro conjI allI impI)
  fix n assume n: "n < length (env_Encode e)"
  show "\<exists>x. env_Decode (take n (env_Encode e)) = Inl x"
  proof (rule ccontr)
    assume "\<not> ?thesis"
    then obtain e' where "env_Decode (take n (env_Encode e)) = Inr e'" by (metis sumE)
    then have p: "take n (env_Encode e) = env_Encode e'" by (rule env_Decode_Encode)
    then have "env_Decode (env_Encode e' @ drop n (env_Encode e)) = Inr e"
      using env_Encode_Decode [OF assms] by (metis append_take_drop_id)
    moreover have "drop n (env_Encode e) \<noteq> []" using n by simp
    moreover have "length (env_Encode e') \<le> length (env_Encode e)" using p [symmetric] by simp
    ultimately show False using env_Decode_trailing [of "drop n (env_Encode e)" e'] assms by simp
  qed
next
  assume "t \<noteq> []"
  then show "\<exists>x. env_Decode (env_Encode e @ t) = Inl x" using env_Decode_trailing assms by blast
qed

theorem envelope_framing_witness:
  "\<exists>x. env_Decode (env_Encode sample_env @ [0]) = Inl x"
  using envelope_framing [of sample_env "[0]"] by (simp add: length_env_Encode sample_env_def maxEnvelopeSize_def)

end
