(* ===== verification/Broker_Model.thy ===== *)
theory Broker_Model
  imports Topic_Routing Envelope
begin

text \<open>
  The broker (\<^verbatim>\<open>internal/broker/broker.go\<close> and the broker-wide parts of \<^verbatim>\<open>dlq.go\<close>, \<^verbatim>\<open>redelivery.go\<close>,
  \<^verbatim>\<open>retention.go\<close>): the topic registry over the data directory, publishing, subscribing,
  acknowledging, the sweeps, and the replicated paths.  A topic's directory is found by its name;
  the outcomes of file operations and the clock are arguments.  The raft node is not part of this
  repository: its status and its \<^verbatim>\<open>Propose\<close> are parameters.
\<close>

section \<open>State\<close>

record broker_config =
  cf_dedupeCap :: int
  cf_defaultPartitions :: int
  cf_recvWindow :: int
  cf_visibilityTimeout :: int
  cf_SegmentBytes :: u64
  cf_RetainBytes :: u64
  cf_RetainDuration :: int
  cf_dlqAfterNacks :: int
  cf_sync :: SyncMode

datatype raft_role = Leader | Follower | Candidate | Role_Other

record raft_status =
  st_Role :: raft_role
  st_LeaderHint :: string
  st_Term :: u64
  st_CommitIndex :: u64
  st_ApplyIndex :: u64
  st_LastLogIndex :: u64
  st_MatchIndex :: "(string \<times> u64) list"

text \<open>A raft node as its client sees it: its id and its current status.\<close>

type_synonym raft_node = "string \<times> raft_status"

record broker =
  b_config :: broker_config
  b_disk :: "string \<Rightarrow> topic_disk"
  b_topics :: "(string \<times> topic) list"
  b_raft :: bool
  b_appliedHighWater :: u64

text \<open>The outcomes of the file operations of one call, and its clock.\<close>

record broker_io =
  bio_open :: "string \<Rightarrow> nat \<Rightarrow> open_io"
  bio_meta :: meta_io
  bio_append :: append_io
  bio_now :: int

datatype raft_err = RE_NotLeader string | RE_ProposalDropped | RE_Stopped | RE_Other string

datatype broker_err = BE_Meta meta_err | BE_Open open_err | BE_Count int int | BE_Partitions int
  | BE_Route route_err | BE_Log log_err | BE_Consumer consumer_err | BE_SubOutOfRange | BE_WaitTimeout
  | BE_Raft raft_err | BE_Panic

record ApplyResult =
  ar_MsgID :: u64
  ar_Dup :: bool

text \<open>
  \<^verbatim>\<open>Propose\<close> replicates a command and returns once it is applied on this node: the index it was
  committed at and the value of its application.  Whatever is applied meanwhile changes the broker.
\<close>

type_synonym propose = "bytes \<Rightarrow> broker \<Rightarrow> (broker_err + (u64 \<times> ApplyResult option)) \<times> broker"

section \<open>Raft views\<close>

definition AttachRaft :: "broker \<Rightarrow> broker" where
  "AttachRaft b = b\<lparr>b_raft := True\<rparr>"

definition LeaderHint :: "raft_node \<Rightarrow> broker \<Rightarrow> string" where
  "LeaderHint node b = (if \<not> b_raft b then [] else st_LeaderHint (snd node))"

definition IsLeader :: "raft_node \<Rightarrow> broker \<Rightarrow> bool" where
  "IsLeader node b \<longleftrightarrow> \<not> b_raft b \<or> st_Role (snd node) = Leader"

definition roleString :: "raft_role \<Rightarrow> string" where
  "roleString r =
     (case r of Leader \<Rightarrow> ''leader'' | Follower \<Rightarrow> ''follower'' | Candidate \<Rightarrow> ''candidate'' | _ \<Rightarrow> ''unknown'')"

record PeerStatus =
  ps_ID :: string
  ps_MatchIndex :: u64
  ps_LagEntries :: u64

record ReplicationStatus =
  rs_Role :: string
  rs_LeaderID :: string
  rs_Term :: u64
  rs_CommitIndex :: u64
  rs_ApplyIndex :: u64
  rs_LastLogIndex :: u64
  rs_Peers :: "PeerStatus list"

definition peer_status :: "u64 \<Rightarrow> string \<times> u64 \<Rightarrow> PeerStatus" where
  "peer_status lastIndex e =
     \<lparr>ps_ID = fst e, ps_MatchIndex = snd e,
      ps_LagEntries = (if lastIndex > snd e then lastIndex - snd e else 0)\<rparr>"

text \<open>Go compares strings byte by byte.\<close>

fun str_le :: "string \<Rightarrow> string \<Rightarrow> bool" where
  "str_le [] t \<longleftrightarrow> True"
| "str_le (c # s) [] \<longleftrightarrow> False"
| "str_le (c # s) (d # t) \<longleftrightarrow>
     (of_char c :: nat) < of_char d \<or> c = d \<and> str_le s t"

fun insert_peer :: "PeerStatus \<Rightarrow> PeerStatus list \<Rightarrow> PeerStatus list" where
  "insert_peer p [] = [p]"
| "insert_peer p (q # qs) = (if str_le (ps_ID p) (ps_ID q) then p # q # qs else q # insert_peer p qs)"

definition ReplicationStatus_of :: "raft_node \<Rightarrow> broker \<Rightarrow> ReplicationStatus" where
  "ReplicationStatus_of node b =
     (if \<not> b_raft b
      then \<lparr>rs_Role = ''standalone'', rs_LeaderID = [], rs_Term = 0, rs_CommitIndex = 0, rs_ApplyIndex = 0,
            rs_LastLogIndex = 0, rs_Peers = []\<rparr>
      else let st = snd node in
           \<lparr>rs_Role = roleString (st_Role st), rs_LeaderID = st_LeaderHint st, rs_Term = st_Term st,
            rs_CommitIndex = st_CommitIndex st, rs_ApplyIndex = st_ApplyIndex st,
            rs_LastLogIndex = st_LastLogIndex st,
            rs_Peers = foldr insert_peer
              (map (peer_status (st_LastLogIndex st)) (filter (\<lambda>e. fst e \<noteq> fst node) (st_MatchIndex st))) []\<rparr>)"

text \<open>\<^verbatim>\<open>raft.IsNotLeader\<close> covers the three conditions the source names.\<close>

definition NotLeaderHint :: "raft_node \<Rightarrow> broker \<Rightarrow> broker_err \<Rightarrow> string \<times> bool" where
  "NotLeaderHint node b e =
     (case e of
        BE_Raft (RE_NotLeader h) \<Rightarrow> (if h \<noteq> [] then (h, True) else (LeaderHint node b, True))
      | BE_Raft RE_ProposalDropped \<Rightarrow> (LeaderHint node b, True)
      | BE_Raft RE_Stopped \<Rightarrow> (LeaderHint node b, True)
      | _ \<Rightarrow> ([], False))"

definition followerAckCount :: "raft_node \<Rightarrow> u64 \<Rightarrow> int" where
  "followerAckCount node raftIndex =
     int (length (filter (\<lambda>(i, mi). i \<noteq> fst node \<and> mi \<ge> raftIndex) (st_MatchIndex (snd node))))"

text \<open>
  \<^verbatim>\<open>waitForReplication\<close> over the wake-ups of its \<^verbatim>\<open>select\<close>: each list element is the status read at the
  head of an iteration and the event that ends the wait of that iteration.
\<close>

datatype wait_event = WE_Notify | WE_Deadline | WE_Ctx

fun waitForReplication :: "string \<Rightarrow> u64 \<Rightarrow> int \<Rightarrow> (raft_status \<times> wait_event) list \<Rightarrow> broker_err option option" where
  "waitForReplication self raftIndex n [] = None"
| "waitForReplication self raftIndex n ((st, ev) # evs) =
     (if followerAckCount (self, st) raftIndex \<ge> n then Some None
      else case ev of
        WE_Ctx \<Rightarrow> Some (Some BE_WaitTimeout)
      | WE_Deadline \<Rightarrow> Some (Some BE_WaitTimeout)
      | WE_Notify \<Rightarrow> waitForReplication self raftIndex n evs)"

section \<open>Topics\<close>

definition topic_dir :: "string \<Rightarrow> nat \<Rightarrow> int \<Rightarrow> string" where
  "topic_dir name i cnt = ''topics/'' @ name @ (if cnt > 1 then CHR ''/'' # dec i else [])"

fun open_parts ::
    "broker_config \<Rightarrow> (nat \<Rightarrow> open_io) \<Rightarrow> string \<Rightarrow> int \<Rightarrow> (nat \<Rightarrow> part_disk) \<Rightarrow> nat list \<Rightarrow> u64 \<Rightarrow>
     open_err + (partition list \<times> u64)" where
  "open_parts cf io name cnt pd [] hw = Inr ([], hw)"
| "open_parts cf io name cnt pd (i # is) hw =
     (case openPartition (io i) (cf_dedupeCap cf) (cf_sync cf) (cf_SegmentBytes cf) (cf_recvWindow cf) name (int i)
             (topic_dir name i cnt) (pd i) hw of
        Inl e \<Rightarrow> Inl e
      | Inr (p, hw1) \<Rightarrow>
          (case open_parts cf io name cnt pd is hw1 of
             Inl e \<Rightarrow> Inl e
           | Inr (ps, hw2) \<Rightarrow> Inr (p # ps, hw2)))"

definition open_count :: "broker_config \<Rightarrow> int \<Rightarrow> int \<times> bool \<Rightarrow> int" where
  "open_count cf wantCount de =
     (let (diskCount, found) = de;
          cnt = (if found then diskCount else if wantCount > 0 then wantCount else cf_defaultPartitions cf)
      in if cnt < 1 then 1 else cnt)"

text \<open>
  A successful open of a partition makes its directory.  After a failed open the broker is
  discarded at start-up, or the registry is left as it was.
\<close>

definition openTopicLocked :: "broker_io \<Rightarrow> string \<Rightarrow> int \<Rightarrow> broker \<Rightarrow> (broker_err + topic) \<times> broker" where
  "openTopicLocked io name wantCount b =
     (case topicPartitionCount (b_disk b name) of
        Inl e \<Rightarrow> (Inl (BE_Meta e), b)
      | Inr (diskCount, found) \<Rightarrow>
          if found \<and> wantCount > 0 \<and> diskCount \<noteq> wantCount then (Inl (BE_Count diskCount wantCount), b)
          else let cnt = open_count (b_config b) wantCount (diskCount, found) in
            case (if \<not> found \<and> cnt > 1 then writeTopicMeta (bio_meta io) cnt (b_disk b name)
                  else (None, b_disk b name)) of
              (Some e, d) \<Rightarrow> (Inl (BE_Meta e), b\<lparr>b_disk := (b_disk b)(name := d)\<rparr>)
            | (None, d) \<Rightarrow>
                (case open_parts (b_config b) (bio_open io name) name cnt (td_part d) [0..<nat cnt]
                        (b_appliedHighWater b) of
                   Inl e \<Rightarrow> (Inl (BE_Open e), b\<lparr>b_disk := (b_disk b)(name := d)\<rparr>)
                 | Inr (ps, hw) \<Rightarrow>
                     let t = newTopic name ps
                     in (Inr t, b\<lparr>b_disk := (b_disk b)(name := d\<lparr>td_stat := ST_Dir\<rparr>),
                           b_topics := AList.update name t (b_topics b), b_appliedHighWater := hw\<rparr>)))"

definition getOrCreateTopic :: "broker_io \<Rightarrow> string \<Rightarrow> broker \<Rightarrow> (broker_err + topic) \<times> broker" where
  "getOrCreateTopic io name b =
     (case map_of (b_topics b) name of Some t \<Rightarrow> (Inr t, b) | None \<Rightarrow> openTopicLocked io name 0 b)"

definition createTopicLocal :: "broker_io \<Rightarrow> string \<Rightarrow> int \<Rightarrow> broker \<Rightarrow> broker_err option \<times> broker" where
  "createTopicLocal io name partitions b =
     (case map_of (b_topics b) name of
        Some t \<Rightarrow> (if t_count t \<noteq> partitions then (Some (BE_Count (t_count t) partitions), b) else (None, b))
      | None \<Rightarrow>
          (case openTopicLocked io name partitions b of (Inl e, b') \<Rightarrow> (Some e, b') | (Inr _, b') \<Rightarrow> (None, b')))"

definition proposeMutation :: "propose \<Rightarrow> envelope \<Rightarrow> broker \<Rightarrow> broker_err option \<times> broker" where
  "proposeMutation propose env b =
     (case propose (env_Encode env) b of (Inl e, b') \<Rightarrow> (Some e, b') | (Inr _, b') \<Rightarrow> (None, b'))"

definition blank_envelope :: "Kind \<Rightarrow> envelope" where
  "blank_envelope k = \<lparr>env_Kind = k, env_Topic = [], env_Partition = 0, env_DedupeKey = [], env_TsNs = 0,
     env_VisibleAtNs = 0, env_ConsumerID = [], env_MsgID = 0, env_Payload = [], env_Partitions = 0\<rparr>"

definition CreateTopic :: "propose \<Rightarrow> broker_io \<Rightarrow> string \<Rightarrow> int \<Rightarrow> broker \<Rightarrow> broker_err option \<times> broker" where
  "CreateTopic propose io name partitions b =
     (if partitions < 1 then (Some (BE_Partitions partitions), b)
      else if b_raft b
      then proposeMutation propose
             ((blank_envelope KindCreateTopic)\<lparr>env_Topic := name, env_Partitions := of_int partitions\<rparr>) b
      else createTopicLocal io name partitions b)"

definition EnsureTopic :: "broker_io \<Rightarrow> string \<Rightarrow> broker \<Rightarrow> broker_err option \<times> broker" where
  "EnsureTopic io name b =
     (case getOrCreateTopic io name b of (Inl e, b') \<Rightarrow> (Some e, b') | (Inr _, b') \<Rightarrow> (None, b'))"

definition TopicPartitions :: "broker_io \<Rightarrow> string \<Rightarrow> broker \<Rightarrow> (broker_err + int) \<times> broker" where
  "TopicPartitions io name b =
     (case getOrCreateTopic io name b of (Inl e, b') \<Rightarrow> (Inl e, b') | (Inr t, b') \<Rightarrow> (Inr (t_count t), b'))"

text \<open>Writing a topic or a partition back through its pointer.\<close>

definition put_topic :: "topic \<Rightarrow> broker \<Rightarrow> broker" where
  "put_topic t b = b\<lparr>b_topics := AList.update (t_name t) t (b_topics b)\<rparr>"

definition put_part :: "string \<Rightarrow> nat \<Rightarrow> partition \<Rightarrow> broker \<Rightarrow> broker" where
  "put_part name i p b =
     (case map_of (b_topics b) name of
        None \<Rightarrow> b | Some t \<Rightarrow> b\<lparr>b_topics := AList.update name (t\<lparr>t_parts := (t_parts t)[i := p]\<rparr>) (b_topics b)\<rparr>)"

definition partitionAt :: "broker_io \<Rightarrow> string \<Rightarrow> int \<Rightarrow> broker \<Rightarrow> (broker_err + (nat \<times> partition)) \<times> broker" where
  "partitionAt io name part b =
     (case getOrCreateTopic io name b of
        (Inl e, b') \<Rightarrow> (Inl e, b')
      | (Inr t, b') \<Rightarrow>
          (if part < 0 \<or> part \<ge> t_count t then (Inl (BE_Route (PartitionOutOfRange part (t_count t))), b')
           else (Inr (nat part, t_parts t ! nat part), b')))"

section \<open>Publishing\<close>

definition proposePublish ::
    "propose \<Rightarrow> int \<Rightarrow> string \<Rightarrow> int \<Rightarrow> string \<Rightarrow> bytes \<Rightarrow> u64 \<Rightarrow> broker \<Rightarrow>
     (broker_err + (u64 \<times> bool \<times> u64)) \<times> broker" where
  "proposePublish propose now name part dedupeKey payload delayMs b =
     (case propose (env_Encode ((blank_envelope KindPublish)\<lparr>env_Topic := name, env_Partition := of_int part,
              env_DedupeKey := dedupeKey, env_TsNs := of_int now, env_VisibleAtNs := visible_at now delayMs,
              env_Payload := payload\<rparr>)) b of
        (Inl e, b') \<Rightarrow> (Inl e, b')
      | (Inr (idx, Some ar), b') \<Rightarrow> (Inr (ar_MsgID ar, ar_Dup ar, idx), b')
      | (Inr (idx, None), b') \<Rightarrow> (Inl BE_Panic, b'))"

text \<open>The waiting part is the outcome of \<^verbatim>\<open>waitForReplication\<close> for the index of the write.\<close>

definition PublishCtx ::
    "propose \<Rightarrow> (u64 \<Rightarrow> broker_err option) \<Rightarrow> broker_io \<Rightarrow> string \<Rightarrow> string \<Rightarrow> string \<Rightarrow> int \<Rightarrow> bool \<Rightarrow> bytes \<Rightarrow> u64 \<Rightarrow>
     int \<Rightarrow> broker \<Rightarrow> (u64 \<times> int \<times> bool \<times> broker_err option) \<times> broker" where
  "PublishCtx propose waits io name dedupeKey routingKey part partitionSet payload delayMs waitReplicas b =
     (case getOrCreateTopic io name b of
        (Inl e, b1) \<Rightarrow> ((0, 0, False, Some e), b1)
      | (Inr t, b1) \<Rightarrow>
          (case route part partitionSet routingKey t of
             (Inl e, t1) \<Rightarrow> ((0, 0, False, Some (BE_Route e)), put_topic t1 b1)
           | (Inr i, t1) \<Rightarrow>
               let b2 = put_topic t1 b1; p = t_parts t1 ! i in
               if \<not> b_raft b2
               then (case publishCtx (bio_append io) (bio_now io) dedupeKey payload delayMs p of
                       (Inl e, p') \<Rightarrow> ((0, part_id p, False, Some (BE_Log e)), put_part name i p' b2)
                     | (Inr (msgID, dup), p') \<Rightarrow> ((msgID, part_id p, dup, None), put_part name i p' b2))
               else (case proposePublish propose (bio_now io) name (part_id p) dedupeKey payload delayMs b2 of
                       (Inl e, b3) \<Rightarrow> ((0, part_id p, False, Some e), b3)
                     | (Inr (msgID, dup, idx), b3) \<Rightarrow>
                         ((msgID, part_id p, dup, if waitReplicas > 0 \<and> \<not> dup then waits idx else None), b3))))"

section \<open>Dead-lettering\<close>

definition dlqThreshold :: "string \<Rightarrow> broker \<Rightarrow> int" where
  "dlqThreshold name b =
     (if cf_dlqAfterNacks (b_config b) \<le> 0 \<or> isDLQTopic name then 0 else cf_dlqAfterNacks (b_config b))"

definition dlqMoveCtx :: "propose \<Rightarrow> broker_io \<Rightarrow> string \<Rightarrow> bytes \<Rightarrow> broker \<Rightarrow> broker_err option \<times> broker" where
  "dlqMoveCtx propose io srcTopic payload b =
     (let dlqTopic = srcTopic @ dlqSuffix;
          (_, b1) = CreateTopic propose io dlqTopic 1 b;
          ((_, _, _, e), b2) = PublishCtx propose (\<lambda>_. None) io dlqTopic [] [] 0 False payload 0 0 b1
      in (e, b2))"

section \<open>Acknowledging\<close>

definition applyAck :: "broker_io \<Rightarrow> string \<Rightarrow> int \<Rightarrow> string \<Rightarrow> u64 \<Rightarrow> broker \<Rightarrow> broker_err option \<times> broker" where
  "applyAck io name part cid msgID b =
     (case partitionAt io name part b of
        (Inl e, b1) \<Rightarrow> (Some e, b1)
      | (Inr (i, p), b1) \<Rightarrow>
          (case getOrCreateConsumer cid p of
             (c, p1) \<Rightarrow>
               (case Ack msgID c of
                  (Some e, c') \<Rightarrow> (Some (BE_Consumer e), put_part name i (put_consumer cid c' p1) b1)
                | (None, c') \<Rightarrow> (None, put_part name i (put_consumer cid c' p1) b1))))"

definition AckCtx :: "propose \<Rightarrow> broker_io \<Rightarrow> string \<Rightarrow> int \<Rightarrow> string \<Rightarrow> u64 \<Rightarrow> broker \<Rightarrow> broker_err option \<times> broker" where
  "AckCtx propose io name part cid msgID b =
     (if \<not> b_raft b then applyAck io name part cid msgID b
      else proposeMutation propose ((blank_envelope KindAck)\<lparr>env_Topic := name, env_Partition := of_int part,
             env_ConsumerID := cid, env_MsgID := msgID\<rparr>) b)"

text \<open>The message to redeliver, if it was not dead-lettered.\<close>

definition applyNack ::
    "propose \<Rightarrow> broker_io \<Rightarrow> string \<Rightarrow> int \<Rightarrow> string \<Rightarrow> u64 \<Rightarrow> broker \<Rightarrow> (broker_err + inflight_msg option) \<times> broker" where
  "applyNack propose io name part cid msgID b =
     (case partitionAt io name part b of
        (Inl e, b1) \<Rightarrow> (Inl e, b1)
      | (Inr (i, p), b1) \<Rightarrow>
          (case getOrCreateConsumer cid p of
             (c, p1) \<Rightarrow>
               (case nackOrKill (bio_now io) msgID (dlqThreshold name b1) c of
                  (Inl e, c') \<Rightarrow> (Inl (BE_Consumer e), put_part name i (put_consumer cid c' p1) b1)
                | (Inr (Inl im), c') \<Rightarrow> (Inr (Some im), put_part name i (put_consumer cid c' p1) b1)
                | (Inr (Inr killed), c') \<Rightarrow>
                    (case dlqMoveCtx propose io name (inf_Payload killed) (put_part name i (put_consumer cid c' p1) b1) of
                       (_, b2) \<Rightarrow> (Inr None, b2)))))"

text \<open>The frames pushed to the session: the push is dropped when the channel has no room.\<close>

definition NackCtx ::
    "propose \<Rightarrow> broker_io \<Rightarrow> bool \<Rightarrow> string \<Rightarrow> int \<Rightarrow> string \<Rightarrow> u64 \<Rightarrow> broker \<Rightarrow>
     (broker_err option \<times> inflight_msg list) \<times> broker" where
  "NackCtx propose io room name part cid msgID b =
     (if b_raft b
      then (case proposeMutation propose ((blank_envelope KindNack)\<lparr>env_Topic := name, env_Partition := of_int part,
                   env_ConsumerID := cid, env_MsgID := msgID\<rparr>) b of
              (e, b') \<Rightarrow> ((e, []), b'))
      else (case applyNack propose io name part cid msgID b of
              (Inl e, b') \<Rightarrow> ((Some e, []), b')
            | (Inr None, b') \<Rightarrow> ((None, []), b')
            | (Inr (Some im), b') \<Rightarrow> ((None, if room then [im] else []), b')))"

section \<open>Subscribing\<close>

text \<open>
  \<^verbatim>\<open>subscribe\<close> binds the consumer to the new subscription \<open>sid\<close> and returns the previous one, which is
  cancelled and waited for before the delivery goroutine starts.
\<close>

definition subscribe :: "nat \<Rightarrow> string \<Rightarrow> partition \<Rightarrow> nat option \<times> partition" where
  "subscribe sid cid p =
     (let (c, p1) = getOrCreateConsumer cid p
      in (cons_sub c, put_consumer cid (c\<lparr>cons_sub := Some sid\<rparr>) p1))"

definition SetPaused :: "bool \<Rightarrow> string \<Rightarrow> partition \<Rightarrow> partition" where
  "SetPaused pz cid p =
     (case map_of (consumers p) cid of None \<Rightarrow> p | Some c \<Rightarrow> put_consumer cid (setPaused pz c) p)"

text \<open>One subscription per selected partition, numbered from \<open>sid\<close>; the cancelled ones are returned.\<close>

fun subscribe_parts :: "nat \<Rightarrow> string \<Rightarrow> string \<Rightarrow> nat list \<Rightarrow> broker \<Rightarrow> nat list \<times> (nat \<times> nat) list \<times> broker" where
  "subscribe_parts sid name cid [] b = ([], [], b)"
| "subscribe_parts sid name cid (i # is) b =
     (case map_of (b_topics b) name of
        None \<Rightarrow> ([], [], b)
      | Some t \<Rightarrow>
          (case subscribe sid cid (t_parts t ! i) of
             (prev, p') \<Rightarrow>
               (case subscribe_parts (Suc sid) name cid is (put_part name i p' b) of
                  (cancels, subs, b') \<Rightarrow>
                    ((case prev of None \<Rightarrow> cancels | Some s \<Rightarrow> s # cancels), (i, sid) # subs, b'))))"

definition Subscribe ::
    "broker_io \<Rightarrow> nat \<Rightarrow> string \<Rightarrow> int \<Rightarrow> bool \<Rightarrow> string \<Rightarrow> broker \<Rightarrow>
     (broker_err + (nat list \<times> (nat \<times> nat) list)) \<times> broker" where
  "Subscribe io sid name part allp cid b =
     (case getOrCreateTopic io name b of
        (Inl e, b1) \<Rightarrow> (Inl e, b1)
      | (Inr t, b1) \<Rightarrow>
          (case selectPartitions part allp t of
             Inl e \<Rightarrow> (Inl (BE_Route e), b1)
           | Inr is \<Rightarrow>
               (case subscribe_parts sid name cid is b1 of (cancels, subs, b2) \<Rightarrow> (Inr (cancels, subs), b2))))"

fun start_check :: "string \<Rightarrow> string \<Rightarrow> nat list \<Rightarrow> broker \<Rightarrow> broker_err option \<times> broker" where
  "start_check name cid [] b = (None, b)"
| "start_check name cid (i # is) b =
     (case map_of (b_topics b) name of
        None \<Rightarrow> (None, b)
      | Some t \<Rightarrow>
          (case getOrCreateConsumer cid (t_parts t ! i) of
             (c, p') \<Rightarrow>
               let b1 = put_part name i p' b
               in if snd (consumerStartID (plog p') c) then (Some BE_SubOutOfRange, b1)
                  else start_check name cid is b1))"

definition SubStartCheck :: "broker_io \<Rightarrow> string \<Rightarrow> int \<Rightarrow> bool \<Rightarrow> string \<Rightarrow> broker \<Rightarrow> broker_err option \<times> broker" where
  "SubStartCheck io name part allp cid b =
     (case getOrCreateTopic io name b of
        (Inl e, b1) \<Rightarrow> (Some e, b1)
      | (Inr t, b1) \<Rightarrow>
          (case selectPartitions part allp t of
             Inl e \<Rightarrow> (Some (BE_Route e), b1)
           | Inr is \<Rightarrow> start_check name cid is b1))"

section \<open>The replicated mutations\<close>

definition ApplyPublish ::
    "broker_io \<Rightarrow> string \<Rightarrow> int \<Rightarrow> u64 \<Rightarrow> u64 \<Rightarrow> u64 \<Rightarrow> string \<Rightarrow> bytes \<Rightarrow> broker \<Rightarrow>
     (broker_err + (u64 \<times> bool)) \<times> broker" where
  "ApplyPublish io name part tsNs visibleAtNs raftIndex dedupeKey payload b =
     (if raftIndex \<noteq> 0 \<and> raftIndex \<le> b_appliedHighWater b then (Inr (0, False), b)
      else case partitionAt io name part b of
        (Inl e, b1) \<Rightarrow> (Inl e, b1)
      | (Inr (i, p), b1) \<Rightarrow>
          (case applyPublish (bio_append io) tsNs visibleAtNs raftIndex dedupeKey payload p of
             (Inl e, p') \<Rightarrow> (Inl (BE_Log e), put_part name i p' b1)
           | (Inr r, p') \<Rightarrow> (Inr r, put_part name i p' b1)))"

definition ApplyAck :: "broker_io \<Rightarrow> string \<Rightarrow> int \<Rightarrow> string \<Rightarrow> u64 \<Rightarrow> broker \<Rightarrow> broker_err option \<times> broker" where
  "ApplyAck io name part cid msgID b = applyAck io name part cid msgID b"

definition ApplyNack ::
    "propose \<Rightarrow> broker_io \<Rightarrow> string \<Rightarrow> int \<Rightarrow> string \<Rightarrow> u64 \<Rightarrow> broker \<Rightarrow> broker_err option \<times> broker" where
  "ApplyNack propose io name part cid msgID b =
     (case applyNack propose io name part cid msgID b of (Inl e, b') \<Rightarrow> (Some e, b') | (Inr _, b') \<Rightarrow> (None, b'))"

definition ApplyCreateTopic :: "broker_io \<Rightarrow> string \<Rightarrow> int \<Rightarrow> broker \<Rightarrow> broker_err option \<times> broker" where
  "ApplyCreateTopic io name partitions b = createTopicLocal io name partitions b"

section \<open>Background work\<close>

text \<open>The partitions of all topics, as the loops snapshot them.\<close>

definition all_parts :: "broker \<Rightarrow> (string \<times> nat) list" where
  "all_parts b = concat (map (\<lambda>(name, t). map (Pair name) [0..<length (t_parts t)]) (b_topics b))"

definition get_part :: "string \<Rightarrow> nat \<Rightarrow> broker \<Rightarrow> partition option" where
  "get_part name i b =
     (case map_of (b_topics b) name of
        None \<Rightarrow> None | Some t \<Rightarrow> if i < length (t_parts t) then Some (t_parts t ! i) else None)"

fun offsets_kept :: "offsets_read \<Rightarrow> offsetsFile option" where
  "offsets_kept (OR_File f) = Some f"
| "offsets_kept _ = None"

definition flush_part :: "(string \<Rightarrow> nat \<Rightarrow> offsets_io) \<Rightarrow> string \<times> nat \<Rightarrow> broker \<Rightarrow> broker" where
  "flush_part io ni b =
     (case ni of (name, i) \<Rightarrow>
        (case get_part name i b of
           None \<Rightarrow> b
         | Some p \<Rightarrow>
             if \<not> partitionHasDirty p then b
             else (let d = b_disk b name in
                   case flushOffsets (io name i) p (offsets_kept (pd_offsets (td_part d i))) of
                     (Some e, _, p') \<Rightarrow> put_part name i p' b
                   | (None, foff, p') \<Rightarrow>
                       put_part name i p'
                         (b\<lparr>b_disk := (b_disk b)(name := d\<lparr>td_part := (td_part d)
                            (i := (td_part d i)\<lparr>pd_offsets := offsets_found foff\<rparr>)\<rparr>)\<rparr>))))"

definition flushDirty :: "(string \<Rightarrow> nat \<Rightarrow> offsets_io) \<Rightarrow> broker \<Rightarrow> broker" where
  "flushDirty io b = fold (flush_part io) (all_parts b) b"

definition reclaimEnabled :: "broker_config \<Rightarrow> bool" where
  "reclaimEnabled cf \<longleftrightarrow> cf_RetainBytes cf > 0 \<or> cf_RetainDuration cf > 0"

definition sweep_part :: "(u64 \<Rightarrow> bool) \<Rightarrow> int \<Rightarrow> string \<times> nat \<Rightarrow> broker \<Rightarrow> broker" where
  "sweep_part rm_fail now ni b =
     (case ni of (name, i) \<Rightarrow>
        (case get_part name i b of
           None \<Rightarrow> b
         | Some p \<Rightarrow>
             (case sweepPartitionRetention rm_fail (cf_RetainBytes (b_config b)) (cf_RetainDuration (b_config b)) now
                     (plog p) of
                (n, bytes, l') \<Rightarrow> put_part name i (p\<lparr>plog := l'\<rparr>) b)))"

definition sweepRetention :: "(u64 \<Rightarrow> bool) \<Rightarrow> int \<Rightarrow> broker \<Rightarrow> broker" where
  "sweepRetention rm_fail now b = fold (sweep_part rm_fail now) (all_parts b) b"

text \<open>One consumer of the redelivery sweep: the redelivery tasks, and the dead messages moved.\<close>

definition redeliver_consumer ::
    "propose \<Rightarrow> broker_io \<Rightarrow> string \<times> nat \<times> string \<Rightarrow> (nat \<times> inflight_msg) list \<times> broker \<Rightarrow>
     (nat \<times> inflight_msg) list \<times> broker" where
  "redeliver_consumer propose io nic acc =
     (case (nic, acc) of ((name, i, cid), (out, b)) \<Rightarrow>
        (case get_part name i b of
           None \<Rightarrow> (out, b)
         | Some p \<Rightarrow>
             (case map_of (consumers p) cid of
                None \<Rightarrow> (out, b)
              | Some c \<Rightarrow>
                  (case collectExpired (cf_visibilityTimeout (b_config b)) (dlqThreshold (part_topic p) b) (bio_now io) c of
                     ((tasks, dead), c') \<Rightarrow>
                       (out @ tasks,
                        fold (\<lambda>im b. snd (dlqMoveCtx propose io name (inf_Payload im) b)) dead
                          (put_part name i (put_consumer cid c' p) b))))))"

definition part_consumers :: "string \<times> nat \<Rightarrow> broker \<Rightarrow> (string \<times> nat \<times> string) list" where
  "part_consumers ni b =
     (case ni of (name, i) \<Rightarrow>
        (case get_part name i b of None \<Rightarrow> [] | Some p \<Rightarrow> map (\<lambda>(cid, c). (name, i, cid)) (consumers p)))"

definition sweepRedelivery :: "propose \<Rightarrow> broker_io \<Rightarrow> broker \<Rightarrow> (nat \<times> inflight_msg) list \<times> broker" where
  "sweepRedelivery propose io b =
     fold (\<lambda>ni acc. fold (redeliver_consumer propose io) (part_consumers ni (snd acc)) acc) (all_parts b) ([], b)"

section \<open>Start-up\<close>

definition newBroker_config :: "broker_config \<Rightarrow> broker_config" where
  "newBroker_config cf =
     cf\<lparr>cf_defaultPartitions := (if cf_defaultPartitions cf < 1 then 1 else cf_defaultPartitions cf),
        cf_recvWindow := (if cf_recvWindow cf < 1 then 256 else cf_recvWindow cf)\<rparr>"

fun recover_topics :: "broker_io \<Rightarrow> (string \<times> bool) list \<Rightarrow> broker \<Rightarrow> broker_err option \<times> broker" where
  "recover_topics io [] b = (None, b)"
| "recover_topics io ((name, isDir) # es) b =
     (if \<not> isDir then recover_topics io es b
      else case getOrCreateTopic io name b of
        (Inl e, b') \<Rightarrow> (Some e, b')
      | (Inr _, b') \<Rightarrow> recover_topics io es b')"

text \<open>\<open>entries\<close> is the listing of the topics directory, \<open>None\<close> when it cannot be read.\<close>

definition newBroker ::
    "broker_io \<Rightarrow> broker_config \<Rightarrow> (string \<Rightarrow> topic_disk) \<Rightarrow> (string \<times> bool) list option \<Rightarrow> broker option" where
  "newBroker io cf dsk entries =
     (case entries of
        None \<Rightarrow> None
      | Some es \<Rightarrow>
          (case recover_topics io es \<lparr>b_config = newBroker_config cf, b_disk = dsk, b_topics = [], b_raft = False,
                  b_appliedHighWater = 0\<rparr> of
             (Some e, _) \<Rightarrow> None
           | (None, b) \<Rightarrow> Some b))"

end

