(* ===== verification/Broker_Safety.thy ===== *)
theory Broker_Safety
  imports Broker_Model
begin

text \<open>
  What the broker promises across its components: partition counts survive restarts, replayed commands
  are not applied twice, dead letters are kept, and the replication barrier means what it says.
\<close>

section \<open>Opening topics\<close>

lemma open_parts_length:
  "open_parts cf io name cnt pd is hw = Inr (ps, hw') \<Longrightarrow> length ps = length is"
  by (induction cf io name cnt pd "is" hw arbitrary: ps hw' rule: open_parts.induct)
     (auto split: sum.splits prod.splits)

lemma openTopicLocked_cases:
  assumes "openTopicLocked io name want b = (Inr t, b')"
  obtains diskCount found cnt d ps hw where
    "topicPartitionCount (b_disk b name) = Inr (diskCount, found)"
    "\<not> (found \<and> want > 0 \<and> diskCount \<noteq> want)" "cnt = open_count (b_config b) want (diskCount, found)"
    "(if \<not> found \<and> cnt > 1 then writeTopicMeta (bio_meta io) cnt (b_disk b name) else (None, b_disk b name)) = (None, d)"
    "open_parts (b_config b) (bio_open io name) name cnt (td_part d) [0..<nat cnt] (b_appliedHighWater b) = Inr (ps, hw)"
    "t = newTopic name ps"
    "b' = b\<lparr>b_disk := (b_disk b)(name := d\<lparr>td_stat := ST_Dir\<rparr>), b_topics := AList.update name t (b_topics b),
        b_appliedHighWater := hw\<rparr>"
proof -
  obtain diskCount found where c: "topicPartitionCount (b_disk b name) = Inr (diskCount, found)"
    using assms by (auto simp: openTopicLocked_def split: sum.splits)
  define cnt where "cnt = open_count (b_config b) want (diskCount, found)"
  have n: "\<not> (found \<and> want > 0 \<and> diskCount \<noteq> want)"
    using assms c by (auto simp: openTopicLocked_def split: if_splits)
  obtain me d where d: "(if \<not> found \<and> cnt > 1 then writeTopicMeta (bio_meta io) cnt (b_disk b name)
      else (None, b_disk b name)) = (me, d)" by (metis surj_pair)
  have eq: "openTopicLocked io name want b =
      (case (me, d) of
              (Some e, d) \<Rightarrow> (Inl (BE_Meta e), b\<lparr>b_disk := (b_disk b)(name := d)\<rparr>)
            | (None, d) \<Rightarrow>
                (case open_parts (b_config b) (bio_open io name) name cnt (td_part d) [0..<nat cnt]
                        (b_appliedHighWater b) of
                   Inl e \<Rightarrow> (Inl (BE_Open e), b\<lparr>b_disk := (b_disk b)(name := d)\<rparr>)
                 | Inr (ps, hw) \<Rightarrow>
                     let t = newTopic name ps
                     in (Inr t, b\<lparr>b_disk := (b_disk b)(name := d\<lparr>td_stat := ST_Dir\<rparr>),
                           b_topics := AList.update name t (b_topics b), b_appliedHighWater := hw\<rparr>)))"
    unfolding openTopicLocked_def c sum.case prod.case cnt_def [symmetric] Let_def if_not_P [OF n] d by (rule refl)
  have me: "me = None" using assms eq by (cases me) auto
  show thesis
  proof (cases "open_parts (b_config b) (bio_open io name) name cnt (td_part d) [0..<nat cnt] (b_appliedHighWater b)")
    case (Inl e)
    then show thesis using assms eq me by simp
  next
    case (Inr r)
    obtain ps hw where r: "r = (ps, hw)" by (cases r)
    show thesis
      by (rule that [OF c n cnt_def, of d ps hw]) (use assms eq me Inr r d in \<open>auto simp: Let_def\<close>)
  qed
qed

lemma open_count_ge: "open_count cf want de \<ge> 1"
  by (simp add: open_count_def Let_def split: prod.splits)

lemma topicPartitionCount_found:
  assumes "topicPartitionCount d = Inr (n, found)"
  shows "(found \<longrightarrow> n \<ge> 1) \<and> (td_meta d = MR_Missing \<or> found \<and> td_meta d = MR_Partitions n)"
    "\<not> found \<Longrightarrow> td_meta d = MR_Missing" "found \<Longrightarrow> td_meta d = MR_Missing \<Longrightarrow> n = 1"
  using assms by (auto simp: topicPartitionCount_def split: meta_read.splits stat_read.splits if_splits)

lemma writeTopicMeta_ok:
  "writeTopicMeta io n d = (None, d') \<Longrightarrow> td_meta d' = MR_Partitions n \<and> td_part d' = td_part d"
  by (auto simp: writeTopicMeta_def split: meta_io.splits)

lemma opened_count:
  assumes "openTopicLocked io name want b = (Inr t, b')" "want \<ge> 0"
  shows "topicPartitionCount (b_disk b' name) = Inr (t_count t, True)" "t_count t \<ge> 1"
    "want > 0 \<Longrightarrow> t_count t = want" "map_of (b_topics b') name = Some t" "t_name t = name"
proof -
  obtain diskCount found cnt d ps hw where o:
    "topicPartitionCount (b_disk b name) = Inr (diskCount, found)"
    "\<not> (found \<and> want > 0 \<and> diskCount \<noteq> want)" "cnt = open_count (b_config b) want (diskCount, found)"
    "(if \<not> found \<and> cnt > 1 then writeTopicMeta (bio_meta io) cnt (b_disk b name) else (None, b_disk b name)) = (None, d)"
    "open_parts (b_config b) (bio_open io name) name cnt (td_part d) [0..<nat cnt] (b_appliedHighWater b) = Inr (ps, hw)"
    "t = newTopic name ps"
    "b' = b\<lparr>b_disk := (b_disk b)(name := d\<lparr>td_stat := ST_Dir\<rparr>), b_topics := AList.update name t (b_topics b),
        b_appliedHighWater := hw\<rparr>"
    by (rule openTopicLocked_cases [OF assms(1)])
  have c1: "cnt \<ge> 1" using o(3) open_count_ge by simp
  have tc: "t_count t = cnt"
    using open_parts_length [OF o(5)] c1 by (simp add: o(6) t_count_def newTopic_def)
  then show "t_count t \<ge> 1" using c1 by simp
  note f = topicPartitionCount_found [OF o(1)]
  show "t_count t = want" if "want > 0"
    using that o(2,3) tc f by (auto simp: open_count_def)
  have "topicPartitionCount (d\<lparr>td_stat := ST_Dir\<rparr>) = Inr (cnt, True)"
  proof (cases "\<not> found \<and> cnt > 1")
    case True
    then have "td_meta d = MR_Partitions cnt" using o(4) writeTopicMeta_ok by auto
    then show ?thesis using True by (simp add: topicPartitionCount_def)
  next
    case False
    then have d: "d = b_disk b name" using o(4) by (simp split: if_splits)
    show ?thesis
    proof (cases found)
      case True
      then have "cnt = diskCount" using o(3) f by (simp add: open_count_def)
      then show ?thesis using d f True by (auto simp: topicPartitionCount_def)
    next
      case nf: False
      then have "cnt = 1" using False c1 by simp
      then show ?thesis using d f(2) nf by (simp add: topicPartitionCount_def)
    qed
  qed
  then show "topicPartitionCount (b_disk b' name) = Inr (t_count t, True)" using o(7) tc by simp
  show "map_of (b_topics b') name = Some t" "t_name t = name" using o(6,7) by (simp_all add: newTopic_def)
qed

section \<open>The applied high water\<close>

lemma advance_fold_ge:
  "hw \<le> fold (\<lambda>r. advanceAppliedHighWater (rec_RaftIndex r)) rs hw \<and>
   (\<forall>r \<in> set rs. rec_RaftIndex r \<le> fold (\<lambda>r. advanceAppliedHighWater (rec_RaftIndex r)) rs hw)"
proof (induction rs arbitrary: hw)
  case (Cons r rs)
  have "hw \<le> advanceAppliedHighWater (rec_RaftIndex r) hw" "rec_RaftIndex r \<le> advanceAppliedHighWater (rec_RaftIndex r) hw"
    by (auto simp: advanceAppliedHighWater_def)
  with Cons.IH [of "advanceAppliedHighWater (rec_RaftIndex r) hw"] show ?case
    by (auto intro: order_trans)
qed simp

lemma openPartition_parts:
  assumes "openPartition io cap mode sb win topic i dir pd hw = Inr (p, hw')"
  obtains rs where "Open io mode sb (pd_entries pd) (pd_files pd) = Inr (plog p, rs)"
    "hw' = fold (\<lambda>r. advanceAppliedHighWater (rec_RaftIndex r)) rs hw"
  using assms
  by (auto simp: openPartition_def Let_def newPartition_def dest!: loadOffsets_log
      split: sum.splits option.splits prod.splits)

lemma openPartition_hw: "openPartition io cap mode sb win topic i dir pd hw = Inr (p, hw') \<Longrightarrow> hw \<le> hw'"
  using advance_fold_ge by (metis openPartition_parts)

lemma open_parts_hw: "open_parts cf io name cnt pd is hw = Inr (ps, hw') \<Longrightarrow> hw \<le> hw'"
  by (induction cf io name cnt pd "is" hw arbitrary: ps hw' rule: open_parts.induct)
     (force dest: openPartition_hw split: sum.splits prod.splits)+

text \<open>Every recovered partition has been counted in the high water.\<close>

lemma open_parts_nth:
  assumes "open_parts cf io name cnt pd is hw = Inr (ps, hw')" "k < length is"
  shows "\<exists>h1 h2. openPartition (io (is ! k)) (cf_dedupeCap cf) (cf_sync cf) (cf_SegmentBytes cf) (cf_recvWindow cf) name
      (int (is ! k)) (topic_dir name (is ! k) cnt) (pd (is ! k)) h1 = Inr (ps ! k, h2) \<and> h2 \<le> hw'"
  using assms
proof (induction cf io name cnt pd "is" hw arbitrary: ps hw' k rule: open_parts.induct)
  case (2 cf io name cnt pd i js hw)
  obtain p hw1 where p: "openPartition (io i) (cf_dedupeCap cf) (cf_sync cf) (cf_SegmentBytes cf) (cf_recvWindow cf) name
      (int i) (topic_dir name i cnt) (pd i) hw = Inr (p, hw1)"
    using 2(2) by (auto split: sum.splits)
  obtain qs where q: "open_parts cf io name cnt pd js hw1 = Inr (qs, hw')" "ps = p # qs"
    using 2(2) p by (auto split: sum.splits)
  show ?case
  proof (cases k)
    case 0
    then show ?thesis using p q open_parts_hw [OF q(1)] by auto
  next
    case (Suc k')
    then show ?thesis using 2(1) [OF p refl q(1), of k'] 2(3) q(2) by auto
  qed
qed simp

lemma openTopic_hw: "openTopicLocked io name want b = (r, b') \<Longrightarrow> b_appliedHighWater b \<le> b_appliedHighWater b'"
  by (auto simp: openTopicLocked_def Let_def dest: open_parts_hw
      split: sum.splits prod.splits option.splits if_splits)

lemma getOrCreateTopic_hw: "getOrCreateTopic io name b = (r, b') \<Longrightarrow> b_appliedHighWater b \<le> b_appliedHighWater b'"
  by (auto simp: getOrCreateTopic_def dest: openTopic_hw split: option.splits)

lemma recover_topics_hw: "recover_topics io es b = (r, b') \<Longrightarrow> b_appliedHighWater b \<le> b_appliedHighWater b'"
proof (induction io es b arbitrary: r b' rule: recover_topics.induct)
  case (2 io name isDir es b)
  show ?case
  proof (cases isDir)
    case True
    obtain g b1 where g: "getOrCreateTopic io name b = (g, b1)" by force
    then have "b_appliedHighWater b \<le> b_appliedHighWater b1" by (rule getOrCreateTopic_hw)
    then show ?thesis
      using 2 True g by (cases g) (auto intro: order_trans)
  qed (use 2 in simp)
qed simp

lemma crash_high_water:
  assumes "part_inv cap mode sb (p, foff)" "mode \<noteq> SyncNone" "crash_image (plog p) d" "recoverable (plog p)"
    and "openPartition open_ok cap mode sb win topic i dir (crash_disk (p, foff) d) hw = Inr (p', hw')"
    and "r \<in> set (committed_records (plog p'))"
  shows "rec_RaftIndex r \<le> hw'"
proof -
  have reach: "wal_reach mode sb (plog p, F_Idle)" using assms(1) by (simp add: part_inv_def)
  obtain R m where w: "wal_inv (plog p) F_Idle R m" using wal_reach_inv [OF reach assms(2)] by auto
  obtain rs where rs: "Open open_ok mode sb (log_entries (plog p)) d = Inr (plog p', rs)"
      "hw' = fold (\<lambda>r. advanceAppliedHighWater (rec_RaftIndex r)) rs hw"
    using openPartition_parts [OF assms(5)] by (auto simp: crash_disk_def)
  have reach': "wal_reach mode sb (plog p', F_Idle)" by (rule wr_crash [OF reach assms(3,4) rs(1)])
  obtain R' m' where w': "wal_inv (plog p') F_Idle R' m'" using wal_reach_inv [OF reach' assms(2)] by auto
  have "committed_records (plog p') = rs"
    by (rule holds_crash(5) [OF w assms(4,3,2) rs(1) w' Open_committed [OF rs(1)]])
  then show ?thesis using advance_fold_ge [of hw rs] assms(6) rs(2) by auto
qed

text \<open>A publish that was stored is held by the log from then on.\<close>

lemma publish_held:
  assumes inv: "part_inv cap mode sb (p, foff)" and mode: "mode \<noteq> SyncNone"
    and io: "io_write io = None" "log_room (plog p) (pub_record ts vis ri key payload)"
    and ap: "applyPublish io ts vis ri key payload p = (Inr (mid, False), p1)"
  shows "holds (unat mid) (stamped (pub_record ts vis ri key payload) (plog p)) (log_view (plog p1))"
    "part_inv cap mode sb (p1, foff)"
    "committed_records (plog p1) = retained_records (plog p) @ [stamped (pub_record ts vis ri key payload) (plog p)]"
proof -
  obtain R m where w: "wal_inv (plog p) F_Idle R m"
    using wal_reach_inv [OF _ mode] inv by (fastforce simp: part_inv_def)
  have ok: "ddi.entries_ok (\<lambda>k v. k \<noteq> [] \<and> logged (plog p) k v) (pdedupe p)" using inv by (simp add: part_inv_def)
  show i1: "part_inv cap mode sb (p1, foff)" by (rule part_inv_publish [OF inv mode io ap])
  have "append_sync io (pub_record ts vis ri key payload) (plog p) = (Inr mid, plog p1)"
    by (cases rule: applyPublish_cases [OF ap ok]) auto
  from append_sync_post [OF w io this]
  obtain R1 m1 where post: "append_post (pub_record ts vis ri key payload) (plog p) (Inr mid) (plog p1)"
    and w1: "wal_inv (plog p1) F_Idle R1 m1" by blast
  show "holds (unat mid) (stamped (pub_record ts vis ri key payload) (plog p)) (log_view (plog p1))"
    using post nextMsgID_eq [OF w] unfolding holds_log_view [OF w1]
    by (auto simp: append_post_def nth_append)
  show "committed_records (plog p1) = retained_records (plog p) @ [stamped (pub_record ts vis ri key payload) (plog p)]"
    using post by (auto simp: append_post_def)
qed

lemma openTopic_frame:
  assumes "openTopicLocked io n want b = (r, b')" "n \<noteq> name"
  shows "b_disk b' name = b_disk b name" "map_of (b_topics b') name = map_of (b_topics b) name"
    "b_config b' = b_config b"
  using assms
  by (auto simp: openTopicLocked_def Let_def split: sum.splits prod.splits option.splits if_splits)

lemma getOrCreateTopic_frame:
  assumes "getOrCreateTopic io n b = (r, b')" "n \<noteq> name"
  shows "b_disk b' name = b_disk b name" "map_of (b_topics b') name = map_of (b_topics b) name"
    "b_config b' = b_config b"
  using assms openTopic_frame by (auto simp: getOrCreateTopic_def split: option.splits)

text \<open>Start-up opens every topic directory, from the disk as it was found.\<close>

lemma recover_opens:
  assumes "recover_topics io es b = (None, b')" "(name, True) \<in> set es" "distinct (map fst es)"
    and "map_of (b_topics b) name = None"
  shows "\<exists>b1 t b2. b_disk b1 name = b_disk b name \<and> b_config b1 = b_config b \<and>
     openTopicLocked io name 0 b1 = (Inr t, b2) \<and> b_appliedHighWater b2 \<le> b_appliedHighWater b'"
  using assms
proof (induction io es b arbitrary: b' rule: recover_topics.induct)
  case (2 io n isDir es b)
  show ?case
  proof (cases "n = name \<and> isDir")
    case True
    obtain g b1 where g: "getOrCreateTopic io name b = (g, b1)" by force
    then have o: "openTopicLocked io name 0 b = (g, b1)" using 2(6) by (simp add: getOrCreateTopic_def)
    obtain t where t: "g = Inr t" using 2(3) True g by (cases g) auto
    then have "recover_topics io es b1 = (None, b')" using 2(3) True g by simp
    then show ?thesis using o t recover_topics_hw by blast
  next
    case False
    then have m: "(name, True) \<in> set es" using 2(4) by auto
    show ?thesis
    proof (cases isDir)
      case True
      then have ne: "n \<noteq> name" using False by simp
      obtain g b1 where g: "getOrCreateTopic io n b = (g, b1)" by force
      obtain t where t: "g = Inr t" using 2(3) True g by (cases g) auto
      then have "recover_topics io es b1 = (None, b')" using 2(3) True g by simp
      with 2(2) [of g b1 t b'] True g t m 2(5,6) getOrCreateTopic_frame [OF g ne] show ?thesis by auto
    qed (use 2 m in auto)
  qed
qed simp

section \<open>Dead letters\<close>

lemma isDLQ_dlq: "isDLQTopic (name @ dlqSuffix)"
  by (simp add: isDLQTopic_def suffix_def)

lemma dlqThreshold_dlq: "isDLQTopic name \<Longrightarrow> dlqThreshold name b = 0"
  by (simp add: dlqThreshold_def)

lemma partitionAt_open:
  "map_of (b_topics b) name = Some t \<Longrightarrow> 0 \<le> part \<Longrightarrow> part < t_count t \<Longrightarrow>
   partitionAt io name part b = (Inr (nat part, t_parts t ! nat part), b)"
  by (simp add: partitionAt_def getOrCreateTopic_def)

lemma nackOrKill_alive:
  "nackOrKill now msgID 0 c = (r, c') \<Longrightarrow> (\<exists>e. r = Inl e) \<or> (\<exists>im. r = Inr (Inl im))"
  by (auto simp: nackOrKill_def Let_def split: option.splits)

lemma expire_no_dead: "snd (snd (expire_all timeout 0 now es)) = []"
  by (induction es) (auto simp: expire_one_def Let_def split: prod.splits)

lemma route_single: "t_parts t = [q] \<Longrightarrow> route 0 False [] t = (Inr 0, t)"
  by (simp add: route_def)

text \<open>The move onto an open dead-letter topic of a standalone broker is one publish on its partition.\<close>

lemma dlqMove_open:
  assumes "\<not> b_raft b" "map_of (b_topics b) (name @ dlqSuffix) = Some td" "t_parts td = [q]"
    and "t_name td = name @ dlqSuffix" and "publishCtx (bio_append io) (bio_now io) [] payload 0 q = (r, q')"
  shows "\<exists>b'. dlqMoveCtx propose io name payload b = (case r of Inl e \<Rightarrow> Some (BE_Log e) | Inr _ \<Rightarrow> None, b') \<and>
     get_part (name @ dlqSuffix) 0 b' = Some q' \<and>
     (\<forall>n i. n \<noteq> name @ dlqSuffix \<longrightarrow> get_part n i b' = get_part n i b)"
proof -
  let ?n = "name @ dlqSuffix"
  have c: "CreateTopic propose io ?n 1 b = (None, b)"
    using assms(1,2,3) by (simp add: CreateTopic_def createTopicLocal_def t_count_def)
  have g: "getOrCreateTopic io ?n b = (Inr td, b)" using assms(2) by (simp add: getOrCreateTopic_def)
  have b2: "map_of (b_topics (put_topic td b)) ?n = Some td" "\<not> b_raft (put_topic td b)"
    using assms(1,4) by (simp_all add: put_topic_def)
  have p: "PublishCtx propose (\<lambda>_. None) io ?n [] [] 0 False payload 0 0 b =
      (case r of Inl e \<Rightarrow> ((0, part_id q, False, Some (BE_Log e)), put_part ?n 0 q' (put_topic td b))
       | Inr (msgID, dup) \<Rightarrow> ((msgID, part_id q, dup, None), put_part ?n 0 q' (put_topic td b)))"
    using assms(3,5) b2 by (simp add: PublishCtx_def g route_single Let_def split: sum.split)
  have "get_part ?n 0 (put_part ?n 0 q' (put_topic td b)) = Some q'"
    using b2 assms(3) by (simp add: get_part_def put_part_def)
  moreover have "get_part n i (put_part ?n 0 q' (put_topic td b)) = get_part n i b" if "n \<noteq> ?n" for n i
    using that b2 assms(4) by (simp add: get_part_def put_part_def put_topic_def)
  ultimately show ?thesis
    by (cases r) (auto simp: dlqMoveCtx_def c p Let_def)
qed

section \<open>The replication barrier\<close>

lemma followerAck_set:
  assumes "map_inv (st_MatchIndex st)"
  shows "followerAckCount (self, st) idx = int (card {i. i \<noteq> self \<and> (\<exists>mi. map_of (st_MatchIndex st) i = Some mi \<and> idx \<le> mi)})"
proof -
  let ?f = "filter (\<lambda>(i, mi). i \<noteq> self \<and> mi \<ge> idx) (st_MatchIndex st)"
  have d: "distinct (map fst ?f)" using assms by (rule distinct_map_filter)
  have "{i. i \<noteq> self \<and> (\<exists>mi. map_of (st_MatchIndex st) i = Some mi \<and> idx \<le> mi)} = set (map fst ?f)"
    using assms by (force simp: image_iff dest: map_of_SomeD)
  then have "card {i. i \<noteq> self \<and> (\<exists>mi. map_of (st_MatchIndex st) i = Some mi \<and> idx \<le> mi)} = length ?f"
    using distinct_card [OF d] by simp
  then show ?thesis by (simp add: followerAckCount_def)
qed

lemma wait_OK:
  "waitForReplication self idx n evs = Some None \<Longrightarrow> \<exists>st ev. (st, ev) \<in> set evs \<and> followerAckCount (self, st) idx \<ge> n"
  by (induction self idx n evs rule: waitForReplication.induct)
     (auto split: if_splits wait_event.splits)

lemma wait_returns:
  "ev \<noteq> WE_Notify \<Longrightarrow> (st, ev) \<in> set evs \<Longrightarrow> waitForReplication self idx n evs \<noteq> None"
  by (induction self idx n evs rule: waitForReplication.induct) (auto split: wait_event.splits)

section \<open>Peers\<close>

lemma str_le_total: "str_le s t \<or> str_le t s"
  by (induction s t rule: str_le.induct) auto

lemma str_le_trans: "str_le s t \<Longrightarrow> str_le t u \<Longrightarrow> str_le s u"
proof (induction s t arbitrary: u rule: str_le.induct)
  case (3 c s d t)
  then show ?case by (cases u) auto
qed auto

lemma insert_peer_set: "set (insert_peer p ps) = insert p (set ps)"
  by (induction ps) auto

lemma insert_peer_sorted:
  "sorted_wrt (\<lambda>p q. str_le (ps_ID p) (ps_ID q)) ps \<Longrightarrow> sorted_wrt (\<lambda>p q. str_le (ps_ID p) (ps_ID q)) (insert_peer p ps)"
proof (induction ps)
  case (Cons q qs)
  then show ?case
    using str_le_total [of "ps_ID p" "ps_ID q"] by (auto simp: insert_peer_set intro: str_le_trans)
qed simp

lemma peers_sorted:
  "sorted_wrt (\<lambda>p q. str_le (ps_ID p) (ps_ID q)) (foldr insert_peer ps []) \<and> set (foldr insert_peer ps []) = set ps"
  by (induction ps) (auto simp: insert_peer_sorted insert_peer_set)

section \<open>Properties\<close>

text \<open>C38: The partition count of a topic is durable and exact.  Once a topic is open with n partitions, the
  descriptor on disk reads back as n; creating it again with n partitions succeeds without any change and
  with another count is refused, both on the running broker and on a broker restarted from that disk, which
  opens the topic with n partitions whatever its configured default.\<close>
theorem partition_count_durable:
  assumes "openTopicLocked io name want b = (Inr t, b')" and "want \<ge> 0"
    and "b_disk r name = b_disk b' name" and "map_of (b_topics r) name = None"
  shows "topicPartitionCount (b_disk b' name) = Inr (t_count t, True) \<and> t_count t \<ge> 1 \<and>
     (want > 0 \<longrightarrow> t_count t = want) \<and>
     createTopicLocal io2 name n b' = (if n = t_count t then None else Some (BE_Count (t_count t) n), b') \<and>
     (n > 0 \<longrightarrow> n \<noteq> t_count t \<longrightarrow> createTopicLocal io2 name n r = (Some (BE_Count (t_count t) n), r)) \<and>
     (\<forall>t2 r2. getOrCreateTopic io2 name r = (Inr t2, r2) \<longrightarrow> t_count t2 = t_count t)"
proof -
  note o = opened_count [OF assms(1,2)]
  have d: "topicPartitionCount (b_disk r name) = Inr (t_count t, True)" using assms(3) o(1) by simp
  have "t_count t2 = t_count t" if "openTopicLocked io2 name 0 r = (Inr t2, r2)" for t2 r2
    using that
  proof (cases rule: openTopicLocked_cases)
    case (1 diskCount found cnt dd ps hw)
    then have "cnt = t_count t" using d o(2) by (simp add: open_count_def)
    then show ?thesis using 1 open_parts_length [OF 1(5)] o(2) by (simp add: t_count_def newTopic_def)
  qed
  then have g: "\<forall>t2 r2. getOrCreateTopic io2 name r = (Inr t2, r2) \<longrightarrow> t_count t2 = t_count t"
    using assms(4) by (simp add: getOrCreateTopic_def)
  have c: "createTopicLocal io2 name n b' = (if n = t_count t then None else Some (BE_Count (t_count t) n), b')"
    using o(4) by (simp add: createTopicLocal_def)
  have "createTopicLocal io2 name n r = (Some (BE_Count (t_count t) n), r)" if "n > 0" "n \<noteq> t_count t"
    using that assms(4) d by (simp add: createTopicLocal_def openTopicLocked_def)
  then show ?thesis using o(1-3) c g by blast
qed

text \<open>C4: A replicated publish is applied exactly once across restarts.  If a replica stored the publish
  committed at raft index idx, and later crashes at any reachable point at which retention has not reclaimed
  that record, then the broker that starts from what the crash left has its applied high water at or above
  idx, and replaying the entry changes nothing and reports success.\<close>
theorem replayed_publish_skipped:
  assumes "part_reach cap mode sb (p, foff)" and "mode \<noteq> SyncNone" and "idx \<noteq> 0"
    and "io_write io = None" and "log_room (plog p) (pub_record ts vis idx key payload)"
    and "applyPublish io ts vis idx key payload p = (Inr (mid, False), p1)"
    and "(part_step cap mode sb)\<^sup>*\<^sup>* (p1, foff) (p2, foff2)"
    and "RetainedFloor (plog p2) \<le> mid" and "recoverable (plog p2)" and "crash_image (plog p2) d"
    and "newBroker bio cf dsk (Some es) = Some b" and "(name, True) \<in> set es" and "distinct (map fst es)"
    and "topicPartitionCount (dsk name) = Inr (cnt, True)" and "i < nat cnt"
    and "td_part (dsk name) i = crash_disk (p2, foff2) d" and "bio_open bio name i = open_ok"
    and "cf_dedupeCap cf = cap" and "cf_sync cf = mode" and "cf_SegmentBytes cf = sb"
  shows "idx \<le> b_appliedHighWater b \<and>
     ApplyPublish bio2 name part ts2 vis2 idx key2 payload2 b = (Inr (0, False), b)"
proof -
  have inv: "part_inv cap mode sb (p, foff)" by (rule part_reach_inv [OF assms(1,2)])
  let ?r = "stamped (pub_record ts vis idx key payload) (plog p)"
  note h = publish_held [OF inv assms(2,4,5,6)]
  from part_steps_holds [OF assms(7) h(2) assms(2)] h(1)
  have h2: "holds (unat mid) ?r (log_view (plog p2))" and inv2: "part_inv cap mode sb (p2, foff2)" by simp_all
  let ?b0 = "\<lparr>b_config = newBroker_config cf, b_disk = dsk, b_topics = [], b_raft = False, b_appliedHighWater = 0\<rparr>"
  have "recover_topics bio es ?b0 = (None, b)"
    using assms(11) by (auto simp: newBroker_def split: prod.splits option.splits)
  from recover_opens [OF this assms(12,13)]
  obtain b1 t b2 where b1: "b_disk b1 name = dsk name" "b_config b1 = newBroker_config cf"
      "openTopicLocked bio name 0 b1 = (Inr t, b2)" "b_appliedHighWater b2 \<le> b_appliedHighWater b"
    by auto
  obtain ps hw where ps: "open_parts (newBroker_config cf) (bio_open bio name) name cnt (td_part (dsk name)) [0..<nat cnt]
      (b_appliedHighWater b1) = Inr (ps, hw)" "b_appliedHighWater b2 = hw"
    using b1(3)
  proof (cases rule: openTopicLocked_cases)
    case (1 diskCount found c dd ps hw)
    have "c = cnt" "found"
      using 1(1,3) b1(1) assms(14) topicPartitionCount_found [OF assms(14)] by (auto simp: open_count_def)
    then show thesis using 1(4,5,7) b1(1,2) by (intro that [of ps hw]) auto
  qed
  obtain h1 h2' where op: "openPartition open_ok cap mode sb (cf_recvWindow (newBroker_config cf)) name (int i)
      (topic_dir name i cnt) (crash_disk (p2, foff2) d) h1 = Inr (ps ! i, h2')" "h2' \<le> hw"
    using open_parts_nth [OF ps(1), of i] assms(15-20) by (auto simp: newBroker_config_def)
  obtain p3 hw3 rs where r3:
      "openPartition open_ok cap mode sb (cf_recvWindow (newBroker_config cf)) name (int i)
         (topic_dir name i cnt) (crash_disk (p2, foff2) d) h1 = Inr (p3, hw3)"
      "RetainedFloor (plog p3) = RetainedFloor (plog p2)"
      "wal_reach mode sb (plog p3, F_Idle)" "holds (unat mid) ?r (log_view (plog p3))"
    by (rule reopen [OF inv2 assms(2,10,9), of "cf_recvWindow (newBroker_config cf)" name "int i"
          "topic_dir name i cnt" h1]) (use h2 in blast)
  obtain R3 m3 where w3: "wal_inv (plog p3) F_Idle R3 m3" using wal_reach_inv [OF r3(3) assms(2)] by auto
  have "?r \<in> set (committed_records (plog p3))"
    using r3(4) assms(8) r3(2) unfolding holds_log_view [OF w3] by (auto simp: u64_le_iff in_set_conv_nth)
  from crash_high_water [OF inv2 assms(2,10,9) r3(1) this]
  have "idx \<le> hw3" by (simp add: stamped_def pub_record_def)
  then have "idx \<le> b_appliedHighWater b" using r3(1) op ps(2) b1(4) by (auto intro: order_trans)
  then show ?thesis using assms(3) by (simp add: ApplyPublish_def)
qed


text \<open>Dead-letter topics do not cascade: a NACK or an expiry on a topic whose name ends in the dead-letter
  suffix never dead-letters, however often it is repeated, and every dead letter is moved to such a topic.\<close>
theorem dlq_no_cascade:
  assumes "isDLQTopic name"
  shows "fst (applyNack propose io name part cid msgID b) \<noteq> Inr None \<and>
     snd (fst (collectExpired timeout (dlqThreshold name b) now c)) = [] \<and> isDLQTopic (src @ dlqSuffix)"
proof -
  have "fst (applyNack propose io name part cid msgID b) \<noteq> Inr None"
  proof
    assume a: "fst (applyNack propose io name part cid msgID b) = Inr None"
    then obtain i p b1 where "partitionAt io name part b = (Inr (i, p), b1)"
      by (auto simp: applyNack_def split: prod.splits sum.splits)
    then show False
      using a nackOrKill_alive [of "bio_now io" msgID "fst (getOrCreateConsumer cid p)"] dlqThreshold_dlq [OF assms]
      by (fastforce simp: applyNack_def split: prod.splits sum.splits)
  qed
  moreover have "snd (fst (collectExpired timeout (dlqThreshold name b) now c)) = []"
    using expire_no_dead [of timeout now "inflight c"]
    by (auto simp: collectExpired_def dlqThreshold_dlq [OF assms] Let_def split: option.splits prod.splits)
  ultimately show ?thesis using isDLQ_dlq by blast
qed


text \<open>The replication report never counts the node itself, lists the other nodes in order, and gives each
  one's lag without wrapping: zero when the node is at or past the last index, the distance otherwise.\<close>
theorem replication_report_exact:
  assumes "b_raft b"
  shows "set (rs_Peers (ReplicationStatus_of (self, st) b)) =
       peer_status (st_LastLogIndex st) ` {e \<in> set (st_MatchIndex st). fst e \<noteq> self} \<and>
     sorted_wrt (\<lambda>p q. str_le (ps_ID p) (ps_ID q)) (rs_Peers (ReplicationStatus_of (self, st) b)) \<and>
     unat (ps_LagEntries (peer_status last_idx e)) = unat last_idx - unat (snd e)"
proof -
  have "unat (ps_LagEntries (peer_status last_idx e)) = unat last_idx - unat (snd e)"
    by (auto simp: peer_status_def unat_diff_no_wrap u64_less_iff u64_le_iff)
  then show ?thesis
    using assms peers_sorted
      [of "map (peer_status (st_LastLogIndex st)) (filter (\<lambda>e. fst e \<noteq> self) (st_MatchIndex st))"]
    by (simp add: ReplicationStatus_of_def)
qed

section \<open>Samples\<close>

definition sample_cf :: broker_config where
  "sample_cf = \<lparr>cf_dedupeCap = 4, cf_defaultPartitions = 1, cf_recvWindow = 8, cf_visibilityTimeout = 30,
     cf_SegmentBytes = 0, cf_RetainBytes = 0, cf_RetainDuration = 0, cf_dlqAfterNacks = 2, cf_sync = SyncPerMessage\<rparr>"

definition sample_bio :: broker_io where
  "sample_bio = \<lparr>bio_open = (\<lambda>_ _. open_ok), bio_meta = WM_OK, bio_append = io_ok, bio_now = 7\<rparr>"

definition no_disk :: "string \<Rightarrow> topic_disk" where
  "no_disk = (\<lambda>_. \<lparr>td_meta = MR_Missing, td_stat = ST_Missing,
     td_part = (\<lambda>_. \<lparr>pd_entries = [], pd_files = (\<lambda>_. []), pd_offsets = OR_Missing\<rparr>)\<rparr>)"

definition sample_broker :: broker where
  "sample_broker = \<lparr>b_config = sample_cf, b_disk = no_disk, b_topics = [], b_raft = False, b_appliedHighWater = 0\<rparr>"

lemma sample_open:
  "\<exists>t b'. openTopicLocked sample_bio ''t'' 3 sample_broker = (Inr t, b')"
  by (simp add: openTopicLocked_def sample_broker_def sample_bio_def no_disk_def topicPartitionCount_def open_count_def
      writeTopicMeta_def upt_rec openPartition_def Open_empty loadOffsets_def Let_def)

theorem partition_count_durable_witness:
  "\<exists>t b'. openTopicLocked sample_bio ''t'' 3 sample_broker = (Inr t, b') \<and>
     topicPartitionCount (b_disk b' ''t'') = Inr (3, True) \<and>
     createTopicLocal sample_bio ''t'' 2 (b'\<lparr>b_topics := []\<rparr>) = (Some (BE_Count 3 2), b'\<lparr>b_topics := []\<rparr>)"
proof -
  obtain t b' where o: "openTopicLocked sample_bio ''t'' 3 sample_broker = (Inr t, b')" using sample_open by blast
  from partition_count_durable [OF o, of "b'\<lparr>b_topics := []\<rparr>" sample_bio 2]
  show ?thesis using o by auto
qed

definition crashed_disk :: "partition \<Rightarrow> string \<Rightarrow> topic_disk" where
  "crashed_disk p = (\<lambda>_. \<lparr>td_meta = MR_Missing, td_stat = ST_Dir, td_part = (\<lambda>_. crash_disk (p, None) (disk sample_log))\<rparr>)"

theorem replayed_publish_skipped_witness:
  "\<exists>p1 b. applyPublish io_ok 7 0 5 ''k'' [1, 2, 3] fresh_part = (Inr (0, False), p1) \<and>
     newBroker sample_bio sample_cf (crashed_disk p1) (Some [(''t'', True)]) = Some b \<and>
     ApplyPublish sample_bio ''t'' 0 7 0 5 ''k'' [1, 2, 3] b = (Inr (0, False), b)"
proof -
  obtain p1 where p1: "applyPublish io_ok 7 0 5 ''k'' [1, 2, 3] fresh_part = (Inr (0, False), p1)" "plog p1 = sample_log"
    using sample_publish by blast
  have inv: "part_inv 4 SyncPerMessage 0 (fresh_part, None)" by (rule part_reach_inv [OF fresh_reach]) simp
  have inv1: "part_inv 4 SyncPerMessage 0 (p1, None)"
    by (rule publish_held(2) [OF inv _ _ fresh_room p1(1)]) simp_all
  obtain p3 hw3 where o: "openPartition open_ok 4 SyncPerMessage 0 8 ''t'' 0 (topic_dir ''t'' 0 1)
      (crash_disk (p1, None) (disk sample_log)) 0 = Inr (p3, hw3)"
    by (rule reopen [OF inv1 _ _ _, of "disk sample_log" 8 "''t''" 0 "topic_dir ''t'' 0 1" 0])
       (use p1(2) sample_crash sample_recoverable in simp_all)
  obtain b where b: "newBroker sample_bio sample_cf (crashed_disk p1) (Some [(''t'', True)]) = Some b"
    using o by (simp add: newBroker_def getOrCreateTopic_def openTopicLocked_def crashed_disk_def topicPartitionCount_def
        open_count_def upt_rec sample_bio_def sample_cf_def newBroker_config_def Let_def)
  have fl: "RetainedFloor sample_log = 0" using sample_records by simp
  from replayed_publish_skipped [OF fresh_reach _ _ _ fresh_room p1(1) rtranclp.rtrancl_refl, of "disk sample_log"
      sample_bio sample_cf "crashed_disk p1" "[(''t'', True)]" b "''t''" 1 0 sample_bio 0 7 0 "''k''" "[1, 2, 3]"] p1 fl
    sample_recoverable sample_crash b
  have "ApplyPublish sample_bio ''t'' 0 7 0 5 ''k'' [1, 2, 3] b = (Inr (0, False), b)"
    by (simp add: crashed_disk_def topicPartitionCount_def sample_bio_def sample_cf_def)
  then show ?thesis using p1(1) b by blast
qed

definition poison :: inflight_msg where
  "poison = \<lparr>inf_MsgID = 0, inf_Topic = ''t'', inf_Partition = 0, inf_Payload = [9], inf_DeliveredAt = 0, inf_Attempts = 2\<rparr>"

definition poisoned :: broker where
  "poisoned = sample_broker\<lparr>b_topics :=
     [(''t'', newTopic ''t'' [put_consumer ''c'' ((newConsumer ''c'' 8)\<lparr>inflight := [(0, poison)]\<rparr>) fresh_part]),
      (''t.dlq'', newTopic ''t.dlq'' [fresh_part])]\<rparr>"


theorem dlq_no_cascade_witness:
  "fst (applyNack (\<lambda>_ b. (Inl BE_Panic, b)) sample_bio ''t.dlq'' 0 ''c'' 0 poisoned) \<noteq> Inr None"
proof -
  have "isDLQTopic (''t'' @ dlqSuffix)" by (rule isDLQ_dlq)
  then have "isDLQTopic ''t.dlq''" by (simp add: dlqSuffix_def)
  from dlq_no_cascade [OF this] show ?thesis by blast
qed

definition sample_status :: raft_status where
  "sample_status = \<lparr>st_Role = Leader, st_LeaderHint = ''n1'', st_Term = 1, st_CommitIndex = 5, st_ApplyIndex = 5,
     st_LastLogIndex = 6, st_MatchIndex = [(''n3'', 4), (''n1'', 6), (''n2'', 5)]\<rparr>"


theorem replication_report_exact_witness:
  "b_raft (AttachRaft sample_broker) \<and>
   sorted_wrt (\<lambda>p q. str_le (ps_ID p) (ps_ID q)) (rs_Peers (ReplicationStatus_of (''n1'', sample_status) (AttachRaft sample_broker))) \<and>
   unat (ps_LagEntries (peer_status 6 (''n3'', 4))) = unat (6 :: u64) - unat (4 :: u64)"
  using replication_report_exact [of "AttachRaft sample_broker" "''n1''" sample_status 6 "(''n3'', 4)"]
  by (simp add: AttachRaft_def)

end
