(* ===== verification/Shutdown.thy ===== *)
theory Shutdown
  imports Broker_Safety
begin

text \<open>
  A clean stop (\<^verbatim>\<open>Log.Close\<close> in \<^verbatim>\<open>internal/wal/log.go\<close>, \<^verbatim>\<open>runPersistLoop\<close> and \<^verbatim>\<open>Close\<close> in
  \<^verbatim>\<open>internal/broker/broker.go\<close>): the persist loop flushes the dirty offsets once more, then every log is
  closed, which for the batched mode ends with a last flush.  What a later start finds is compared with
  what the broker held.
\<close>

section \<open>Closing\<close>

text \<open>\<open>ok\<close> is the outcome of the committer's last \<^verbatim>\<open>fsync\<close>, \<open>bad\<close> the segments whose file does not close.\<close>

definition log_Close :: "bool \<Rightarrow> (u64 \<Rightarrow> bool) \<Rightarrow> wlog \<Rightarrow> bool \<times> wlog" where
  "log_Close ok bad l =
     (let l' = (if syncMode l = SyncBatched then flush ok l else l)
      in (\<not> list_ex (\<lambda>s. bad (seg_index s)) (segments l'), l'))"

record close_io =
  clo_sync :: "string \<Rightarrow> nat \<Rightarrow> bool"
  clo_bad :: "string \<Rightarrow> nat \<Rightarrow> u64 \<Rightarrow> bool"

definition close_part :: "close_io \<Rightarrow> string \<times> nat \<Rightarrow> bool \<times> broker \<Rightarrow> bool \<times> broker" where
  "close_part cio ni acc =
     (case (ni, acc) of ((name, i), (good, b)) \<Rightarrow>
        (case get_part name i b of
           None \<Rightarrow> (good, b)
         | Some p \<Rightarrow>
             (case log_Close (clo_sync cio name i) (clo_bad cio name i) (plog p) of
                (ok, l') \<Rightarrow> (good \<and> ok, put_part name i (p\<lparr>plog := l'\<rparr>) b))))"

text \<open>\<open>True\<close> when no log reported an error.  The background loops have stopped; the persist loop's last act comes first.\<close>

definition broker_Close :: "(string \<Rightarrow> nat \<Rightarrow> offsets_io) \<Rightarrow> close_io \<Rightarrow> broker \<Rightarrow> bool \<times> broker" where
  "broker_Close fio cio b = (let b1 = flushDirty fio b in fold (close_part cio) (all_parts b1) (True, b1))"

section \<open>One partition\<close>

text \<open>The same on one partition with its offsets file.\<close>

definition part_flush :: "offsets_io \<Rightarrow> part_sys \<Rightarrow> part_sys" where
  "part_flush fio s =
     (if partitionHasDirty (fst s) then (case flushOffsets fio (fst s) (snd s) of (e, f, p) \<Rightarrow> (p, f)) else s)"

definition part_close :: "offsets_io \<Rightarrow> bool \<Rightarrow> part_sys \<Rightarrow> part_sys" where
  "part_close fio ok s =
     (case part_flush fio s of (p, f) \<Rightarrow> (p\<lparr>plog := snd (log_Close ok (\<lambda>_. False) (plog p))\<rparr>, f))"

definition fio_ok :: offsets_io where
  "fio_ok = \<lparr>fio_create = True, fio_encode = True, fio_sync = True, fio_close = True, fio_rename = True\<rparr>"

lemma log_Close_snd: "snd (log_Close ok bad l) = (if syncMode l = SyncBatched then flush ok l else l)"
  by (simp add: log_Close_def Let_def)

lemma log_Close_steps: "wal_step\<^sup>*\<^sup>* (l, F_Idle) (snd (log_Close ok bad l), F_Idle)"
  using flush_steps by (simp add: log_Close_snd)

lemma flush_commits_all:
  assumes "wal_inv l F_Idle R m" "\<not> commitErr l"
  shows "committed (flush True l) = written (flush True l)"
proof -
  have "committed l \<le> written l" using assms(1) commit_le_written by (auto simp: wal_inv_def)
  then show ?thesis using assms(2) by (auto simp: flush_def flush_begin_def flush_end_def fsync_def)
qed

lemma retained_flush: "retained_records (flush ok l) = retained_records l"
  by (simp add: retained_records_def flush_def flush_end_def fsync_def split: option.split)

lemma flush_floor: "RetainedFloor (flush ok l) = RetainedFloor l"
  by (simp add: RetainedFloor_def flush_def flush_end_def fsync_def split: option.split)

lemma flush_committed_same: "committed l = written l \<Longrightarrow> committed (flush ok l) = written (flush ok l)"
  by (auto simp: flush_def flush_begin_def flush_end_def fsync_def split: if_splits option.splits)

lemma part_flush_inv:
  assumes inv: "part_inv cap mode sb s" and mode: "mode \<noteq> SyncNone"
  shows "part_inv cap mode sb (part_flush fio s)" "plog (fst (part_flush fio s)) = plog (fst s)"
proof -
  obtain e f p where fl: "flushOffsets fio (fst s) (snd s) = (e, f, p)" by (metis prod.exhaust)
  have "part_step cap mode sb (fst s, snd s) (p, f)" by (rule ps_flush [OF fl])
  then have "part_inv cap mode sb (p, f)" using part_step_inv inv mode by fastforce
  then show "part_inv cap mode sb (part_flush fio s)" using inv fl by (simp add: part_flush_def)
  show "plog (fst (part_flush fio s)) = plog (fst s)"
    using flushOffsets_log [OF fl] fl by (simp add: part_flush_def)
qed

lemma part_close_inv:
  assumes "part_inv cap mode sb s" "mode \<noteq> SyncNone"
  shows "part_inv cap mode sb (part_close fio ok s)"
proof -
  obtain p f where pf: "part_flush fio s = (p, f)" by fastforce
  then have "part_inv cap mode sb (p, f)" using part_flush_inv(1) [OF assms, of fio] by simp
  from part_inv_log [OF this assms(2) log_Close_steps] show ?thesis by (simp add: part_close_def pf)
qed

text \<open>A flush that succeeds leaves a file that holds exactly what each consumer has acknowledged.\<close>

definition file_exact :: "part_sys \<Rightarrow> bool" where
  "file_exact s \<longleftrightarrow>
     (\<forall>cid c. map_of (consumers (fst s)) cid = Some c \<longrightarrow>
        (\<exists>f off. snd s = Some f \<and> map_of f cid = Some off \<and> off_acked off = acked c))"

lemma part_flush_exact:
  assumes "partitionHasDirty (fst s)"
  shows "file_exact (part_flush fio_ok s)"
  using assms
  by (auto simp: part_flush_def flushOffsets_def fio_ok_def file_exact_def Let_def snapshot_map snapshot_acked map_of_map)

lemma part_flush_acked:
  "map_option acked (map_of (consumers (fst (part_flush fio s))) cid) = map_option acked (map_of (consumers (fst s)) cid)"
proof (cases "partitionHasDirty (fst s)")
  case True
  obtain e f p where fl: "flushOffsets fio (fst s) (snd s) = (e, f, p)" by (metis prod.exhaust)
  then have "consumers p = map (\<lambda>(cid, c). (cid, c\<lparr>persistDirty := False\<rparr>)) (consumers (fst s))"
    by (auto simp: flushOffsets_def Let_def split: if_splits)
  then have "map_of (consumers p) cid = map_option (\<lambda>c. c\<lparr>persistDirty := False\<rparr>) (map_of (consumers (fst s)) cid)"
    by (simp add: map_of_map)
  then show ?thesis
    using True fl by (cases "map_of (consumers (fst s)) cid") (simp_all add: part_flush_def acked_def)
qed (simp add: part_flush_def)

section \<open>What a start finds\<close>

lemma reopen_all:
  assumes inv: "part_inv cap mode sb (p, foff)" and mode: "mode \<noteq> SyncNone" and all: "committed (plog p) = written (plog p)"
    and cr: "crash_image (plog p) d" "recoverable (plog p)"
  obtains p3 hw' where
    "openPartition open_ok cap mode sb win topic i dir (crash_disk (p, foff) d) hw = Inr (p3, hw')"
    "committed_records (plog p3) = retained_records (plog p)" "RetainedFloor (plog p3) = RetainedFloor (plog p)"
    "\<And>cid. map_of (consumers p3) cid =
        map_option (restored cid win) (case foff of None \<Rightarrow> None | Some f \<Rightarrow> map_of f cid)"
proof -
  obtain R m where w: "wal_inv (plog p) F_Idle R m"
    using wal_reach_inv [OF _ mode] inv by (fastforce simp: part_inv_def)
  have ca: "committed_records (plog p) = retained_records (plog p)" by (rule committed_all [OF w all])
  obtain p3 hw' rs where r: "openPartition open_ok cap mode sb win topic i dir (crash_disk (p, foff) d) hw = Inr (p3, hw')"
    "prefix rs (retained_records (plog p))" "RetainedFloor (plog p3) = RetainedFloor (plog p)"
    "committed_records (plog p3) = rs"
    "\<And>n r. holds n r (log_view (plog p)) \<Longrightarrow> holds n r (log_view (plog p3))"
    "\<And>cid. map_of (consumers p3) cid =
        map_option (restored cid win) (case foff of None \<Rightarrow> None | Some f \<Rightarrow> map_of f cid)"
    by (rule reopen [OF inv mode cr, of win topic i dir hw]) blast
  have "length (retained_records (plog p)) \<le> length rs"
  proof (cases "retained_records (plog p) = []")
    case False
    then obtain k where k: "length (retained_records (plog p)) = Suc k" by (cases "retained_records (plog p)") auto
    have "holds (unat (RetainedFloor (plog p)) + k) (retained_records (plog p) ! k) (log_view (plog p))"
      using k ca by (simp add: holds_def log_view_def)
    from r(5) [OF this] show ?thesis using r(3,4) k by (simp add: holds_def log_view_def)
  qed simp
  then have "rs = retained_records (plog p)" using r(2) by (auto simp: prefix_def)
  then show thesis using that [OF r(1) _ r(3,6)] r(4) by simp
qed

section \<open>All partitions\<close>

text \<open>A loop over the partitions that treats each one by itself.\<close>

locale partwise =
  fixes step :: "string \<times> nat \<Rightarrow> 'a \<Rightarrow> 'a"
    and view :: "string \<Rightarrow> nat \<Rightarrow> 'a \<Rightarrow> 'v"
    and eff :: "string \<Rightarrow> nat \<Rightarrow> 'v \<Rightarrow> 'v"
  assumes step_here: "view n i (step (n, i) x) = eff n i (view n i x)"
    and step_other: "(n, i) \<noteq> (m, j) \<Longrightarrow> view m j (step (n, i) x) = view m j x"
begin

lemma fold_other: "(m, j) \<notin> set xs \<Longrightarrow> view m j (fold step xs x) = view m j x"
proof (induction xs arbitrary: x)
  case (Cons a xs)
  then show ?case using step_other [of "fst a" "snd a" m j x] by (cases a) auto
qed simp

lemma fold_here: "distinct xs \<Longrightarrow> (n, i) \<in> set xs \<Longrightarrow> view n i (fold step xs x) = eff n i (view n i x)"
proof (induction xs arbitrary: x)
  case (Cons a xs)
  show ?case
  proof (cases "a = (n, i)")
    case True
    then show ?thesis using fold_other [of n i xs] Cons.prems(1) step_here by simp
  next
    case False
    then show ?thesis using Cons step_other [of "fst a" "snd a" n i x] by (cases a) auto
  qed
qed simp

end

definition part_view :: "string \<Rightarrow> nat \<Rightarrow> broker \<Rightarrow> partition option \<times> offsetsFile option" where
  "part_view n i b = (get_part n i b, offsets_kept (pd_offsets (td_part (b_disk b n) i)))"

definition on_part :: "(part_sys \<Rightarrow> part_sys) \<Rightarrow> partition option \<times> offsetsFile option \<Rightarrow> partition option \<times> offsetsFile option" where
  "on_part g v = (case fst v of None \<Rightarrow> v | Some p \<Rightarrow> (case g (p, snd v) of (p', f) \<Rightarrow> (Some p', f)))"

lemma get_put_part:
  "get_part m j (put_part n i p b) = (if (m, j) = (n, i) \<and> get_part n i b \<noteq> None then Some p else get_part m j b)"
  by (auto simp: get_part_def put_part_def nth_list_update split: option.splits)

lemma put_part_disk [simp]: "b_disk (put_part n i p b) = b_disk b"
  by (simp add: put_part_def split: option.split)

lemma get_part_disk [simp]: "get_part n i (b\<lparr>b_disk := d\<rparr>) = get_part n i b"
  by (simp add: get_part_def)

lemma kept_found [simp]: "offsets_kept (offsets_found f) = f"
  by (cases f) simp_all

interpretation flushing: partwise "flush_part fio" part_view "\<lambda>n i. on_part (part_flush (fio n i))" for fio
proof
  show "part_view n i (flush_part fio (n, i) b) = on_part (part_flush (fio n i)) (part_view n i b)" for n i b
    by (auto simp: flush_part_def part_view_def on_part_def part_flush_def get_put_part flushOffsets_def Let_def
        split: option.splits)
  show "part_view m j (flush_part fio (n, i) b) = part_view m j b" if "(n, i) \<noteq> (m, j)" for n i m j b
    using that by (auto simp: flush_part_def part_view_def get_put_part Let_def split: option.splits prod.splits)
qed

interpretation closing: partwise "close_part cio" "\<lambda>n i gb. part_view n i (snd gb)"
    "\<lambda>n i. on_part (\<lambda>(p, f). (p\<lparr>plog := snd (log_Close (clo_sync cio n i) (clo_bad cio n i) (plog p))\<rparr>, f))" for cio
proof
  show "part_view n i (snd (close_part cio (n, i) gb)) =
     on_part (\<lambda>(p, f). (p\<lparr>plog := snd (log_Close (clo_sync cio n i) (clo_bad cio n i) (plog p))\<rparr>, f)) (part_view n i (snd gb))"
    for n i gb
    by (cases gb) (auto simp: close_part_def part_view_def on_part_def get_put_part split: option.splits prod.splits)
  show "part_view m j (snd (close_part cio (n, i) gb)) = part_view m j (snd gb)" if "(n, i) \<noteq> (m, j)" for n i m j gb
    using that by (cases gb) (auto simp: close_part_def part_view_def get_put_part split: option.splits prod.splits)
qed

lemma all_parts_mem: "get_part n i b \<noteq> None \<Longrightarrow> (n, i) \<in> set (all_parts b)"
  by (force simp: get_part_def all_parts_def dest: map_of_SomeD split: option.splits if_splits)

lemma all_parts_distinct: "map_inv (b_topics b) \<Longrightarrow> distinct (all_parts b)"
proof -
  have "distinct (map fst ts) \<Longrightarrow> distinct (concat (map (\<lambda>(name, t). map (Pair name) [0..<length (t_parts t)]) ts))" for ts
    by (induction ts) (force simp: distinct_map inj_on_def rev_image_eqI)+
  then show "map_inv (b_topics b) \<Longrightarrow> distinct (all_parts b)" by (simp add: all_parts_def)
qed

lemma flushDirty_inv: "map_inv (b_topics b) \<Longrightarrow> map_inv (b_topics (flushDirty fio b))"
proof -
  have s: "map_inv (b_topics b) \<Longrightarrow> map_inv (b_topics (flush_part fio ni b))" for ni b
    by (auto simp: flush_part_def put_part_def Let_def distinct_update split: option.splits prod.splits)
  have "map_inv (b_topics b) \<Longrightarrow> map_inv (b_topics (fold (flush_part fio) xs b))" for xs
    by (induction xs arbitrary: b) (auto intro: s)
  then show "map_inv (b_topics b) \<Longrightarrow> map_inv (b_topics (flushDirty fio b))" by (simp add: flushDirty_def)
qed

text \<open>Closing the broker closes each of its partitions.\<close>

lemma broker_Close_part:
  assumes "map_inv (b_topics b)" "part_view n i b = (Some p, foff)"
  shows "part_view n i (snd (broker_Close fio cio b)) =
     (let s = part_close (fio n i) (clo_sync cio n i) (p, foff) in (Some (fst s), snd s))"
proof -
  have "get_part n i b \<noteq> None" using assms(2) by (simp add: part_view_def)
  then have v1: "part_view n i (flushDirty fio b) = on_part (part_flush (fio n i)) (Some p, foff)"
    using flushing.fold_here [OF all_parts_distinct [OF assms(1)] all_parts_mem] assms(2) by (simp add: flushDirty_def)
  obtain p1 f1 where s1: "part_flush (fio n i) (p, foff) = (p1, f1)" by fastforce
  have v1': "part_view n i (flushDirty fio b) = (Some p1, f1)" using v1 s1 by (simp add: on_part_def)
  then have "(n, i) \<in> set (all_parts (flushDirty fio b))" by (intro all_parts_mem) (simp add: part_view_def)
  from closing.fold_here [OF all_parts_distinct [OF flushDirty_inv [OF assms(1)]] this, of cio "(True, flushDirty fio b)"]
  show ?thesis
    using v1' s1 by (simp add: broker_Close_def Let_def on_part_def part_close_def log_Close_snd)
qed

section \<open>Theorems\<close>

lemma file_exact_reopened:
  assumes inv: "part_inv cap mode sb (p, foff)" and ex: "file_exact (p, foff)"
    and cs: "\<And>cid. map_of (consumers p3) cid =
        map_option (restored cid win) (case foff of None \<Rightarrow> None | Some f \<Rightarrow> map_of f cid)"
  shows "acked (fst (getOrCreateConsumer cid p3)) = acked (fst (getOrCreateConsumer cid p))"
proof (cases "map_of (consumers p) cid")
  case None
  then have "map_of (consumers p3) cid = None"
    unfolding cs using inv file_okD(1) [of p _ cid] by (cases foff; force simp: part_inv_def split: option.splits)
  then show ?thesis using None by (simp add: getOrCreateConsumer_def Let_def acked_def newConsumer_def)
next
  case (Some c)
  then show ?thesis using ex cs [of cid] by (fastforce simp: file_exact_def getOrCreateConsumer_def restored_acked)
qed

lemma part_close_acked:
  "acked (fst (getOrCreateConsumer cid (fst (part_close fio ok s)))) = acked (fst (getOrCreateConsumer cid (fst s)))"
  using part_flush_acked [of fio s cid]
  by (auto simp: part_close_def getOrCreateConsumer_def Let_def acked_def newConsumer_def split: option.splits prod.splits)

text \<open>A flush that failed is not repeated on the way down: the consumers are no longer dirty.\<close>

lemma failed_flush_not_repeated:
  assumes "flushOffsets fio p foff = (Some e, foff', p')"
  shows "snd (part_close fio' ok (p', foff')) = foff"
proof -
  have "consumers p' = map (\<lambda>(cid, c). (cid, c\<lparr>persistDirty := False\<rparr>)) (consumers p)" "foff' = foff"
    using assms by (auto simp: flushOffsets_def Let_def split: if_splits)
  then have "\<not> partitionHasDirty p'" by (auto simp: partitionHasDirty_def list_ex_iff)
  then show ?thesis using \<open>foff' = foff\<close> by (simp add: part_close_def part_flush_def)
qed


definition delivered_c :: consumer where
  "delivered_c = snd (deliver_record ''t'' 0 7 0 [1, 2, 3] (newConsumer ''c'' 8))"

definition acked_c :: consumer where
  "acked_c = snd (Ack 0 delivered_c)"

lemma acked_c_facts: "acked acked_c = {0}" "persistDirty acked_c"
  by (simp_all add: acked_c_def delivered_c_def deliver_record_def newConsumer_def Ack_def ack_drain.simps
      signalWake_def acked_def Let_def word_le_0_iff set_eq_iff)

lemma acked_part:
  "\<exists>p. part_reach 4 SyncPerMessage 0 (p, None) \<and> plog p = sample_log \<and> consumers p = [(''c'', acked_c)]"
proof -
  obtain p1 where p1: "applyPublish io_ok 7 0 5 ''k'' [1, 2, 3] fresh_part = (Inr (0, False), p1)" "plog p1 = sample_log"
    using sample_publish by blast
  have c1: "consumers p1 = []" "part_window p1 = 8"
    using p1(1) by (auto simp: applyPublish_def fresh_part_def newPartition_def split: prod.splits option.splits sum.splits)
  let ?c = "newConsumer ''c'' 8"
  let ?p2 = "put_consumer ''c'' ?c p1"
  let ?p3 = "put_consumer ''c'' delivered_c ?p2"
  let ?p4 = "put_consumer ''c'' acked_c ?p3"
  have r1: "part_reach 4 SyncPerMessage 0 (p1, None)"
    by (rule pr_step [OF fresh_reach ps_publish [OF _ fresh_room p1(1)]]) simp
  have r2: "part_reach 4 SyncPerMessage 0 (?p2, None)"
    by (rule pr_step [OF r1 ps_attach [where c = ?c and cid = "''c''"]]) (simp add: getOrCreateConsumer_def put_consumer_def c1 Let_def)
  have "cons_step 0 30 (?c, P_Deliver) (delivered_c, P_Test)"
    by (rule cs_deliver [where im = "fst (deliver_record ''t'' 0 7 0 [1, 2, 3] ?c)"]) (simp add: delivered_c_def)
  then have r3: "part_reach 4 SyncPerMessage 0 (?p3, None)"
    by (intro pr_step [OF r2 ps_consumer]) (auto simp: put_consumer_def c1)
  have "\<not> hasAcked delivered_c" by (simp add: delivered_c_def deliver_record_def newConsumer_def Let_def)
  then have "cons_step 0 30 (delivered_c, P_Test) (acked_c, P_Test)"
    by (intro cs_ack [where m = 0 and e = "fst (Ack 0 delivered_c)"]) (simp_all add: acked_c_def)
  then have "part_reach 4 SyncPerMessage 0 (?p4, None)"
    by (intro pr_step [OF r3 ps_consumer]) (auto simp: put_consumer_def c1)
  moreover have "plog ?p4 = sample_log" "consumers ?p4 = [(''c'', acked_c)]"
    using p1(2) c1 by (simp_all add: put_consumer_def)
  ultimately show ?thesis by blast
qed

definition sample_close :: close_io where
  "sample_close = \<lparr>clo_sync = \<lambda>_ _. True, clo_bad = \<lambda>_ _ _. False\<rparr>"


end
