(* ===== verification/State_Machine.thy ===== *)
theory State_Machine
  imports Broker_Safety Proto_Parser
begin

text \<open>
  The replicated state machine (\<^verbatim>\<open>internal/replication/statemachine.go\<close>): \<^verbatim>\<open>Apply\<close> over the surface the broker
  offers it.  The surface is a locale whose laws say when replicas stay in agreement; the broker's
  own mutations interpret it.
\<close>

section \<open>Apply\<close>

text \<open>A panic marks the node as failed; the others are the two results of \<^verbatim>\<open>Apply\<close>.\<close>

datatype sm_result = SM_OK "ApplyResult option" | SM_Err broker_err | SM_Panic

type_synonym 's apply_publish =
  "string \<Rightarrow> int \<Rightarrow> u64 \<Rightarrow> u64 \<Rightarrow> u64 \<Rightarrow> string \<Rightarrow> bytes \<Rightarrow> 's \<Rightarrow> (broker_err + (u64 \<times> bool)) \<times> 's"
type_synonym 's apply_ack = "string \<Rightarrow> int \<Rightarrow> string \<Rightarrow> u64 \<Rightarrow> 's \<Rightarrow> broker_err option \<times> 's"
type_synonym 's apply_create = "string \<Rightarrow> int \<Rightarrow> 's \<Rightarrow> broker_err option \<times> 's"

definition sm_mutation :: "broker_err option \<times> 's \<Rightarrow> sm_result \<times> 's" where
  "sm_mutation r = (case r of (None, s) \<Rightarrow> (SM_OK None, s) | (Some e, s) \<Rightarrow> (SM_Err e, s))"

definition sm_Apply ::
    "'s apply_publish \<Rightarrow> 's apply_ack \<Rightarrow> 's apply_ack \<Rightarrow> 's apply_create \<Rightarrow> u64 \<times> bytes \<Rightarrow> 's \<Rightarrow> sm_result \<times> 's" where
  "sm_Apply pub ack nack create ent s =
     (case ent of (idx, data) \<Rightarrow>
        (case env_Decode data of
           Inl _ \<Rightarrow> (SM_Panic, s)
         | Inr env \<Rightarrow>
             (case env_Kind env of
                KindPublish \<Rightarrow>
                  (case pub (env_Topic env) (sint (env_Partition env)) (env_TsNs env) (env_VisibleAtNs env) idx
                          (env_DedupeKey env) (env_Payload env) s of
                     (Inl e, s') \<Rightarrow> (SM_Err e, s')
                   | (Inr (i, dup), s') \<Rightarrow> (SM_OK (Some \<lparr>ar_MsgID = i, ar_Dup = dup\<rparr>), s'))
              | KindAck \<Rightarrow> sm_mutation (ack (env_Topic env) (sint (env_Partition env)) (env_ConsumerID env) (env_MsgID env) s)
              | KindNack \<Rightarrow> sm_mutation (nack (env_Topic env) (sint (env_Partition env)) (env_ConsumerID env) (env_MsgID env) s)
              | KindCreateTopic \<Rightarrow> sm_mutation (create (env_Topic env) (sint (env_Partitions env)) s))))"

text \<open>The state machine of the broker.\<close>

definition broker_Apply :: "propose \<Rightarrow> broker_io \<Rightarrow> u64 \<times> bytes \<Rightarrow> broker \<Rightarrow> sm_result \<times> broker" where
  "broker_Apply propose io = sm_Apply (ApplyPublish io) (ApplyAck io) (ApplyNack propose io) (ApplyCreateTopic io)"

text \<open>Snapshots are not supported: both calls fail and leave the broker alone.\<close>

datatype snapshot_err = ErrSnapshotUnsupported

definition sm_Snapshot :: "'s \<Rightarrow> (snapshot_err + bytes \<times> u64) \<times> 's" where
  "sm_Snapshot s = (Inl ErrSnapshotUnsupported, s)"

definition sm_Restore :: "bytes \<Rightarrow> 's \<Rightarrow> snapshot_err option \<times> 's" where
  "sm_Restore data s = (Some ErrSnapshotUnsupported, s)"

text \<open>A run over committed entries: the results, until a panic stops the node.\<close>

fun run_entries :: "(u64 \<times> bytes \<Rightarrow> 's \<Rightarrow> sm_result \<times> 's) \<Rightarrow> (u64 \<times> bytes) list \<Rightarrow> 's \<Rightarrow> sm_result list \<times> 's" where
  "run_entries ap [] s = ([], s)"
| "run_entries ap (ent # es) s =
     (case ap ent s of
        (SM_Panic, s') \<Rightarrow> ([SM_Panic], s')
      | (r, s') \<Rightarrow> (case run_entries ap es s' of (rs, s'') \<Rightarrow> (r # rs, s'')))"

text \<open>The result of a publish, which all replicas share; other results depend on local sessions.\<close>

definition published :: "sm_result \<Rightarrow> ApplyResult option" where
  "published r = (case r of SM_OK ar \<Rightarrow> ar | _ \<Rightarrow> None)"

section \<open>The apply surface\<close>

locale apply_surface =
  fixes pub1 pub2 :: "'s apply_publish" and ack1 ack2 nack1 nack2 :: "'s apply_ack"
    and create1 create2 :: "'s apply_create" and agree :: "'s \<Rightarrow> 's \<Rightarrow> bool"
  assumes pub_agree: "agree s1 s2 \<Longrightarrow> pub1 t p ts vis idx key pl s1 = (r1, s1') \<Longrightarrow> pub2 t p ts vis idx key pl s2 = (r2, s2') \<Longrightarrow>
      r1 = r2 \<and> agree s1' s2'"
    and ack_agree: "agree s1 s2 \<Longrightarrow> ack1 t p cid m s1 = (e1, s1') \<Longrightarrow> ack2 t p cid m s2 = (e2, s2') \<Longrightarrow> agree s1' s2'"
    and nack_agree: "agree s1 s2 \<Longrightarrow> nack1 t p cid m s1 = (e1, s1') \<Longrightarrow> nack2 t p cid m s2 = (e2, s2') \<Longrightarrow> agree s1' s2'"
    and create_agree: "agree s1 s2 \<Longrightarrow> create1 t n s1 = (e1, s1') \<Longrightarrow> create2 t n s2 = (e2, s2') \<Longrightarrow> e1 = e2 \<and> agree s1' s2'"
begin

abbreviation apply1 :: "u64 \<times> bytes \<Rightarrow> 's \<Rightarrow> sm_result \<times> 's" where
  "apply1 \<equiv> sm_Apply pub1 ack1 nack1 create1"

abbreviation apply2 :: "u64 \<times> bytes \<Rightarrow> 's \<Rightarrow> sm_result \<times> 's" where
  "apply2 \<equiv> sm_Apply pub2 ack2 nack2 create2"

lemma mutation_agree:
  assumes "agree s1' s2'"
  shows "published (fst (sm_mutation (r1, s1'))) = published (fst (sm_mutation (r2, s2'))) \<and>
     (fst (sm_mutation (r1, s1')) = SM_Panic \<longleftrightarrow> fst (sm_mutation (r2, s2')) = SM_Panic) \<and>
     agree (snd (sm_mutation (r1, s1'))) (snd (sm_mutation (r2, s2')))"
  using assms by (simp add: sm_mutation_def published_def split: option.split)

lemma apply_agree:
  assumes "agree s1 s2"
  shows "published (fst (apply1 ent s1)) = published (fst (apply2 ent s2)) \<and>
     (fst (apply1 ent s1) = SM_Panic \<longleftrightarrow> fst (apply2 ent s2) = SM_Panic) \<and> agree (snd (apply1 ent s1)) (snd (apply2 ent s2))"
proof (cases "env_Decode (snd ent)")
  case (Inl e)
  then show ?thesis using assms by (cases ent) (simp add: sm_Apply_def)
next
  case (Inr env)
  obtain idx data where ent: "ent = (idx, data)" by (cases ent)
  let ?t = "env_Topic env" and ?p = "sint (env_Partition env)" and ?c = "env_ConsumerID env" and ?m = "env_MsgID env"
  show ?thesis
  proof (cases "env_Kind env")
    case KindPublish
    obtain r1 s1' where 1: "pub1 ?t ?p (env_TsNs env) (env_VisibleAtNs env) idx (env_DedupeKey env) (env_Payload env) s1 = (r1, s1')"
      by force
    obtain r2 s2' where 2: "pub2 ?t ?p (env_TsNs env) (env_VisibleAtNs env) idx (env_DedupeKey env) (env_Payload env) s2 = (r2, s2')"
      by force
    from pub_agree [OF assms 1 2] show ?thesis
      using Inr KindPublish 1 2 ent by (cases r2) (auto simp: sm_Apply_def published_def)
  next
    case KindAck
    obtain r1 s1' where 1: "ack1 ?t ?p ?c ?m s1 = (r1, s1')" by force
    obtain r2 s2' where 2: "ack2 ?t ?p ?c ?m s2 = (r2, s2')" by force
    from mutation_agree [OF ack_agree [OF assms 1 2], of r1 r2] show ?thesis
      using Inr KindAck 1 2 ent by (simp add: sm_Apply_def)
  next
    case KindNack
    obtain r1 s1' where 1: "nack1 ?t ?p ?c ?m s1 = (r1, s1')" by force
    obtain r2 s2' where 2: "nack2 ?t ?p ?c ?m s2 = (r2, s2')" by force
    from mutation_agree [OF nack_agree [OF assms 1 2], of r1 r2] show ?thesis
      using Inr KindNack 1 2 ent by (simp add: sm_Apply_def)
  next
    case KindCreateTopic
    obtain r1 s1' where 1: "create1 ?t (sint (env_Partitions env)) s1 = (r1, s1')" by force
    obtain r2 s2' where 2: "create2 ?t (sint (env_Partitions env)) s2 = (r2, s2')" by force
    from create_agree [OF assms 1 2] mutation_agree [of s1' s2' r1 r2] show ?thesis
      using Inr KindCreateTopic 1 2 ent by (simp add: sm_Apply_def)
  qed
qed

lemma run_agree:
  "agree s1 s2 \<Longrightarrow>
   map published (fst (run_entries apply1 es s1)) = map published (fst (run_entries apply2 es s2)) \<and>
   agree (snd (run_entries apply1 es s1)) (snd (run_entries apply2 es s2))"
proof (induction es arbitrary: s1 s2)
  case (Cons ent es)
  note a = apply_agree [OF Cons.prems, of ent]
  then show ?case
    using Cons.IH [of "snd (apply1 ent s1)" "snd (apply2 ent s2)"]
    by (cases "apply1 ent s1"; cases "apply2 ent s2") (auto split: prod.splits sm_result.splits)
qed simp

end

section \<open>Agreement of brokers\<close>

text \<open>
  Two replicas agree when everything that is replicated is equal: configuration, directories, high
  water, and for every topic its partitions' logs and dedupe indexes.  Consumers, subscriptions,
  delivery counters and round-robin cursors are local.
\<close>

definition part_eq :: "partition \<Rightarrow> partition \<Rightarrow> bool" where
  "part_eq p q \<longleftrightarrow>
     plog p = plog q \<and> pdedupe p = pdedupe q \<and> part_topic p = part_topic q \<and> part_id p = part_id q \<and>
     part_dir p = part_dir q \<and> part_window p = part_window q"

definition topic_eq :: "topic \<Rightarrow> topic \<Rightarrow> bool" where
  "topic_eq t u \<longleftrightarrow> t_name t = t_name u \<and> list_all2 part_eq (t_parts t) (t_parts u)"

definition replica_eq :: "broker \<Rightarrow> broker \<Rightarrow> bool" where
  "replica_eq b c \<longleftrightarrow>
     b_config b = b_config c \<and> b_disk b = b_disk c \<and> b_appliedHighWater b = b_appliedHighWater c \<and>
     (\<forall>name. rel_option topic_eq (map_of (b_topics b) name) (map_of (b_topics c) name))"

definition replica_agree :: "broker \<Rightarrow> broker \<Rightarrow> bool" where
  "replica_agree b c \<longleftrightarrow> replica_eq b c \<and> cf_dlqAfterNacks (b_config b) \<le> 0"

lemma part_eq_refl [simp]: "part_eq p p"
  by (simp add: part_eq_def)

lemma topic_eq_refl [simp]: "topic_eq t t"
  by (simp add: topic_eq_def list_all2_refl)

lemma replica_eq_refl [simp]: "replica_eq b b"
  by (simp add: replica_eq_def option.rel_refl)

lemma replica_eqD:
  assumes "replica_eq b c"
  shows "rel_option topic_eq (map_of (b_topics b) name) (map_of (b_topics c) name)"
    "map_of (b_topics b) name = None \<longleftrightarrow> map_of (b_topics c) name = None"
proof -
  show r: "rel_option topic_eq (map_of (b_topics b) name) (map_of (b_topics c) name)"
    using assms by (simp add: replica_eq_def)
  show "map_of (b_topics b) name = None \<longleftrightarrow> map_of (b_topics c) name = None"
    using r by (cases "map_of (b_topics b) name"; cases "map_of (b_topics c) name") auto
qed

lemma openTopic_agree:
  assumes "replica_eq b c" "openTopicLocked io name want b = (r, b')" "openTopicLocked (io\<lparr>bio_now := n\<rparr>) name want c = (r2, c')"
  shows "r = r2 \<and> replica_eq b' c'"
proof -
  have io: "bio_meta (io\<lparr>bio_now := n\<rparr>) = bio_meta io" "bio_open (io\<lparr>bio_now := n\<rparr>) = bio_open io" by simp_all
  have eq: "b_config c = b_config b" "b_disk c = b_disk b" "b_appliedHighWater c = b_appliedHighWater b"
    using assms(1) by (simp_all add: replica_eq_def)
  show ?thesis
    using assms unfolding openTopicLocked_def io eq
    by (auto simp: Let_def replica_eq_def split: sum.splits prod.splits option.splits if_splits)
qed

lemma getOrCreate_agree:
  assumes "replica_eq b c" "getOrCreateTopic io name b = (r, b')" "getOrCreateTopic (io\<lparr>bio_now := n\<rparr>) name c = (r2, c')"
  shows "rel_sum (=) topic_eq r r2 \<and> replica_eq b' c'"
proof (cases "map_of (b_topics b) name")
  case None
  then have "map_of (b_topics c) name = None" using replica_eqD(2) [OF assms(1), of name] by simp
  then have "r = r2 \<and> replica_eq b' c'"
    using assms None openTopic_agree by (simp add: getOrCreateTopic_def)
  then show ?thesis by (cases r) auto
next
  case (Some t)
  then obtain u where "map_of (b_topics c) name = Some u" "topic_eq t u"
    using replica_eqD(1) [OF assms(1), of name] by (auto simp: option_rel_Some1)
  then show ?thesis using assms Some by (auto simp: getOrCreateTopic_def)
qed

lemma partitionAt_agree:
  assumes "replica_eq b c" "partitionAt io name part b = (r, b')" "partitionAt (io\<lparr>bio_now := n\<rparr>) name part c = (r2, c')"
  shows "rel_sum (=) (rel_prod (=) part_eq) r r2 \<and> replica_eq b' c'"
proof -
  obtain g b1 where g: "getOrCreateTopic io name b = (g, b1)" by force
  obtain h c1 where h: "getOrCreateTopic (io\<lparr>bio_now := n\<rparr>) name c = (h, c1)" by force
  note a = getOrCreate_agree [OF assms(1) g h]
  show ?thesis
  proof (cases g)
    case (Inl e)
    then show ?thesis using a assms(2,3) g h by (cases h) (auto simp: partitionAt_def)
  next
    case (Inr t)
    then obtain u where u: "h = Inr u" "topic_eq t u" using a by (cases h) auto
    then have l: "t_count u = t_count t" "list_all2 part_eq (t_parts t) (t_parts u)"
      using list_all2_lengthD by (fastforce simp: topic_eq_def t_count_def)+
    show ?thesis
      using assms(2,3) g h Inr u(1) a l list_all2_nthD [OF l(2)]
      by (auto simp: partitionAt_def t_count_def split: if_splits)
  qed
qed

lemma put_part_agree:
  assumes "replica_eq b c" "part_eq p q"
  shows "replica_eq (put_part name i p b) (put_part name i q c)"
proof -
  note r = replica_eqD(1) [OF assms(1), of name]
  show ?thesis
  proof (cases "map_of (b_topics b) name")
    case None
    then have "map_of (b_topics c) name = None" using replica_eqD(2) [OF assms(1), of name] by simp
    then show ?thesis using None assms(1) by (simp add: put_part_def)
  next
    case (Some t)
    then obtain u where u: "map_of (b_topics c) name = Some u" "topic_eq t u" using r by (auto simp: option_rel_Some1)
    then have "topic_eq (t\<lparr>t_parts := (t_parts t)[i := p]\<rparr>) (u\<lparr>t_parts := (t_parts u)[i := q]\<rparr>)"
      using assms(2) by (auto simp: topic_eq_def intro: list_all2_update_cong)
    then show ?thesis using assms(1) Some u by (simp add: put_part_def replica_eq_def)
  qed
qed

lemma applyPublish_agree:
  assumes "part_eq p q" "applyPublish io ts vis idx key pl p = (r, p')" "applyPublish io ts vis idx key pl q = (r2, q')"
  shows "r = r2 \<and> part_eq p' q'"
proof -
  have eq: "plog q = plog p" "pdedupe q = pdedupe p" using assms(1) by (simp_all add: part_eq_def)
  show ?thesis
    using assms unfolding applyPublish_def eq
    by (auto simp: part_eq_def split: prod.splits option.splits sum.splits if_splits)
qed

lemma ApplyPublish_agree:
  assumes "replica_eq b c" "ApplyPublish io name part ts vis idx key pl b = (r, b')"
    "ApplyPublish (io\<lparr>bio_now := n\<rparr>) name part ts vis idx key pl c = (r2, c')"
  shows "r = r2 \<and> replica_eq b' c'"
proof (cases "idx \<noteq> 0 \<and> idx \<le> b_appliedHighWater b")
  case True
  then show ?thesis using assms by (auto simp: ApplyPublish_def replica_eq_def)
next
  case False
  then have F: "\<not> (idx \<noteq> 0 \<and> idx \<le> b_appliedHighWater c)" using assms(1) by (simp add: replica_eq_def)
  obtain g b1 where g: "partitionAt io name part b = (g, b1)" by force
  obtain h c1 where h: "partitionAt (io\<lparr>bio_now := n\<rparr>) name part c = (h, c1)" by force
  note a = partitionAt_agree [OF assms(1) g h]
  show ?thesis
  proof (cases g)
    case (Inl e)
    then show ?thesis using a assms(2,3) g h False F by (cases h) (auto simp: ApplyPublish_def)
  next
    case (Inr ip)
    obtain i p where ip: "ip = (i, p)" by (cases ip)
    then obtain q where q: "h = Inr (i, q)" "part_eq p q" using a Inr by (cases h) auto
    obtain x p' where x: "applyPublish (bio_append io) ts vis idx key pl p = (x, p')" by force
    obtain y q' where y: "applyPublish (bio_append io) ts vis idx key pl q = (y, q')" by force
    note pa = applyPublish_agree [OF q(2) x y]
    have b': "b' = put_part name i p' b1" "r = map_sum BE_Log id x"
      using assms(2) g Inr ip x False by (auto simp: ApplyPublish_def split: sum.splits)
    have c': "c' = put_part name i q' c1" "r2 = map_sum BE_Log id y"
      using assms(3) h q(1) y F by (auto simp: ApplyPublish_def split: sum.splits)
    show ?thesis using b' c' pa put_part_agree a by blast
  qed
qed

lemma consumer_agree: "part_eq p q \<Longrightarrow> part_eq (put_consumer cid c (snd (getOrCreateConsumer cid' p))) (put_consumer cid2 d (snd (getOrCreateConsumer cid'' q)))"
  by (auto simp: part_eq_def put_consumer_def getOrCreateConsumer_def Let_def split: option.splits)

lemma applyAck_agree:
  assumes "replica_eq b c" "ApplyAck io name part cid m b = (r, b')" "ApplyAck (io\<lparr>bio_now := n\<rparr>) name part cid m c = (r2, c')"
  shows "replica_eq b' c'"
proof -
  obtain g b1 where g: "partitionAt io name part b = (g, b1)" by force
  obtain h c1 where h: "partitionAt (io\<lparr>bio_now := n\<rparr>) name part c = (h, c1)" by force
  note a = partitionAt_agree [OF assms(1) g h]
  show ?thesis
  proof (cases g)
    case (Inl e)
    then show ?thesis using a assms(2,3) g h by (cases h) (auto simp: ApplyAck_def applyAck_def)
  next
    case (Inr ip)
    obtain i p where ip: "ip = (i, p)" by (cases ip)
    then obtain q where q: "h = Inr (i, q)" "part_eq p q" using a Inr by (cases h) auto
    have "\<exists>x. b' = put_part name i (put_consumer cid x (snd (getOrCreateConsumer cid p))) b1"
      using assms(2) g Inr ip by (auto simp: ApplyAck_def applyAck_def split: prod.splits option.splits)
    moreover have "\<exists>x. c' = put_part name i (put_consumer cid x (snd (getOrCreateConsumer cid q))) c1"
      using assms(3) h q(1) by (auto simp: ApplyAck_def applyAck_def split: prod.splits option.splits)
    ultimately show ?thesis using a consumer_agree [OF q(2)] put_part_agree by blast
  qed
qed

lemma openTopic_config: "openTopicLocked io name want b = (r, b') \<Longrightarrow> b_config b' = b_config b"
  by (auto simp: openTopicLocked_def Let_def split: sum.splits prod.splits option.splits if_splits)

lemma partitionAt_config: "partitionAt io name part b = (r, b') \<Longrightarrow> b_config b' = b_config b"
  by (auto simp: partitionAt_def getOrCreateTopic_def dest!: openTopic_config
      split: sum.splits prod.splits option.splits if_splits)

lemma put_part_config [simp]: "b_config (put_part name i p b) = b_config b"
  by (simp add: put_part_def split: option.split)

lemma ApplyPublish_config: "ApplyPublish io name part ts vis idx key pl b = (r, b') \<Longrightarrow> b_config b' = b_config b"
  by (auto simp: ApplyPublish_def dest!: partitionAt_config split: if_splits prod.splits sum.splits)

lemma applyAck_config: "ApplyAck io name part cid m b = (r, b') \<Longrightarrow> b_config b' = b_config b"
  by (auto simp: ApplyAck_def applyAck_def dest!: partitionAt_config split: prod.splits sum.splits option.splits)

lemma create_config: "ApplyCreateTopic io name k b = (r, b') \<Longrightarrow> b_config b' = b_config b"
  by (auto simp: ApplyCreateTopic_def createTopicLocal_def dest!: openTopic_config
      split: option.splits if_splits prod.splits sum.splits)

lemma nack_no_dlq:
  assumes "cf_dlqAfterNacks (b_config b) \<le> 0" "ApplyNack propose io name part cid m b = (r, b')"
    and "partitionAt io name part b = (g, b1)"
  shows "case g of Inl e \<Rightarrow> b' = b1
    | Inr (i, p) \<Rightarrow> \<exists>x. b' = put_part name i (put_consumer cid x (snd (getOrCreateConsumer cid p))) b1"
proof (cases g)
  case (Inl e)
  then show ?thesis using assms(2,3) by (simp add: ApplyNack_def applyNack_def)
next
  case (Inr ip)
  obtain i p where ip: "ip = (i, p)" by (cases ip)
  obtain c p1 where c: "getOrCreateConsumer cid p = (c, p1)" by force
  have z: "dlqThreshold name b1 = 0"
    using assms(1) partitionAt_config [OF assms(3)] by (simp add: dlqThreshold_def)
  obtain k c' where k: "nackOrKill (bio_now io) m 0 c = (k, c')" by force
  from nackOrKill_alive [OF k] show ?thesis
    using assms(2,3) Inr ip c z k by (auto simp: ApplyNack_def applyNack_def)
qed

lemma ApplyNack_agree:
  assumes "replica_agree b c" "ApplyNack propose io name part cid m b = (r, b')"
    "ApplyNack propose (io\<lparr>bio_now := n\<rparr>) name part cid m c = (r2, c')"
  shows "replica_agree b' c'"
proof -
  have ab: "replica_eq b c" "cf_dlqAfterNacks (b_config b) \<le> 0" "cf_dlqAfterNacks (b_config c) \<le> 0"
    using assms(1) by (auto simp: replica_agree_def replica_eq_def)
  obtain g b1 where g: "partitionAt io name part b = (g, b1)" by force
  obtain h c1 where h: "partitionAt (io\<lparr>bio_now := n\<rparr>) name part c = (h, c1)" by force
  note a = partitionAt_agree [OF ab(1) g h] and gc = partitionAt_config [OF g]
  note nb = nack_no_dlq [OF ab(2) assms(2) g] and nc = nack_no_dlq [OF ab(3) assms(3) h]
  show ?thesis
  proof (cases g)
    case (Inl e)
    then show ?thesis using a nb nc ab(2) gc by (cases h) (auto simp: replica_agree_def)
  next
    case (Inr ip)
    obtain i p where ip: "ip = (i, p)" by (cases ip)
    then obtain q where q: "h = Inr (i, q)" "part_eq p q" using a Inr by (cases h) auto
    obtain x where x: "b' = put_part name i (put_consumer cid x (snd (getOrCreateConsumer cid p))) b1"
      using nb Inr ip by auto
    obtain y where y: "c' = put_part name i (put_consumer cid y (snd (getOrCreateConsumer cid q))) c1"
      using nc q(1) by auto
    show ?thesis
      using put_part_agree [OF _ consumer_agree [OF q(2)]] a x y ab(2) gc by (simp add: replica_agree_def)
  qed
qed

lemma create_agree_broker:
  assumes "replica_eq b c" "ApplyCreateTopic io name k b = (r, b')" "ApplyCreateTopic (io\<lparr>bio_now := n\<rparr>) name k c = (r2, c')"
  shows "r = r2 \<and> replica_eq b' c'"
proof (cases "map_of (b_topics b) name")
  case None
  then have N: "map_of (b_topics c) name = None" using replica_eqD(2) [OF assms(1), of name] by simp
  obtain x b1 where x: "openTopicLocked io name k b = (x, b1)" by force
  obtain y c1 where y: "openTopicLocked (io\<lparr>bio_now := n\<rparr>) name k c = (y, c1)" by force
  from openTopic_agree [OF assms(1) x y] show ?thesis
    using assms(2,3) None N x y by (cases y) (auto simp: ApplyCreateTopic_def createTopicLocal_def)
next
  case (Some t)
  then obtain u where u: "map_of (b_topics c) name = Some u" "topic_eq t u"
    using replica_eqD(1) [OF assms(1), of name] by (auto simp: option_rel_Some1)
  then have "t_count u = t_count t" using list_all2_lengthD by (fastforce simp: topic_eq_def t_count_def)
  then show ?thesis using assms Some u by (auto simp: ApplyCreateTopic_def createTopicLocal_def split: if_splits)
qed

text \<open>The broker is an apply surface: two replicas differ at most in their clocks and local state.\<close>

interpretation broker_surface: apply_surface
    "ApplyPublish io" "ApplyPublish (io\<lparr>bio_now := n\<rparr>)" "ApplyAck io" "ApplyAck (io\<lparr>bio_now := n\<rparr>)"
    "ApplyNack propose io" "ApplyNack propose (io\<lparr>bio_now := n\<rparr>)"
    "ApplyCreateTopic io" "ApplyCreateTopic (io\<lparr>bio_now := n\<rparr>)" replica_agree for io n propose
proof (unfold_locales, goal_cases)
  case (1 s1 s2 t p ts vis idx key pl r1 s1' r2 s2')
  then show ?case using ApplyPublish_agree ApplyPublish_config by (metis replica_agree_def)
next
  case (2 s1 s2 t p cid m e1 s1' e2 s2')
  then show ?case using applyAck_agree applyAck_config by (metis replica_agree_def)
next
  case (3 s1 s2 t p cid m e1 s1' e2 s2')
  then show ?case using ApplyNack_agree by blast
next
  case (4 s1 s2 t k e1 s1' e2 s2')
  then show ?case using create_agree_broker create_config by (metis replica_agree_def)
qed

section \<open>Properties\<close>

text \<open>C5: Replicas stay identical.  Two brokers that agree on everything replicated and have dead-lettering off
  still agree after applying the same committed entries, whatever their clocks show and whatever consumers
  are attached to them: every partition has byte for byte the same log and the same dedupe index, and every
  publish returned the same MsgID and duplicate flag on both.\<close>
theorem replicas_agree:
  assumes "replica_eq b c" and "cf_dlqAfterNacks (b_config b) \<le> 0"
  shows "map published (fst (run_entries (broker_Apply propose io) es b)) =
       map published (fst (run_entries (broker_Apply propose (io\<lparr>bio_now := n\<rparr>)) es c)) \<and>
     replica_eq (snd (run_entries (broker_Apply propose io) es b))
       (snd (run_entries (broker_Apply propose (io\<lparr>bio_now := n\<rparr>)) es c))"
  using broker_surface.run_agree [of b c io propose es n] assms
  by (simp add: replica_agree_def broker_Apply_def)

definition other_clock :: "broker_io" where
  "other_clock = sample_bio\<lparr>bio_now := 99\<rparr>"

definition sample_entries :: "(u64 \<times> bytes) list" where
  "sample_entries =
     [(1, env_Encode ((blank_envelope KindCreateTopic)\<lparr>env_Topic := ''t'', env_Partitions := 1\<rparr>)),
      (2, env_Encode ((blank_envelope KindPublish)\<lparr>env_Topic := ''t'', env_Payload := [1]\<rparr>)),
      (3, env_Encode ((blank_envelope KindAck)\<lparr>env_Topic := ''t'', env_ConsumerID := ''c''\<rparr>))]"

definition quiet_broker :: broker where
  "quiet_broker = sample_broker\<lparr>b_config := sample_cf\<lparr>cf_dlqAfterNacks := 0\<rparr>\<rparr>"

theorem replicas_agree_witness:
  "replica_eq (snd (run_entries (broker_Apply (\<lambda>_ b. (Inl BE_Panic, b)) sample_bio) sample_entries quiet_broker))
     (snd (run_entries (broker_Apply (\<lambda>_ b. (Inl BE_Panic, b)) other_clock) sample_entries quiet_broker))"
  using replicas_agree [of quiet_broker quiet_broker "\<lambda>_ b. (Inl BE_Panic, b)" sample_bio sample_entries 99]
  by (simp add: quiet_broker_def other_clock_def)

text \<open>
  What the replicated publish relies on of \<^verbatim>\<open>Propose\<close>: it commits the command at the index it reports and
  returns after the state machine of this node has applied it, with the value or the error of that
  application.
\<close>

definition commits_at :: "propose \<Rightarrow> propose \<Rightarrow> broker_io \<Rightarrow> u64 \<Rightarrow> bool" where
  "commits_at propose inner io idx \<longleftrightarrow>
     (\<forall>data b. propose data b =
        (case broker_Apply inner io (idx, data) b of
           (SM_OK r, b') \<Rightarrow> (Inr (idx, r), b')
         | (SM_Err e, b') \<Rightarrow> (Inl e, b')
         | (SM_Panic, b') \<Rightarrow> (Inl BE_Panic, b')))"

lemma sint_of_int_u32: "- (2 ^ 31) \<le> k \<Longrightarrow> k < 2 ^ 31 \<Longrightarrow> sint (of_int k :: u32) = k"
  by (simp add: signed_of_int signed_take_bit_int_eq_self)

lemma apply_publish_entry:
  assumes "length (env_Encode env) \<le> maxEnvelopeSize" "env_Kind env = KindPublish"
    and "map_of (b_topics b) (env_Topic env) = Some t" "sint (env_Partition env) = int i" "i < length (t_parts t)"
    and "b_appliedHighWater b < idx"
    and "applyPublish (bio_append io) (env_TsNs env) (env_VisibleAtNs env) idx (env_DedupeKey env) (env_Payload env)
       (t_parts t ! i) = (r, p')"
  shows "broker_Apply inner io (idx, env_Encode env) b =
     (case r of Inl e \<Rightarrow> SM_Err (BE_Log e) | Inr (m, dup) \<Rightarrow> SM_OK (Some \<lparr>ar_MsgID = m, ar_Dup = dup\<rparr>),
      put_part (env_Topic env) i p' b)"
proof -
  have "partitionAt io (env_Topic env) (sint (env_Partition env)) b = (Inr (i, t_parts t ! i), b)"
    using partitionAt_open [OF assms(3), of "int i" io] assms(4,5) by (simp add: t_count_def)
  then show ?thesis
    using assms(2,6,7)
    by (cases r) (auto simp: broker_Apply_def sm_Apply_def env_Encode_Decode [OF assms(1)] ApplyPublish_def)
qed

text \<open>C12: A replicated publish is a local publish stamped with its raft index: routing, encoding, committing,
  decoding and dispatching together append to the partition that was routed to, with the leader's time stamp
  and visibility time, and return the MsgID and duplicate flag of that append; an error of the log is the
  caller's error; and the barrier runs only for a new message that asked for one.\<close>
theorem replicated_publish_is_local:
  assumes "commits_at propose inner io2 idx" and "b_raft b" and "map_of (b_topics b) name = Some t" and "t_name t = name"
    and "route part pset rk t = (Inr i, t1)" and "i < length (t_parts t)" and "i < 2 ^ 31"
    and "part_id (t_parts t ! i) = int i" and "b_appliedHighWater b < idx"
    and "50 + length name + length key + length payload \<le> maxEnvelopeSize"
    and "applyPublish (bio_append io2) (of_int (bio_now io)) (visible_at (bio_now io) delayMs) idx key payload
       (t_parts t ! i) = (r, p')"
  shows "PublishCtx propose waits io name key rk part pset payload delayMs n b =
     ((case r of
         Inl e \<Rightarrow> (0, int i, False, Some (BE_Log e))
       | Inr (m, dup) \<Rightarrow> (m, int i, dup, if n > 0 \<and> \<not> dup then waits idx else None)),
      put_part name i p' (put_topic t1 b))"
proof -
  note k = route_keeps [OF assms(5)]
  let ?b = "put_topic t1 b"
  let ?env = "(blank_envelope KindPublish)\<lparr>env_Topic := name, env_Partition := of_int (int i), env_DedupeKey := key,
      env_TsNs := of_int (bio_now io), env_VisibleAtNs := visible_at (bio_now io) delayMs, env_Payload := payload\<rparr>"
  have b: "map_of (b_topics ?b) name = Some t1" "b_raft ?b" "b_appliedHighWater ?b < idx"
    using k assms(2,4,9) by (simp_all add: put_topic_def)
  have "broker_Apply inner io2 (idx, env_Encode ?env) ?b =
      (case r of Inl e \<Rightarrow> SM_Err (BE_Log e) | Inr (m, dup) \<Rightarrow> SM_OK (Some \<lparr>ar_MsgID = m, ar_Dup = dup\<rparr>), put_part name i p' ?b)"
    using apply_publish_entry [of ?env ?b t1 i idx io2 r p' inner] assms(6,7,10,11) b k sint_of_int_u32 [of "int i"]
    by (simp add: length_env_Encode blank_envelope_def)
  then have pp: "proposePublish propose (bio_now io) name (int i) key payload delayMs ?b =
      (case r of Inl e \<Rightarrow> Inl (BE_Log e) | Inr (m, dup) \<Rightarrow> Inr (m, dup, idx), put_part name i p' ?b)"
    using assms(1) by (cases r) (auto simp: proposePublish_def commits_at_def)
  have g: "getOrCreateTopic io name b = (Inr t, b)" using assms(3) by (simp add: getOrCreateTopic_def)
  show ?thesis
    using pp b(2) k assms(8) by (cases r) (auto simp: PublishCtx_def g assms(5) Let_def)
qed

definition commit_now :: "broker_io \<Rightarrow> u64 \<Rightarrow> propose" where
  "commit_now io idx = (\<lambda>data b.
     case broker_Apply (\<lambda>_ b. (Inl BE_Panic, b)) io (idx, data) b of
       (SM_OK r, b') \<Rightarrow> (Inr (idx, r), b')
     | (SM_Err e, b') \<Rightarrow> (Inl e, b')
     | (SM_Panic, b') \<Rightarrow> (Inl BE_Panic, b'))"

theorem replicated_publish_is_local_witness:
  "fst (PublishCtx (commit_now sample_bio 5) (\<lambda>_. None) sample_bio ''t'' ''k'' [] 0 False [1, 2, 3] 0 0
     (AttachRaft (sample_broker\<lparr>b_topics := [(''t'', newTopic ''t'' [fresh_part])]\<rparr>))) = (0, 0, False, None)"
proof -
  let ?b = "AttachRaft (sample_broker\<lparr>b_topics := [(''t'', newTopic ''t'' [fresh_part])]\<rparr>)"
  obtain p1 where p1: "applyPublish io_ok 7 0 5 ''k'' [1, 2, 3] fresh_part = (Inr (0, False), p1)"
    using sample_publish by blast
  have "commits_at (commit_now sample_bio 5) (\<lambda>_ b. (Inl BE_Panic, b)) sample_bio 5"
    by (simp add: commits_at_def commit_now_def)
  from replicated_publish_is_local [OF this, of ?b "''t''" "newTopic ''t'' [fresh_part]" 0 False "[]" 0 "newTopic ''t'' [fresh_part]"
      "''k''" "[1, 2, 3]" sample_bio 0 "Inr (0, False)" p1 "\<lambda>_. None" 0] p1
  show ?thesis
    by (simp add: AttachRaft_def sample_broker_def newTopic_def route_def fresh_part_def newPartition_def
        maxEnvelopeSize_def sample_bio_def visible_at_def)
qed

end
