(* ===== verification/Session.thy ===== *)
theory Session
  imports State_Machine Client_Conn
begin

text \<open>
  A server session (\<^verbatim>\<open>internal/server/session.go\<close>, \<^verbatim>\<open>auth.go\<close>): the handshake, the reader with one
  definition per command handler over the broker, and the writer.  Error texts are arguments.  The
  queue of responses and the queue of deliveries are lists; a response waits for room in its channel,
  so it is never dropped while the writer lives.
\<close>

section \<open>Authentication\<close>

definition serverMaxVersion :: int where
  "serverMaxVersion = 1"

definition defaultMaxPayload :: nat where
  "defaultMaxPayload = 2 ^ 20"

definition sendChBuf :: nat where
  "sendChBuf = 64"

record authConfig =
  requireHello :: bool
  tokens :: "string list"

definition authEnabled :: "authConfig \<Rightarrow> bool" where
  "authEnabled a \<longleftrightarrow> length (tokens a) > 0"

text \<open>\<^verbatim>\<open>ConstantTimeCompare\<close> is 1 on equal byte strings and 0 otherwise; the results are joined by a bitwise or.\<close>

definition checkToken :: "authConfig \<Rightarrow> string \<Rightarrow> bool" where
  "checkToken a tk \<longleftrightarrow> fold (\<lambda>t m. m OR (if tk = t then 1 else 0)) (tokens a) (0 :: int) = 1"

fun Split :: "char \<Rightarrow> string \<Rightarrow> string list" where
  "Split sep [] = [[]]"
| "Split sep (c # cs) =
     (if c = sep then [] # Split sep cs
      else case Split sep cs of [] \<Rightarrow> [[c]] | l # ls \<Rightarrow> (c # l) # ls)"

text \<open>The token file, \<open>None\<close> when it cannot be read or holds no token.\<close>

definition LoadTokens :: "string option \<Rightarrow> string list option" where
  "LoadTokens data =
     (case data of
        None \<Rightarrow> None
      | Some d \<Rightarrow>
          let ts = filter (\<lambda>t. t \<noteq> [] \<and> \<not> HasPrefix t ''#'') (map TrimSpace (Split (CHR 0x0A) d))
          in if ts = [] then None else Some ts)"

section \<open>Sessions\<close>

text \<open>A subscription held by the session: topic, partition, consumer, number.\<close>

type_synonym held_sub = "string \<times> nat \<times> string \<times> nat"

record session =
  ss_auth :: authConfig
  ss_resp :: "frame list"
  ss_send :: "inflight_msg list"
  ss_currentTopic :: string
  ss_currentSubs :: "held_sub list"
  ss_currentCancel :: bool
  ss_cancelled :: "nat list"
  ss_traceparent :: string
  ss_tracestate :: string

definition NewSession :: "authConfig \<Rightarrow> session" where
  "NewSession a = \<lparr>ss_auth = a, ss_resp = [], ss_send = [], ss_currentTopic = [], ss_currentSubs = [],
     ss_currentCancel = False, ss_cancelled = [], ss_traceparent = [], ss_tracestate = []\<rparr>"

text \<open>
  What one command meets: the raft node, the outcome of a replication wait for a number of replicas, a
  timeout and an index, the file system and clock, error texts, the next subscription number, and
  whether the server is shutting down.
\<close>

record session_env =
  se_propose :: propose
  se_waits :: "int \<Rightarrow> int \<Rightarrow> u64 \<Rightarrow> broker_err option"
  se_io :: broker_io
  se_node :: raft_node
  se_errtext :: "broker_err \<Rightarrow> string"
  se_prototext :: "proto_err \<Rightarrow> string"
  se_sid :: nat
  se_ctxDone :: bool

definition sendResp :: "frame \<Rightarrow> session \<Rightarrow> session" where
  "sendResp f s = s\<lparr>ss_resp := ss_resp s @ [f]\<rparr>"

text \<open>The pending trace context is taken by the next request that carries one.\<close>

definition takeTraceCtx :: "session \<Rightarrow> session" where
  "takeTraceCtx s = (if ss_traceparent s = [] then s else s\<lparr>ss_traceparent := [], ss_tracestate := []\<rparr>)"

definition sendIfNotLeader :: "session_env \<Rightarrow> broker_err \<Rightarrow> broker \<Rightarrow> session \<Rightarrow> bool \<times> session" where
  "sendIfNotLeader env e b s =
     (case NotLeaderHint (se_node env) b e of
        (hint, ok) \<Rightarrow> (if ok then (True, sendResp (F_Err ''NOTLEADER'' hint) s) else (False, s)))"

definition send_failure :: "session_env \<Rightarrow> string \<Rightarrow> broker_err \<Rightarrow> broker \<Rightarrow> session \<Rightarrow> session" where
  "send_failure env code e b s =
     (case sendIfNotLeader env e b s of
        (True, s') \<Rightarrow> s' | (False, s') \<Rightarrow> sendResp (F_Err code (se_errtext env e)) s')"

subsection \<open>Handlers\<close>

definition wait_timeout :: "u64 \<Rightarrow> int" where
  "wait_timeout ms = sint (ms * 1000000)"

definition handlePub :: "session_env \<Rightarrow> PubCommand \<Rightarrow> session \<times> broker \<Rightarrow> session \<times> broker" where
  "handlePub env c sb =
     (case sb of (s, b) \<Rightarrow>
        let s1 = takeTraceCtx s in
        case PublishCtx (se_propose env) (se_waits env (pub_WaitReplicas c) (wait_timeout (pub_WaitTimeoutMs c)))
               (se_io env) (pub_Topic c) (pub_DedupeKey c) (pub_RoutingKey c) (pub_Partition c) (pub_PartitionSet c)
               (pub_Payload c) (pub_DelayMs c) (pub_WaitReplicas c) b of
          ((i, _, dup, Some e), b1) \<Rightarrow>
            (if e = BE_WaitTimeout then (sendResp (F_Err ''WAIT_TIMEOUT'' (dec (unat i))) s1, b1)
             else (send_failure env ''PUB_FAILED'' e b1 s1, b1))
        | ((i, _, dup, None), b1) \<Rightarrow>
            (sendResp (F_OK i) (if dup then sendResp (F_Dup i) s1 else s1), b1))"

definition handleCreate :: "session_env \<Rightarrow> string \<Rightarrow> int \<Rightarrow> session \<times> broker \<Rightarrow> session \<times> broker" where
  "handleCreate env t n sb =
     (case sb of (s, b) \<Rightarrow>
        (case CreateTopic (se_propose env) (se_io env) t n b of
           (Some e, b1) \<Rightarrow> (send_failure env ''CREATE_FAILED'' e b1 s, b1)
         | (None, b1) \<Rightarrow> (sendResp (F_OK 0) s, b1)))"

definition handleAck :: "session_env \<Rightarrow> string \<Rightarrow> int \<Rightarrow> u64 \<Rightarrow> session \<times> broker \<Rightarrow> session \<times> broker" where
  "handleAck env cid part i sb =
     (case sb of (s, b) \<Rightarrow>
        if ss_currentTopic s = [] then (sendResp (F_Err ''NO_SUB'' ''ACK requires a prior SUB'') s, b)
        else let s1 = takeTraceCtx s in
          case AckCtx (se_propose env) (se_io env) (ss_currentTopic s) part cid i b of
            (Some e, b1) \<Rightarrow> (send_failure env ''ACK_FAILED'' e b1 s1, b1)
          | (None, b1) \<Rightarrow> (sendResp (F_OK i) s1, b1))"

definition handleNack :: "session_env \<Rightarrow> string \<Rightarrow> int \<Rightarrow> u64 \<Rightarrow> session \<times> broker \<Rightarrow> session \<times> broker" where
  "handleNack env cid part i sb =
     (case sb of (s, b) \<Rightarrow>
        if ss_currentTopic s = [] then (sendResp (F_Err ''NO_SUB'' ''NACK requires a prior SUB'') s, b)
        else let s1 = takeTraceCtx s in
          case NackCtx (se_propose env) (se_io env) (length (ss_send s) < sendChBuf) (ss_currentTopic s) part cid i b of
            ((Some e, pushes), b1) \<Rightarrow> (send_failure env ''NACK_FAILED'' e b1 s1, b1)
          | ((None, pushes), b1) \<Rightarrow> (sendResp (F_OK i) (s1\<lparr>ss_send := ss_send s1 @ pushes\<rparr>), b1))"

definition cancel_current :: "session \<Rightarrow> session" where
  "cancel_current s =
     (if ss_currentCancel s
      then s\<lparr>ss_cancelled := ss_cancelled s @ map (\<lambda>(_, _, _, sid). sid) (ss_currentSubs s), ss_currentSubs := [],
             ss_currentCancel := False\<rparr>
      else s)"

definition handleSub :: "session_env \<Rightarrow> SubCommand \<Rightarrow> session \<times> broker \<Rightarrow> session \<times> broker" where
  "handleSub env c sb =
     (case sb of (s0, b) \<Rightarrow>
        let s = cancel_current s0 in
        if \<not> sub_Stale c \<and> \<not> IsLeader (se_node env) b
        then (sendResp (F_Err ''NOTLEADER'' (LeaderHint (se_node env) b)) s, b)
        else (case TopicPartitions (se_io env) (sub_Topic c) b of
          (Inl e, b1) \<Rightarrow> (sendResp (F_Err ''SUB_FAILED'' (se_errtext env e)) s, b1)
        | (Inr cnt, b1) \<Rightarrow>
            if \<not> sub_AllPartitions c \<and> (sub_Partition c < 0 \<or> sub_Partition c \<ge> cnt)
            then (sendResp (F_Err ''SUB_FAILED'' ''partition out of range'') s, b1)
            else (case SubStartCheck (se_io env) (sub_Topic c) (sub_Partition c) (sub_AllPartitions c) (sub_ConsumerID c) b1 of
              (Some e, b2) \<Rightarrow>
                (sendResp (F_Err (if e = BE_SubOutOfRange then ''OUT_OF_RANGE'' else ''SUB_FAILED'') (se_errtext env e)) s, b2)
            | (None, b2) \<Rightarrow>
                let s1 = takeTraceCtx (sendResp (F_OK 0) s) in
                (case Subscribe (se_io env) (se_sid env) (sub_Topic c) (sub_Partition c) (sub_AllPartitions c)
                        (sub_ConsumerID c) b2 of
                   (Inl e, b3) \<Rightarrow> (s1, b3)
                 | (Inr (prev, subs), b3) \<Rightarrow>
                     (s1\<lparr>ss_currentSubs := map (\<lambda>(i, sid). (sub_Topic c, i, sub_ConsumerID c, sid)) subs,
                         ss_currentCancel := True, ss_currentTopic := sub_Topic c,
                         ss_cancelled := ss_cancelled s1 @ prev\<rparr>, b3)))))"

definition pause_sub :: "bool \<Rightarrow> held_sub \<Rightarrow> broker \<Rightarrow> broker" where
  "pause_sub pz h b =
     (case h of (t, i, cid, sid) \<Rightarrow>
        (case get_part t i b of None \<Rightarrow> b | Some p \<Rightarrow> put_part t i (SetPaused pz cid p) b))"

definition handlePauseResume :: "bool \<Rightarrow> session \<times> broker \<Rightarrow> session \<times> broker" where
  "handlePauseResume pz sb =
     (case sb of (s, b) \<Rightarrow>
        if ss_currentSubs s = []
        then (sendResp (F_Err ''NO_SUB'' ((if pz then ''PAUSE'' else ''RESUME'') @ '' requires a prior SUB'')) s, b)
        else (sendResp (F_OK 0) s, fold (pause_sub pz) (ss_currentSubs s) b))"

definition info_lines :: "ReplicationStatus \<Rightarrow> string list" where
  "info_lines st =
     (''role:'' @ rs_Role st) #
     (if rs_Role st \<noteq> ''standalone''
      then [''leader:'' @ rs_LeaderID st, ''term:'' @ dec (unat (rs_Term st)),
            ''commit_index:'' @ dec (unat (rs_CommitIndex st)), ''apply_index:'' @ dec (unat (rs_ApplyIndex st)),
            ''last_log_index:'' @ dec (unat (rs_LastLogIndex st)), ''connected_replicas:'' @ dec (length (rs_Peers st))] @
           concat (map (\<lambda>p. [''replica_'' @ ps_ID p @ ''_match_index:'' @ dec (unat (ps_MatchIndex p)),
              ''replica_'' @ ps_ID p @ ''_lag_entries:'' @ dec (unat (ps_LagEntries p))]) (rs_Peers st))
      else [])"

definition handleInfo :: "session_env \<Rightarrow> session \<times> broker \<Rightarrow> session \<times> broker" where
  "handleInfo env sb =
     (case sb of (s, b) \<Rightarrow> (sendResp (F_Info (info_lines (ReplicationStatus_of (se_node env) b))) s, b))"

fun handleCommand :: "session_env \<Rightarrow> Command \<Rightarrow> session \<times> broker \<Rightarrow> session \<times> broker" where
  "handleCommand env (C_Pub c) sb = handlePub env c sb"
| "handleCommand env (C_Ack cid p i) sb = handleAck env cid p i sb"
| "handleCommand env (C_Nack cid p i) sb = handleNack env cid p i sb"
| "handleCommand env (C_Sub c) sb = handleSub env c sb"
| "handleCommand env (C_Create t n) sb = handleCreate env t n sb"
| "handleCommand env C_Pause sb = handlePauseResume True sb"
| "handleCommand env C_Resume sb = handlePauseResume False sb"
| "handleCommand env (C_Traceparent tp ts) sb =
     (case sb of (s, b) \<Rightarrow> (s\<lparr>ss_traceparent := tp, ss_tracestate := ts\<rparr>, b))"
| "handleCommand env (C_Info sect) sb = handleInfo env sb"

subsection \<open>The reader\<close>

text \<open>\<open>False\<close> stops the reader.\<close>

definition handleParsed :: "session_env \<Rightarrow> proto_err + Command \<Rightarrow> session \<times> broker \<Rightarrow> bool \<times> session \<times> broker" where
  "handleParsed env r sb =
     (case r of
        Inl e \<Rightarrow>
          if e = PE_EOF then (False, sb)
          else if e = PE_InvalidCommand \<or> e = PE_PayloadTooLarge
          then (True, sendResp (F_Err ''INVALID'' (se_prototext env e)) (fst sb), snd sb)
          else (False, sb)
      | Inr cmd \<Rightarrow> (if se_ctxDone env then (False, sb) else (True, handleCommand env cmd sb)))"

definition processLine ::
    "session_env \<Rightarrow> string \<Rightarrow> stream \<Rightarrow> session \<times> broker \<Rightarrow> bool \<times> stream \<times> session \<times> broker" where
  "processLine env line strm sb =
     (case ParseCommandLine line defaultMaxPayload strm of
        (r, strm') \<Rightarrow> (case handleParsed env r sb of (cont, sb') \<Rightarrow> (cont, strm', sb')))"

lemma handleParsed_continues:
  assumes "handleParsed env r sb = (True, sb')" "ReadCommand mp strm = (r, strm')"
  shows "length (sbuf strm') < length (sbuf strm)"
  using assms(1) ReadCommand_progress [OF assms(2)]
  by (auto simp: handleParsed_def split: sum.splits if_splits)

text \<open>The loop, with the environment of each iteration.\<close>

function session_loop :: "(nat \<Rightarrow> session_env) \<Rightarrow> nat \<Rightarrow> stream \<Rightarrow> session \<times> broker \<Rightarrow> stream \<times> session \<times> broker" where
  "session_loop env k strm sb =
     (case ReadCommand defaultMaxPayload strm of
        (r, strm') \<Rightarrow>
          (case handleParsed (env k) r sb of
             (cont, sb') \<Rightarrow> if cont then session_loop env (Suc k) strm' sb' else (strm', sb')))"
  by pat_completeness auto
termination
  by (relation "measure (\<lambda>(env, k, strm, sb). length (sbuf strm))")
     (auto dest!: handleParsed_continues [OF sym] simp: eq_commute [of "(_, _)" "ReadCommand _ _"])

declare session_loop.simps [simp del]

definition runReader ::
    "(nat \<Rightarrow> session_env) \<Rightarrow> string \<Rightarrow> stream \<Rightarrow> session \<times> broker \<Rightarrow> stream \<times> session \<times> broker" where
  "runReader env compatLine strm sb =
     (if compatLine \<noteq> []
      then (case processLine (env 0) compatLine strm sb of
              (cont, strm', sb') \<Rightarrow> if cont then session_loop env 1 strm' sb' else (strm', sb'))
      else session_loop env 0 strm sb)"

text \<open>The handshake: the line to process as a command, and whether to proceed.\<close>

definition server_handshake ::
    "authConfig \<Rightarrow> (proto_err \<Rightarrow> string) \<Rightarrow> stream \<Rightarrow> writer \<Rightarrow> (string \<times> bool) \<times> stream \<times> writer" where
  "server_handshake a txt strm w =
     (case ReadHello strm of
        (Inl e, line, strm') \<Rightarrow>
          if e = PE_EOF then (([], False), strm', w)
          else if e = PE_NotHello
          then (if requireHello a
                then (([], False), strm', snd (WriteErr ''HELLO'' ''expected HELLO as first frame'' w))
                else ((line, True), strm', w))
          else (([], False), strm', snd (WriteErr ''HELLO'' (txt e) w))
      | (Inr h, line, strm') \<Rightarrow>
          if authEnabled a \<and> \<not> checkToken a (hello_Token h)
          then (([], False), strm', snd (WriteErr ''AUTH'' ''invalid or missing token'' w))
          else (case WriteHelloOK (min (hello_Version h) serverMaxVersion) w of
                  (ok, w') \<Rightarrow> (([], ok), strm', w')))"

text \<open>
  A whole session: the stream, the session and the broker at its end, and what the handshake wrote.
  The subscription is cancelled last.
\<close>

definition Run ::
    "(nat \<Rightarrow> session_env) \<Rightarrow> authConfig \<Rightarrow> stream \<Rightarrow> writer \<Rightarrow> broker \<Rightarrow> stream \<times> session \<times> broker \<times> writer" where
  "Run env a strm w b =
     (case server_handshake a (se_prototext (env 0)) strm w of
        ((compatLine, ok), strm1, w1) \<Rightarrow>
          if \<not> ok then (strm1, NewSession a, b, w1)
          else (case runReader env compatLine strm1 (NewSession a, b) of
                  (strm2, s, b') \<Rightarrow> (strm2, cancel_current s, b', w1)))"

subsection \<open>The writer\<close>

text \<open>
  The writer looks at the responses and at the quit signal first (\<open>W_First\<close>); only when neither is ready
  does it wait for a response, a delivery or the signal (\<open>W_Second\<close>), where it takes any that is ready.
  The reader and the delivery goroutines queue frames at any time.  A failed write ends it.  The last two
  fields are history: all that was queued.
\<close>

datatype writer_pc = W_First | W_Second | W_Done

record writer_state =
  wr_pc :: writer_pc
  wr_resp :: "frame list"
  wr_send :: "frame list"
  wr_quit :: bool
  wr_out :: "frame list"
  wr_queued_resp :: "frame list"
  wr_queued_send :: "frame list"

definition writer_start :: writer_state where
  "writer_start = \<lparr>wr_pc = W_First, wr_resp = [], wr_send = [], wr_quit = False, wr_out = [],
     wr_queued_resp = [], wr_queued_send = []\<rparr>"

inductive writer_step :: "writer_state \<Rightarrow> writer_state \<Rightarrow> bool" where
  respond: "\<lbrakk>wr_pc w = W_First \<or> wr_pc w = W_Second; wr_resp w = f # fs\<rbrakk> \<Longrightarrow>
     writer_step w (w\<lparr>wr_pc := W_First, wr_resp := fs, wr_out := wr_out w @ [f]\<rparr>)"
| push: "\<lbrakk>wr_pc w = W_Second; wr_send w = f # fs\<rbrakk> \<Longrightarrow>
     writer_step w (w\<lparr>wr_pc := W_First, wr_send := fs, wr_out := wr_out w @ [f]\<rparr>)"
| quit: "\<lbrakk>wr_pc w = W_First \<or> wr_pc w = W_Second; wr_quit w\<rbrakk> \<Longrightarrow> writer_step w (w\<lparr>wr_pc := W_Done\<rparr>)"
| default: "\<lbrakk>wr_pc w = W_First; wr_resp w = []; \<not> wr_quit w\<rbrakk> \<Longrightarrow> writer_step w (w\<lparr>wr_pc := W_Second\<rparr>)"
| fail_resp: "\<lbrakk>wr_pc w = W_First \<or> wr_pc w = W_Second; wr_resp w = f # fs\<rbrakk> \<Longrightarrow>
     writer_step w (w\<lparr>wr_pc := W_Done, wr_resp := fs\<rparr>)"
| fail_push: "\<lbrakk>wr_pc w = W_Second; wr_send w = f # fs\<rbrakk> \<Longrightarrow>
     writer_step w (w\<lparr>wr_pc := W_Done, wr_send := fs\<rparr>)"
| queue_resp: "\<lbrakk>wr_pc w \<noteq> W_Done; \<not> wr_quit w; \<forall>t p i pl. f \<noteq> F_Msg t p i pl\<rbrakk> \<Longrightarrow>
     writer_step w (w\<lparr>wr_resp := wr_resp w @ [f], wr_queued_resp := wr_queued_resp w @ [f]\<rparr>)"
| queue_send: "length (wr_send w) < sendChBuf \<Longrightarrow> 
     writer_step w (w\<lparr>wr_send := wr_send w @ [F_Msg t p i pl],
       wr_queued_send := wr_queued_send w @ [F_Msg t p i pl]\<rparr>)"
| close_quit: "writer_step w (w\<lparr>wr_quit := True\<rparr>)"

section \<open>Lemmas on authentication\<close>

lemma or_bit: "(m :: int) = 0 \<or> m = 1 \<Longrightarrow> m OR (if c then 1 else 0) = (if m = 1 \<or> c then 1 else 0)"
  by auto

lemma or_bit_fold:
  "(m :: int) = 0 \<or> m = 1 \<Longrightarrow>
     fold (\<lambda>t m. m OR (if tk = t then 1 else 0)) ts m = (if m = 1 \<or> tk \<in> set ts then 1 else 0)"
proof (induction ts arbitrary: m)
  case (Cons t ts)
  show ?case using Cons.IH [of "if m = 1 \<or> tk = t then 1 else 0"] by (simp only: fold_simps or_bit [OF Cons.prems]) auto
qed auto

lemma checkToken_iff: "checkToken a tk \<longleftrightarrow> tk \<in> set (tokens a)"
  by (simp add: checkToken_def or_bit_fold)

lemma LoadTokens_enables: "LoadTokens d = Some ts \<Longrightarrow> authEnabled \<lparr>requireHello = r, tokens = ts\<rparr> \<and> [] \<notin> set ts"
  by (auto simp: LoadTokens_def authEnabled_def Let_def split: option.splits if_splits)

lemma handshake_gate:
  assumes "server_handshake a txt strm w = ((line, True), strm1, w1)" "requireHello a" "authEnabled a"
  shows "line = [] \<and> (\<exists>h l. ReadHello strm = (Inr h, l, strm1) \<and> hello_Token h \<in> set (tokens a))"
  using assms by (auto simp: server_handshake_def checkToken_iff split: prod.splits sum.splits if_splits)

section \<open>Lemmas on responses\<close>

lemma ss_resp_simps [simp]:
  "ss_resp (sendResp f s) = ss_resp s @ [f]" "ss_resp (takeTraceCtx s) = ss_resp s"
  "ss_resp (cancel_current s) = ss_resp s"
  by (simp_all add: sendResp_def takeTraceCtx_def cancel_current_def)

lemma send_failure_one: "\<exists>f. ss_resp (send_failure env code e b s) = ss_resp s @ [f]"
  by (auto simp: send_failure_def sendIfNotLeader_def split: prod.splits bool.splits if_splits)

lemma handlePub_resp:
  "\<exists>rs. ss_resp (fst (handlePub env c (s, b))) = ss_resp s @ rs \<and> (length rs = 1 \<or> (\<exists>i. rs = [F_Dup i, F_OK i]))"
proof -
  obtain i p dup err b1 where r:
    "PublishCtx (se_propose env) (se_waits env (pub_WaitReplicas c) (wait_timeout (pub_WaitTimeoutMs c)))
       (se_io env) (pub_Topic c) (pub_DedupeKey c) (pub_RoutingKey c) (pub_Partition c) (pub_PartitionSet c)
       (pub_Payload c) (pub_DelayMs c) (pub_WaitReplicas c) b = ((i, p, dup, err), b1)"
    by (metis prod.exhaust)
  show ?thesis
  proof (cases err)
    case None
    then show ?thesis by (simp add: handlePub_def Let_def r)
  next
    case (Some e)
    obtain f where "ss_resp (send_failure env ''PUB_FAILED'' e b1 (takeTraceCtx s)) = ss_resp s @ [f]"
      using send_failure_one [of env "''PUB_FAILED''" e b1 "takeTraceCtx s"] by auto
    then show ?thesis using Some by (simp add: handlePub_def Let_def r)
  qed
qed

lemma handleSub_resp: "\<exists>f. ss_resp (fst (handleSub env c (s, b))) = ss_resp s @ [f]"
  by (auto simp: handleSub_def Let_def split: prod.splits option.splits sum.splits)

lemma handleCreate_resp: "\<exists>f. ss_resp (fst (handleCreate env t n (s, b))) = ss_resp s @ [f]"
  using send_failure_one [of env "''CREATE_FAILED''" _ _ s]
  by (auto simp: handleCreate_def split: prod.splits option.splits)

lemma handleAck_resp: "\<exists>f. ss_resp (fst (handleAck env cid p i (s, b))) = ss_resp s @ [f]"
  using send_failure_one [of env "''ACK_FAILED''" _ _ "takeTraceCtx s"]
  by (auto simp: handleAck_def Let_def split: prod.splits option.splits)

lemma handleNack_resp: "\<exists>f. ss_resp (fst (handleNack env cid p i (s, b))) = ss_resp s @ [f]"
  using send_failure_one [of env "''NACK_FAILED''" _ _ "takeTraceCtx s"]
  by (auto simp: handleNack_def Let_def split: prod.splits option.splits)

lemma handlePauseResume_resp: "\<exists>f. ss_resp (fst (handlePauseResume pz (s, b))) = ss_resp s @ [f]"
  by (simp add: handlePauseResume_def)

lemma handleInfo_resp: "\<exists>f. ss_resp (fst (handleInfo env (s, b))) = ss_resp s @ [f]"
  by (simp add: handleInfo_def)

lemmas handler_resps = handleSub_resp handleCreate_resp handleAck_resp handleNack_resp handlePauseResume_resp
  handleInfo_resp

section \<open>Lemmas on the reader\<close>

text \<open>The iterations of the loop, counted.\<close>

inductive reader_iter ::
    "(nat \<Rightarrow> session_env) \<Rightarrow> nat \<Rightarrow> stream \<Rightarrow> session \<times> broker \<Rightarrow> nat \<Rightarrow> stream \<Rightarrow> session \<times> broker \<Rightarrow> bool"
  for env where
  stop: "\<lbrakk>ReadCommand defaultMaxPayload strm = (r, strm'); handleParsed (env k) r sb = (False, sb')\<rbrakk> \<Longrightarrow>
     reader_iter env k strm sb 0 strm' sb'"
| more: "\<lbrakk>ReadCommand defaultMaxPayload strm = (r, strm1); handleParsed (env k) r sb = (True, sb1);
     reader_iter env (Suc k) strm1 sb1 n strm' sb'\<rbrakk> \<Longrightarrow> reader_iter env k strm sb (Suc n) strm' sb'"

lemma session_loop_iter:
  "\<exists>n \<le> length (sbuf strm). reader_iter env k strm sb n (fst (session_loop env k strm sb)) (snd (session_loop env k strm sb))"
proof (induction env k strm sb rule: session_loop.induct)
  case (1 env k strm sb)
  obtain r strm1 where r: "ReadCommand defaultMaxPayload strm = (r, strm1)" by fastforce
  obtain cont sb1 where h: "handleParsed (env k) r sb = (cont, sb1)" by (cases "handleParsed (env k) r sb")
  show ?case
  proof (cases cont)
    case True
    have l: "session_loop env k strm sb = session_loop env (Suc k) strm1 sb1"
      using True by (simp add: session_loop.simps [of env k strm] r h)
    obtain n where n: "n \<le> length (sbuf strm1)"
      "reader_iter env (Suc k) strm1 sb1 n (fst (session_loop env k strm sb)) (snd (session_loop env k strm sb))"
      using "1.IH" [OF r [symmetric] h [symmetric] True] l by auto
    have "reader_iter env k strm sb (Suc n) (fst (session_loop env k strm sb)) (snd (session_loop env k strm sb))"
      using reader_iter.more [OF r _ n(2)] h True by simp
    moreover have "Suc n \<le> length (sbuf strm)" using handleParsed_continues [OF _ r] h True n(1) by fastforce
    ultimately show ?thesis by blast
  next
    case False
    then have "session_loop env k strm sb = (strm1, sb1)" by (simp add: session_loop.simps [of env k strm] r h)
    then show ?thesis using reader_iter.stop [OF r, of env k sb sb1] h False by fastforce
  qed
qed

section \<open>Lemmas on the writer\<close>

fun is_msg :: "frame \<Rightarrow> bool" where
  "is_msg (F_Msg t p i pl) \<longleftrightarrow> True"
| "is_msg _ \<longleftrightarrow> False"

lemma is_msg_iff: "is_msg f \<longleftrightarrow> (\<exists>t p i pl. f = F_Msg t p i pl)"
  by (cases f) auto

text \<open>What was queued is what was written, at most one frame lost to a failed write, and what still waits.\<close>

definition lane_inv :: "bool \<Rightarrow> frame list \<Rightarrow> frame list \<Rightarrow> frame list \<Rightarrow> bool" where
  "lane_inv dead out waiting queued \<longleftrightarrow> queued = out @ waiting \<or> (dead \<and> (\<exists>f. queued = out @ f # waiting))"

definition writer_inv :: "writer_state \<Rightarrow> bool" where
  "writer_inv w \<longleftrightarrow>
     list_all (\<lambda>f. \<not> is_msg f) (wr_resp w) \<and> list_all is_msg (wr_send w) \<and>
     lane_inv (wr_pc w = W_Done) (filter (\<lambda>f. \<not> is_msg f) (wr_out w)) (wr_resp w) (wr_queued_resp w) \<and>
     lane_inv (wr_pc w = W_Done) (filter is_msg (wr_out w)) (wr_send w) (wr_queued_send w)"

lemma writer_inv_step: "writer_step w w' \<Longrightarrow> writer_inv w \<Longrightarrow> writer_inv w'"
  by (induction rule: writer_step.induct) (auto simp: writer_inv_def lane_inv_def is_msg_iff)

lemma writer_reach_inv: "writer_step\<^sup>*\<^sup>* writer_start w \<Longrightarrow> writer_inv w"
proof (induction rule: rtranclp_induct)
  case base
  show ?case by (simp add: writer_inv_def lane_inv_def writer_start_def)
qed (rule writer_inv_step)

text \<open>A response seen by the first choice is the next frame written.\<close>

definition next_is :: "frame \<Rightarrow> frame list \<Rightarrow> writer_state \<Rightarrow> bool" where
  "next_is f out w \<longleftrightarrow>
     (wr_out w = out \<and> (wr_pc w = W_Done \<or> wr_pc w = W_First \<and> (\<exists>fs. wr_resp w = f # fs))) \<or>
     prefix (out @ [f]) (wr_out w)"

lemma next_is_step: "writer_step w w' \<Longrightarrow> next_is f out w \<Longrightarrow> next_is f out w'"
  by (induction rule: writer_step.induct) (auto simp: next_is_def)

lemma next_is_steps: "writer_step\<^sup>*\<^sup>* w w' \<Longrightarrow> next_is f out w \<Longrightarrow> next_is f out w'"
  by (induction rule: rtranclp_induct) (auto intro: next_is_step)

section \<open>Lemmas on sizes\<close>

lemma fields_loop_short: "f \<in> set (fields_loop cur s) \<Longrightarrow> length f \<le> length cur + length s"
proof (induction cur s rule: fields_loop.induct)
  case (1 cur s)
  show ?case
  proof (cases "s = []")
    case True
    then show ?thesis using 1(4) by (simp add: fields_loop.simps [of cur s] split: if_splits)
  next
    case False
    then have l: "length (tl s) < length s" "length (drop (space_len s) s) \<le> length s" by simp_all
    consider "f = cur" | "f \<in> set (fields_loop (cur @ [hd s]) (tl s))" "space_len s = 0"
      | "f \<in> set (fields_loop [] (drop (space_len s) s))" "space_len s \<noteq> 0"
      using 1(4) False by (auto simp: fields_loop.simps [of cur s] Let_def split: if_splits)
    then show ?thesis
    proof cases
      case 2
      then have "length f \<le> length (cur @ [hd s]) + length (tl s)" using 1(1) False by blast
      then show ?thesis using l by simp
    next
      case 3
      then have "length f \<le> length (drop (space_len s) s)" using 1(2,3) False by fastforce
      then show ?thesis using l by simp
    qed simp
  qed
qed

lemma Fields_short: "f \<in> set (Fields s) \<Longrightarrow> length f \<le> length s"
  using fields_loop_short [of f "[]" s] by (simp add: Fields_def)

lemma TrimRightNL_short: "length (TrimRightNL s) \<le> length s"
  using length_dropWhile_le [of _ "rev s"] by (simp add: TrimRightNL_def)

lemma readLine_short: "readLine s = (Inr line, s') \<Longrightarrow> length line \<le> MaxLineLength"
  by (auto simp: readLine_def split: prod.splits sum.splits if_splits io_err.splits
      intro!: order_trans [OF TrimRightNL_short])

lemma parseTopicPartition_short:
  "parseTopicPartition tk = Inr (topic, p, star, explicit) \<Longrightarrow> length topic \<le> length tk"
  by (auto simp: parseTopicPartition_def Let_def split: prod.splits if_splits option.splits dest!: Cut_True Cut_False)

lemma parsePub_length: "parsePub flds mp s = (Inr c, s') \<Longrightarrow> 5 \<le> length flds"
  by (auto simp: parsePub_def split: if_splits)

lemma ReadCommand_pub_short:
  assumes "ReadCommand mp s = (Inr (C_Pub c), s')"
  shows "length (pub_Topic c) \<le> MaxLineLength \<and> length (pub_DedupeKey c) \<le> MaxLineLength \<and>
     length (pub_Payload c) \<le> mp"
proof -
  obtain line s1 where l: "readLine s = (Inr line, s1)" "ParseCommandLine line mp s1 = (Inr (C_Pub c), s')"
    using assms by (auto simp: ReadCommand_def split: prod.splits sum.splits)
  have p: "parsePub (Fields line) mp s1 = (Inr (C_Pub c), s')"
    using l(2)
    by (auto simp: ParseCommandLine_def Let_def parseSub_def parseAck_def parseNack_def parseCreate_def parsePause_def
        parseResume_def parseTraceparent_def parseInfo_def split: if_splits sum.splits prod.splits option.splits)
  have f: "\<And>i. i < length (Fields line) \<Longrightarrow> length (Fields line ! i) \<le> MaxLineLength"
    by (rule order_trans [OF Fields_short [OF nth_mem] readLine_short [OF l(1)]])
  obtain d n t topic part explicit pl payload where
    c: "pub_opts (drop 5 (Fields line)) (0, 0, 0) = Some (d, n, t)"
      "parseTopicPartition (Fields line ! 1) = Inr (topic, part, False, explicit)"
      "\<not> unat (pl :: u64) > mp" "pub_body (unat pl) s1 = (Inr payload, s')"
      "C_Pub c = C_Pub \<lparr>pub_Topic = topic, pub_DedupeKey = dash_empty (Fields line ! 2),
           pub_RoutingKey = dash_empty (Fields line ! 3), pub_Partition = part, pub_PartitionSet = explicit,
           pub_Payload = payload, pub_DelayMs = d, pub_WaitReplicas = n, pub_WaitTimeoutMs = t\<rparr>"
    by (rule parsePub_cases [OF p])
  have "length topic \<le> MaxLineLength"
    using parseTopicPartition_short [OF c(2)] f [of 1] parsePub_length [OF p] by simp
  moreover have "length (dash_empty (Fields line ! 2)) \<le> MaxLineLength"
    using f [of 2] parsePub_length [OF p] by (simp add: dash_empty_def)
  ultimately show ?thesis using c(3,5) pub_body_payload [OF c(4)] by simp
qed

section \<open>Properties\<close>

text \<open>C13: With a token list and a required handshake, a client that does not open with a HELLO carrying one
  of the tokens reaches nothing: the broker and the session are as before, no command is executed and no
  response is queued.\<close>
theorem auth_gate:
  assumes "requireHello a" "authEnabled a" "Run env a strm w b = (strm', s, b', w')"
  shows "(\<exists>h l strm1. ReadHello strm = (Inr h, l, strm1) \<and> hello_Token h \<in> set (tokens a)) \<or>
     (b' = b \<and> s = NewSession a)"
  using assms handshake_gate [of a "se_prototext (env 0)" strm w]
  by (fastforce simp: Run_def split: prod.splits if_splits)

text \<open>Every command is answered by exactly one frame, with two exceptions.  A trace prefix is not answered,
  and a publish may be answered by DUP and OK with the same message number.\<close>
theorem responses_per_command:
  "\<exists>rs. ss_resp (fst (handleCommand env cmd (s, b))) = ss_resp s @ rs \<and>
     (case cmd of
        C_Traceparent _ _ \<Rightarrow> rs = []
      | C_Pub c \<Rightarrow> length rs = 1 \<or> (\<exists>i. rs = [F_Dup i, F_OK i])
      | _ \<Rightarrow> length rs = 1)"
proof -
  have one: "\<exists>f. ss_resp (fst (handleCommand env cmd (s, b))) = ss_resp s @ [f] \<Longrightarrow>
     \<exists>rs. ss_resp (fst (handleCommand env cmd (s, b))) = ss_resp s @ rs \<and> length rs = 1"
    by fastforce
  show ?thesis
    using one handlePub_resp [of env _ s b] handler_resps
    by (cases cmd) (simp_all del: length_Suc_conv One_nat_def)
qed

text \<open>C34: The reader always ends: it handles at most one command per byte of its input and then stops, whatever
  the client sends and whatever the broker answers.\<close>
theorem reader_terminates:
  "\<exists>n strm' sb'. n \<le> length (sbuf strm) \<and> reader_iter env k strm sb n strm' sb' \<and>
     session_loop env k strm sb = (strm', sb')"
  using session_loop_iter [of strm env k sb] by (metis prod.collapse)

text \<open>The writer keeps both lanes in order: the responses written are the first responses queued, the
  deliveries written are the first deliveries queued, and while the writer lives nothing queued is missing.
  A response that the first choice sees is the next frame written, before any delivery.\<close>
theorem writer_order:
  assumes "writer_step\<^sup>*\<^sup>* writer_start w"
  shows "prefix (filter (\<lambda>f. \<not> is_msg f) (wr_out w)) (wr_queued_resp w) \<and>
     prefix (filter is_msg (wr_out w)) (wr_queued_send w) \<and>
     (wr_pc w \<noteq> W_Done \<longrightarrow>
        filter (\<lambda>f. \<not> is_msg f) (wr_out w) @ wr_resp w = wr_queued_resp w \<and>
        filter is_msg (wr_out w) @ wr_send w = wr_queued_send w) \<and>
     (wr_pc w = W_First \<and> wr_resp w = f # fs \<and> writer_step\<^sup>*\<^sup>* w w' \<longrightarrow>
        wr_out w' = wr_out w \<or> prefix (wr_out w @ [f]) (wr_out w'))"
proof -
  have "writer_inv w" by (rule writer_reach_inv [OF assms])
  then have "prefix (filter (\<lambda>f. \<not> is_msg f) (wr_out w)) (wr_queued_resp w)"
    "prefix (filter is_msg (wr_out w)) (wr_queued_send w)"
    "wr_pc w \<noteq> W_Done \<Longrightarrow> filter (\<lambda>f. \<not> is_msg f) (wr_out w) @ wr_resp w = wr_queued_resp w"
    "wr_pc w \<noteq> W_Done \<Longrightarrow> filter is_msg (wr_out w) @ wr_send w = wr_queued_send w"
    by (auto simp: writer_inv_def lane_inv_def)
  moreover have "wr_out w' = wr_out w \<or> prefix (wr_out w @ [f]) (wr_out w')"
    if "wr_pc w = W_First" "wr_resp w = f # fs" "writer_step\<^sup>*\<^sup>* w w'"
  proof -
    have "next_is f (wr_out w) w" using that by (simp add: next_is_def)
    then have "next_is f (wr_out w) w'" by (rule next_is_steps [OF that(3)])
    then show ?thesis by (auto simp: next_is_def)
  qed
  ultimately show ?thesis by blast
qed

text \<open>C26: A publish the parser accepts can always be replicated: the envelope built from it, with any
  partition and clock values, is within the size limit and decodes to itself on every node.\<close>
theorem accepted_publish_replicable:
  assumes "ReadCommand defaultMaxPayload strm = (Inr (C_Pub c), strm')"
  shows "env_Decode (env_Encode ((blank_envelope KindPublish)\<lparr>env_Topic := pub_Topic c, env_Partition := p,
       env_DedupeKey := pub_DedupeKey c, env_TsNs := ts, env_VisibleAtNs := v, env_Payload := pub_Payload c\<rparr>)) =
     Inr ((blank_envelope KindPublish)\<lparr>env_Topic := pub_Topic c, env_Partition := p,
       env_DedupeKey := pub_DedupeKey c, env_TsNs := ts, env_VisibleAtNs := v, env_Payload := pub_Payload c\<rparr>)"
  using ReadCommand_pub_short [OF assms]
  by (intro env_Encode_Decode) (simp add: length_env_Encode blank_envelope_def maxEnvelopeSize_def defaultMaxPayload_def MaxLineLength_def)

text \<open>C17: A duplicate publish shifts the answers of a pipelined client.  The server answers it with DUP and OK; the
  client gives DUP to that publish and OK, with the number of the old message, to the request behind it, which
  is then no longer waiting for its own answer.\<close>
theorem duplicate_publish_misattributed:
  assumes "PublishCtx (se_propose env) (se_waits env (pub_WaitReplicas c) (wait_timeout (pub_WaitTimeoutMs c)))
       (se_io env) (pub_Topic c) (pub_DedupeKey c) (pub_RoutingKey c) (pub_Partition c) (pub_PartitionSet c)
       (pub_Payload c) (pub_DelayMs c) (pub_WaitReplicas c) b = ((i, part, True, None), b')"
    and "client_step\<^sup>*\<^sup>* fresh_client cl" "live (cl_pending cl) = p1 # p2 # ps"
  shows "\<exists>rs q. ss_resp (fst (handlePub env c (s, b))) = ss_resp s @ rs \<and>
     deliver_all rs (cl_pending cl) = Some q \<and> response q p1 = Some (F_Dup i) \<and> response q p2 = Some (F_OK i) \<and>
     live q = ps"
proof -
  have "pq_inv (cl_pending cl)" using reachable_inv [OF assms(2)] by (simp add: client_inv_def)
  then obtain q where "deliver_all [F_Dup i, F_OK i] (cl_pending cl) = Some q"
      "response q p1 = Some (F_Dup i)" "response q p2 = Some (F_OK i)" "live q = ps"
    using deliver_all_post [of "cl_pending cl" "[F_Dup i, F_OK i]"] assms(3) by (auto simp: less_Suc_eq)
  then show ?thesis using assms(1) by (simp add: handlePub_def Let_def)
qed

text \<open>
  The order of a SUB's OK and the first delivery depends on the scheduler: a writer between its two choices
  finds both queued and may take the delivery, although the OK was queued first.
\<close>

lemma sub_ok_after_msg:
  "\<exists>w w'. writer_step\<^sup>*\<^sup>* writer_start w \<and> wr_queued_resp w = [F_OK 0] \<and> wr_queued_send w = [] \<and>
     writer_step\<^sup>*\<^sup>* w w' \<and> wr_out w' = [F_Msg t p i pl] \<and> wr_resp w' = [F_OK 0]"
proof -
  let ?w1 = "writer_start\<lparr>wr_pc := W_Second\<rparr>"
  let ?w2 = "?w1\<lparr>wr_resp := [F_OK 0], wr_queued_resp := [F_OK 0]\<rparr>"
  let ?w3 = "?w2\<lparr>wr_send := [F_Msg t p i pl], wr_queued_send := [F_Msg t p i pl]\<rparr>"
  let ?w4 = "?w3\<lparr>wr_pc := W_First, wr_send := [], wr_out := [F_Msg t p i pl]\<rparr>"
  have "writer_step writer_start ?w1" using writer_step.default [of writer_start] by (simp add: writer_start_def)
  moreover have "writer_step ?w1 ?w2" using writer_step.queue_resp [of ?w1 "F_OK 0"] by (simp add: writer_start_def)
  moreover have "writer_step ?w2 ?w3"
    using writer_step.queue_send [of ?w2 t p i pl] by (simp add: writer_start_def sendChBuf_def)
  moreover have "writer_step ?w3 ?w4"
    using writer_step.push [of ?w3 "F_Msg t p i pl" "[]"] by (simp add: writer_start_def)
  ultimately have "writer_step\<^sup>*\<^sup>* writer_start ?w2" "writer_step\<^sup>*\<^sup>* ?w2 ?w4"
    by (meson converse_rtranclp_into_rtranclp r_into_rtranclp)+
  then show ?thesis by (rule_tac x = ?w2 in exI, rule_tac x = ?w4 in exI) (simp add: writer_start_def)
qed

text \<open>Without the required handshake the tokens do not protect: a client that skips HELLO proceeds.\<close>

lemma compat_skips_auth:
  "ReadHello strm = (Inl PE_NotHello, line, strm1) \<Longrightarrow> \<not> requireHello a \<Longrightarrow>
     server_handshake a txt strm w = ((line, True), strm1, w)"
  by (simp add: server_handshake_def)

section \<open>Witnesses\<close>

definition sample_auth :: authConfig where
  "sample_auth = \<lparr>requireHello = True, tokens = [''s3cret'']\<rparr>"

definition sample_senv :: session_env where
  "sample_senv = \<lparr>se_propose = (\<lambda>_ b. (Inr (1, Some \<lparr>ar_MsgID = 4, ar_Dup = True\<rparr>), b)), se_waits = (\<lambda>_ _ _. None),
     se_io = sample_bio, se_node = (''n1'', sample_status), se_errtext = (\<lambda>_. ''failed''),
     se_prototext = (\<lambda>_. ''invalid''), se_sid = 0, se_ctxDone = False\<rparr>"

definition sample_writer :: writer where
  "sample_writer = \<lparr>w_buf = [], w_sent = [], w_room = None, w_err = False\<rparr>"

lemma sample_line_read:
  "readLine \<lparr>sbuf = sample_payload, send = At_EOF\<rparr> = (Inr ''ACK c 0 1'', \<lparr>sbuf = [], send = At_EOF\<rparr>)"
  using readLine_wire [OF line_ok_samples(2), of "[]" At_EOF] by (simp add: sample_payload_def)

lemma sample_not_hello:
  "ReadHello \<lparr>sbuf = sample_payload, send = At_EOF\<rparr> =
     (Inl PE_NotHello, ''ACK c 0 1'', \<lparr>sbuf = [], send = At_EOF\<rparr>)"
proof -
  have "Fields ''ACK c 0 1'' = [''ACK'', ''c'', ''0'', ''1'']"
    using Fields_wire [OF line_ok_samples(2)] by simp
  then show ?thesis by (simp add: ReadHello_def sample_line_read ParseHello_def)
qed

theorem auth_gate_witness:
  "\<exists>strm' w'. Run (\<lambda>_. sample_senv) sample_auth \<lparr>sbuf = sample_payload, send = At_EOF\<rparr> sample_writer sample_broker =
     (strm', NewSession sample_auth, sample_broker, w')"
proof -
  obtain strm' s b' w' where r: "Run (\<lambda>_. sample_senv) sample_auth \<lparr>sbuf = sample_payload, send = At_EOF\<rparr>
      sample_writer sample_broker = (strm', s, b', w')" by (metis prod.exhaust)
  have "requireHello sample_auth" "authEnabled sample_auth" by (simp_all add: sample_auth_def authEnabled_def)
  from auth_gate [OF this r] show ?thesis using r sample_not_hello by simp
qed

theorem writer_order_witness:
  "\<exists>w. writer_step\<^sup>*\<^sup>* writer_start w \<and> wr_pc w = W_First \<and> wr_queued_resp w = [F_OK 0] \<and>
     filter (\<lambda>f. \<not> is_msg f) (wr_out w) @ wr_resp w = [F_OK 0]"
proof -
  let ?w = "writer_start\<lparr>wr_resp := [F_OK 0], wr_queued_resp := [F_OK 0]\<rparr>"
  have "writer_step\<^sup>*\<^sup>* writer_start ?w"
    using writer_step.queue_resp [of writer_start "F_OK 0"] by (simp add: writer_start_def r_into_rtranclp)
  from writer_order [OF this, of "F_OK 0" "[]" ?w] this show ?thesis
    by (intro exI [of _ ?w]) (simp add: writer_start_def)
qed

definition sample_pub :: PubCommand where
  "sample_pub = \<lparr>pub_Topic = ''t'', pub_DedupeKey = ''k'', pub_RoutingKey = [], pub_Partition = 0,
     pub_PartitionSet = False, pub_Payload = [7], pub_DelayMs = 0, pub_WaitReplicas = 0, pub_WaitTimeoutMs = 0\<rparr>"

theorem duplicate_publish_misattributed_witness:
  "\<exists>rs q. ss_resp (fst (handlePub sample_senv sample_pub
       (NewSession sample_auth, AttachRaft (sample_broker\<lparr>b_topics := [(''t'', newTopic ''t'' [fresh_part])]\<rparr>)))) = rs \<and>
     deliver_all rs (cl_pending sample_client) = Some q \<and> response q 1 = Some (F_OK 4)"
proof -
  let ?b = "AttachRaft (sample_broker\<lparr>b_topics := [(''t'', newTopic ''t'' [fresh_part])]\<rparr>)"
  have "\<exists>b'. PublishCtx (se_propose sample_senv)
       (se_waits sample_senv (pub_WaitReplicas sample_pub) (wait_timeout (pub_WaitTimeoutMs sample_pub)))
       (se_io sample_senv) (pub_Topic sample_pub) (pub_DedupeKey sample_pub) (pub_RoutingKey sample_pub)
       (pub_Partition sample_pub) (pub_PartitionSet sample_pub) (pub_Payload sample_pub) (pub_DelayMs sample_pub)
       (pub_WaitReplicas sample_pub) ?b = ((4, 0, True, None), b')"
    by (simp add: PublishCtx_def sample_senv_def sample_pub_def getOrCreateTopic_def AttachRaft_def sample_broker_def
        newTopic_def route_def put_topic_def proposePublish_def fresh_part_def newPartition_def Let_def)
  then obtain b' where "PublishCtx (se_propose sample_senv)
       (se_waits sample_senv (pub_WaitReplicas sample_pub) (wait_timeout (pub_WaitTimeoutMs sample_pub)))
       (se_io sample_senv) (pub_Topic sample_pub) (pub_DedupeKey sample_pub) (pub_RoutingKey sample_pub)
       (pub_Partition sample_pub) (pub_PartitionSet sample_pub) (pub_Payload sample_pub) (pub_DelayMs sample_pub)
       (pub_WaitReplicas sample_pub) ?b = ((4, 0, True, None), b')" by blast
  from duplicate_publish_misattributed [OF this sample_client_reach, of 0 1 "[]" "NewSession sample_auth"]
  show ?thesis by (simp add: sample_client_live NewSession_def) blast
qed

lemma sample_pub_read:
  "ReadCommand defaultMaxPayload \<lparr>sbuf = wire_line [''PUB'', ''t'', ''k'', ''-'', ''1''] @ [7, 10], send = At_EOF\<rparr> =
     (Inr (C_Pub sample_pub), \<lparr>sbuf = [], send = At_EOF\<rparr>)"
proof -
  have l: "line_ok [''PUB'', ''t'', ''k'', ''-'', ''1'']" by (simp add: line_ok_def tok_def MaxLineLength_def)
  have u: "ParseUint ''1'' = Some 1" by (simp add: ParseUint_def is_digit_def)
  show ?thesis
    by (simp add: ReadCommand_wire [OF l] ParseCommandLine_def Fields_wire [OF l] del: unwords.simps)
       (simp add: parsePub_def parseTopicPartition_def Cut_none u defaultMaxPayload_def pub_body_def ReadFull_def
         ReadByte_def dash_empty_def sample_pub_def)
qed

theorem accepted_publish_replicable_witness:
  "env_Decode (env_Encode ((blank_envelope KindPublish)\<lparr>env_Topic := ''t'', env_Partition := 0,
       env_DedupeKey := ''k'', env_TsNs := 7, env_VisibleAtNs := 0, env_Payload := [7]\<rparr>)) =
     Inr ((blank_envelope KindPublish)\<lparr>env_Topic := ''t'', env_Partition := 0,
       env_DedupeKey := ''k'', env_TsNs := 7, env_VisibleAtNs := 0, env_Payload := [7]\<rparr>)"
  using accepted_publish_replicable [OF sample_pub_read, of 0 7 0] by (simp add: sample_pub_def)

end
