(* ===== verification/Client_Dial.thy ===== *)
theory Client_Dial
  imports Session
begin

text \<open>
  Opening a connection (\<^verbatim>\<open>Dial\<close> in \<^verbatim>\<open>pkg/client/client.go\<close>, \<^verbatim>\<open>options.go\<close>, \<^verbatim>\<open>tlsconfig.go\<close>): the options, the
  TLS settings and the handshake before the reader starts, put together with the server's side of it.  Whether the network
  accepts, what a file holds and whether it has certificates are arguments.
\<close>

section \<open>Options\<close>

text \<open>The trusted roots: the system's, or those of a PEM file.\<close>

datatype roots = System_Roots | Pool string

record tls_config =
  tls_insecure :: bool
  tls_roots :: roots

datatype tls_err = TE_Read | TE_NoCerts

definition TLSConfig :: "(string \<Rightarrow> string option) \<Rightarrow> (string \<Rightarrow> bool) \<Rightarrow> string \<Rightarrow> bool \<Rightarrow> tls_err + tls_config" where
  "TLSConfig read has_certs caFile insecure =
     (let cfg = \<lparr>tls_insecure = False, tls_roots = System_Roots\<rparr> in
      if insecure then Inr (cfg\<lparr>tls_insecure := True\<rparr>)
      else if caFile \<noteq> []
      then (case read caFile of
              None \<Rightarrow> Inl TE_Read
            | Some pem \<Rightarrow> if \<not> has_certs pem then Inl TE_NoCerts else Inr (cfg\<lparr>tls_roots := Pool pem\<rparr>))
      else Inr cfg)"

record dial_config =
  dc_logger :: bool
  dc_authToken :: string
  dc_tls :: "tls_config option"
  dc_trace :: bool

datatype dial_option = D_WithLogger | D_WithAuth string | D_WithTLS "tls_config option" | D_WithTraceparentFunc

fun apply_dial_option :: "dial_option \<Rightarrow> dial_config \<Rightarrow> dial_config" where
  "apply_dial_option D_WithLogger c = c\<lparr>dc_logger := True\<rparr>"
| "apply_dial_option (D_WithAuth tk) c = c\<lparr>dc_authToken := tk\<rparr>"
| "apply_dial_option (D_WithTLS t) c = c\<lparr>dc_tls := t\<rparr>"
| "apply_dial_option D_WithTraceparentFunc c = c\<lparr>dc_trace := True\<rparr>"

definition newConfig :: dial_config where
  "newConfig = \<lparr>dc_logger = False, dc_authToken = [], dc_tls = None, dc_trace = False\<rparr>"

text \<open>The tools' connection flags: a token and TLS options when they are given.\<close>

definition dialOptions ::
    "(string \<Rightarrow> string option) \<Rightarrow> (string \<Rightarrow> bool) \<Rightarrow> string \<Rightarrow> bool \<Rightarrow> string \<Rightarrow> bool \<Rightarrow> tls_err + dial_option list" where
  "dialOptions read has_certs authToken useTLS tlsCA tlsInsecure =
     (let opts = (if authToken \<noteq> [] then [D_WithAuth authToken] else []) in
      if useTLS \<or> tlsCA \<noteq> [] \<or> tlsInsecure
      then (case TLSConfig read has_certs tlsCA tlsInsecure of
              Inl e \<Rightarrow> Inl e | Inr cfg \<Rightarrow> Inr (opts @ [D_WithTLS (Some cfg)]))
      else Inr opts)"

section \<open>Dial\<close>

datatype dial_err = DE_Net | DE_Hello client_err

definition new_client :: "writer \<Rightarrow> client" where
  "new_client w = \<lparr>cl_w = w, cl_done = False, cl_readErr = None, cl_loopDone = False, cl_pending = newPendingQueue,
     cl_subActive = False, cl_consumerID = [], cl_deliveryCh = None\<rparr>"

text \<open>The client and the rest of its input, or the error; and whether the connection has been closed again.\<close>

definition client_Dial ::
    "(tls_config option \<Rightarrow> string \<Rightarrow> bool) \<Rightarrow> string \<Rightarrow> dial_option list \<Rightarrow> writer \<Rightarrow> stream \<Rightarrow> (dial_err + client \<times> stream) \<times> bool" where
  "client_Dial net addr opts w strm =
     (let cfg = fold apply_dial_option opts newConfig in
      if \<not> net (dc_tls cfg) addr then (Inl DE_Net, False)
      else case handshake (dc_authToken cfg) w strm of
        (Some e, w1, s1) \<Rightarrow> (Inl (DE_Hello e), True)
      | (None, w1, s1) \<Rightarrow> (Inr (new_client w1, s1), False))"

section \<open>The two sides of the handshake\<close>

definition fresh_writer :: writer where
  "fresh_writer = \<lparr>w_buf = [], w_sent = [], w_room = None, w_err = False\<rparr>"

lemma emits_fresh:
  assumes "emits f bs"
  shows "\<exists>w. f fresh_writer = (True, w) \<and> w_sent w = bs"
proof -
  obtain ok w where f: "f fresh_writer = (ok, w)" by fastforce
  have n: "\<not> w_err fresh_writer" "w_buf fresh_writer = []" "w_room fresh_writer = None" "w_sent fresh_writer = []"
    by (simp_all add: fresh_writer_def)
  have "fst (f fresh_writer)"
    using mp [OF spec [OF conjunct2 [OF conjunct2 [OF assms [unfolded emits_def]]], of fresh_writer] conjI [OF n(3,1)]] .
  then have ok: "ok" using f by simp
  note sent = mp [OF spec [OF conjunct1 [OF assms [unfolded emits_def]], of fresh_writer] conjI [OF n(1,2)]]
  then show ?thesis using f ok n(4) by simp
qed

definition hello_wire :: "string \<Rightarrow> bytes" where
  "hello_wire token = wire_line ([''HELLO'', ''1''] @ (if token = [] then [] else [''AUTH'', token]))"

definition auth_refused :: string where
  "auth_refused = ''invalid or missing token''"

lemma server_answers:
  assumes "token = [] \<or> tok token" "length token < 2 ^ 15"
    and "server_handshake a txt \<lparr>sbuf = hello_wire token @ rest, send = e\<rparr> fresh_writer = ((line, ok), strm, w)"
  shows "line = [] \<and> strm = \<lparr>sbuf = rest, send = e\<rparr> \<and> ok = (authEnabled a \<longrightarrow> token \<in> set (tokens a)) \<and>
     w_sent w = (if ok then Hello_frame 1 else Err_frame ''AUTH'' auth_refused)"
proof -
  obtain w1 where w1: "WriteHelloOK 1 fresh_writer = (True, w1)" "w_sent w1 = Hello_frame 1"
    using emits_fresh [OF emits_HelloOK] by blast
  obtain w2 where w2: "WriteErr ''AUTH'' auth_refused fresh_writer = (True, w2)" "w_sent w2 = Err_frame ''AUTH'' auth_refused"
    using emits_fresh [OF emits_Err] by blast
  show ?thesis
    using assms(3) hello_parses [OF assms(1,2), of rest e] w1 w2
    by (auto simp: server_handshake_def hello_wire_def checkToken_iff serverMaxVersion_def auth_refused_def split: if_splits)
qed

lemma client_reads:
  "ReadString \<lparr>sbuf = Hello_frame 1 @ rest, send = e\<rparr> = (Inr (''HELLO 1 OK'' @ [CHR 0x0A]), \<lparr>sbuf = rest, send = e\<rparr>)"
  "ReadString \<lparr>sbuf = Err_frame ''AUTH'' auth_refused @ rest, send = e\<rparr> =
     (Inr (''ERR AUTH '' @ auth_refused @ [CHR 0x0A]), \<lparr>sbuf = rest, send = e\<rparr>)"
proof -
  have h: "Hello_frame 1 = bytes_of_string (''HELLO 1 OK'' @ [CHR 0x0A])" by code_simp
  show "ReadString \<lparr>sbuf = Hello_frame 1 @ rest, send = e\<rparr> = (Inr (''HELLO 1 OK'' @ [CHR 0x0A]), \<lparr>sbuf = rest, send = e\<rparr>)"
    unfolding h by (rule ReadString_line) (simp add: nl_free_def)
  have f: "Err_frame ''AUTH'' auth_refused = bytes_of_string ((''ERR AUTH '' @ auth_refused) @ [CHR 0x0A])"
    by (simp add: Err_frame_def)
  show "ReadString \<lparr>sbuf = Err_frame ''AUTH'' auth_refused @ rest, send = e\<rparr> =
     (Inr (''ERR AUTH '' @ auth_refused @ [CHR 0x0A]), \<lparr>sbuf = rest, send = e\<rparr>)"
    unfolding f by (subst ReadString_line) (simp_all add: nl_free_def auth_refused_def)
qed

lemma client_resolves:
  "resolve_hello (TrimRightNL (''HELLO 1 OK'' @ [CHR 0x0A])) = None"
  "resolve_hello (TrimRightNL (''ERR AUTH '' @ auth_refused @ [CHR 0x0A])) = Some (ErrAuth auth_refused)"
  by code_simp+

section \<open>Theorems\<close>

text \<open>C14: A dial authenticates.  When client and server talk over a connection that does not fail, \<^verbatim>\<open>Dial\<close> returns a
  client exactly when the server proceeds to serve the session, which is exactly when authentication is off or the
  client's token is one of the server's; otherwise it returns the authentication error and has closed the
  connection.  Nothing beyond the handshake is consumed on either side.\<close>

theorem dial_authenticates:
  assumes "dc_authToken (fold apply_dial_option opts newConfig) = token" "token = [] \<or> tok token" "length token < 2 ^ 15"
    and "net (dc_tls (fold apply_dial_option opts newConfig)) addr"
    and "server_handshake a txt \<lparr>sbuf = hello_wire token @ rest, send = e\<rparr> fresh_writer = ((line, ok), strm, w)"
  shows "(case client_Dial net addr opts fresh_writer \<lparr>sbuf = w_sent w @ xtra, send = e'\<rparr> of
       (Inr (c, s), closed) \<Rightarrow> ok \<and> \<not> closed \<and> w_sent (cl_w c) = hello_wire token \<and> s = \<lparr>sbuf = xtra, send = e'\<rparr>
     | (Inl err, closed) \<Rightarrow> \<not> ok \<and> closed \<and> err = DE_Hello (ErrAuth auth_refused)) \<and>
     line = [] \<and> strm = \<lparr>sbuf = rest, send = e\<rparr> \<and> ok = (authEnabled a \<longrightarrow> token \<in> set (tokens a))"
proof -
  note s = server_answers [OF assms(2,3,5)]
  obtain w1 where w1: "write_seq (hello_writes token) fresh_writer = (True, w1)" "w_sent w1 = hello_wire token"
    using emits_fresh [OF hello_emits] unfolding hello_wire_def by blast
  show ?thesis
  proof (cases ok)
    case True
    then have "handshake token fresh_writer \<lparr>sbuf = w_sent w @ xtra, send = e'\<rparr> = (None, w1, \<lparr>sbuf = xtra, send = e'\<rparr>)"
      using s w1(1) client_reads(1) client_resolves(1) by (simp add: handshake_def)
    then show ?thesis using True s w1(2) assms(1,4) by (simp add: client_Dial_def new_client_def Let_def)
  next
    case False
    then have "handshake token fresh_writer \<lparr>sbuf = w_sent w @ xtra, send = e'\<rparr> =
        (Some (ErrAuth auth_refused), w1, \<lparr>sbuf = xtra, send = e'\<rparr>)"
      using s w1(1) client_reads(2) client_resolves(2) by (simp add: handshake_def)
    then show ?thesis using False s assms(1,4) by (simp add: client_Dial_def Let_def)
  qed
qed

theorem dial_authenticates_witness:
  "\<exists>strm w. server_handshake sample_auth (\<lambda>_. []) \<lparr>sbuf = hello_wire ''nope'' @ [], send = At_EOF\<rparr> fresh_writer = (([], False), strm, w) \<and>
     client_Dial (\<lambda>_ _. True) ''h:1'' [D_WithAuth ''nope''] fresh_writer \<lparr>sbuf = w_sent w @ [], send = At_EOF\<rparr> =
       (Inl (DE_Hello (ErrAuth auth_refused)), True)"
proof -
  obtain line ok strm w where r: "server_handshake sample_auth (\<lambda>_. []) \<lparr>sbuf = hello_wire ''nope'' @ [], send = At_EOF\<rparr> fresh_writer = ((line, ok), strm, w)"
    by (metis prod.exhaust)
  have t: "dc_authToken (fold apply_dial_option [D_WithAuth ''nope''] newConfig) = ''nope''" "tok ''nope''"
    by (simp_all add: newConfig_def tok_def)
  from dial_authenticates [OF t(1) disjI2 [OF t(2)] _ _ r, of "\<lambda>_ _. True" "''h:1''" "[]" At_EOF]
  have d: "line = []" "\<not> ok" "client_Dial (\<lambda>_ _. True) ''h:1'' [D_WithAuth ''nope''] fresh_writer \<lparr>sbuf = w_sent w @ [], send = At_EOF\<rparr> =
       (Inl (DE_Hello (ErrAuth auth_refused)), True)"
    by (auto simp: sample_auth_def authEnabled_def split: prod.splits sum.splits)
  show ?thesis using r d by auto
qed

end
