(* ===== verification/Client_Ops.thy ===== *)
theory Client_Ops
  imports Client_Dial
begin

text \<open>
  The operations of a connection as a whole (\<^verbatim>\<open>pub.go\<close>, \<^verbatim>\<open>sub.go\<close>, \<^verbatim>\<open>create.go\<close>, \<^verbatim>\<open>flow.go\<close>, \<^verbatim>\<open>info.go\<close> of
  \<^verbatim>\<open>pkg/client\<close>), put together from the parts in \<open>Client_Conn\<close>.  What the other goroutines do to the connection between the
  queueing and the write, and while the request waits, are arguments, and so is the arm its \<^verbatim>\<open>select\<close> takes.
\<close>

section \<open>Operations\<close>

record call_env =
  ca_mid :: "client \<Rightarrow> client"
  ca_wait :: "client \<Rightarrow> client"
  ca_arm :: wait_arm

definition client_call :: "call_env \<Rightarrow> write_op list \<Rightarrow> client \<Rightarrow> (client_err + frame) \<times> client" where
  "client_call env ops c =
     (case begin_req c of
        Inl e \<Rightarrow> (Inl e, c)
      | Inr (p, c1) \<Rightarrow>
          (case write_req ops p (ca_mid env c1) of
             (Some e, c2) \<Rightarrow> (Inl e, c2)
           | (None, c2) \<Rightarrow> await_req (ca_arm env) p (ca_wait env c2)))"

definition pubFull ::
    "call_env \<Rightarrow> (string \<times> string) option \<Rightarrow> string \<Rightarrow> string \<Rightarrow> string \<Rightarrow> bytes \<Rightarrow> u64 \<Rightarrow> int \<Rightarrow> u64 \<Rightarrow> client \<Rightarrow>
     (u64 \<times> bool \<times> client_err option) \<times> client" where
  "pubFull env fn topic dk rk body delayMs waitReplicas waitTimeoutMs c =
     (case client_call env (pub_writes fn topic dk rk body delayMs waitReplicas waitTimeoutMs) c of
        (Inl e, c1) \<Rightarrow> ((0, False, Some e), c1)
      | (Inr f, c1) \<Rightarrow> (resolvePubResp f, c1))"

definition cl_PubDelay where
  "cl_PubDelay env fn topic dk rk body delayMs c = pubFull env fn topic dk rk body delayMs 0 0 c"

definition cl_Pub where
  "cl_Pub env fn topic dk rk body c = cl_PubDelay env fn topic dk rk body 0 c"

definition cl_PubWait where
  "cl_PubWait env fn topic dk rk body waitReplicas waitTimeoutMs c =
     pubFull env fn topic dk rk body 0 waitReplicas waitTimeoutMs c"

definition sendAckLike :: "call_env \<Rightarrow> string \<Rightarrow> string \<Rightarrow> int \<Rightarrow> u64 \<Rightarrow> client \<Rightarrow> client_err option \<times> client" where
  "sendAckLike env verb cid part i c =
     (case client_call env (ack_writes verb cid part i) c of
        (Inl e, c1) \<Rightarrow> (Some e, c1)
      | (Inr f, c1) \<Rightarrow> (resolve_ack i f, c1))"

definition cl_Ack where "cl_Ack env cid part i c = sendAckLike env ''ACK'' cid part i c"

definition cl_Nack where "cl_Nack env cid part i c = sendAckLike env ''NACK'' cid part i c"

text \<open>The \<^verbatim>\<open>Ack\<close> of a delivery.\<close>

definition makeAck where "makeAck env d c = cl_Ack env (d_consumer d) (d_Partition d) (d_MsgID d) c"

definition makeNack where "makeNack env d c = cl_Nack env (d_consumer d) (d_Partition d) (d_MsgID d) c"

text \<open>\<^verbatim>\<open>CREATE\<close>, \<^verbatim>\<open>PAUSE\<close> and \<^verbatim>\<open>RESUME\<close> take any \<^verbatim>\<open>OK\<close>.\<close>

definition resolve_control :: "frame \<Rightarrow> client_err option" where
  "resolve_control f =
     (case f of F_OK i \<Rightarrow> None | F_Err code msg \<Rightarrow> Some (serverErr code msg) | _ \<Rightarrow> Some ErrUnexpected)"

definition cl_Create :: "call_env \<Rightarrow> string \<Rightarrow> int \<Rightarrow> client \<Rightarrow> client_err option \<times> client" where
  "cl_Create env topic partitions c =
     (if cl_done c then (Some ErrClosed, c)
      else if partitions < 1 then (Some ErrPartitions, c)
      else case client_call env (create_writes topic partitions) c of
        (Inl e, c1) \<Rightarrow> (Some e, c1)
      | (Inr f, c1) \<Rightarrow> (resolve_control f, c1))"

definition sendControl :: "call_env \<Rightarrow> string \<Rightarrow> client \<Rightarrow> client_err option \<times> client" where
  "sendControl env verb c =
     (case client_call env (control_writes verb) c of
        (Inl e, c1) \<Rightarrow> (Some e, c1)
      | (Inr f, c1) \<Rightarrow> (resolve_control f, c1))"

definition cl_Pause where "cl_Pause env c = sendControl env ''PAUSE'' c"

definition cl_Resume where "cl_Resume env c = sendControl env ''RESUME'' c"

definition cl_Info :: "call_env \<Rightarrow> client \<Rightarrow> (client_err + string \<times> (string \<times> string) list) \<times> client" where
  "cl_Info env c =
     (case client_call env info_req_writes c of
        (Inl e, c1) \<Rightarrow> (Inl e, c1)
      | (Inr f, c1) \<Rightarrow> (resolveInfoResp f, c1))"

definition client_sub :: "call_env \<Rightarrow> (string \<times> string) option \<Rightarrow> string \<Rightarrow> string \<Rightarrow> bool \<Rightarrow> client \<Rightarrow> client_err option \<times> client" where
  "client_sub env fn topic cid stale c =
     (case sub_begin cid c of
        Inl e \<Rightarrow> (Some e, c)
      | Inr (p, c1) \<Rightarrow>
          (case sub_write (sub_writes fn topic cid stale) p (ca_mid env c1) of
             (Some e, c2) \<Rightarrow> (Some e, c2)
           | (None, c2) \<Rightarrow> sub_await (ca_arm env) p (ca_wait env c2)))"

definition cl_Sub where "cl_Sub env fn topic cid c = client_sub env fn topic cid False c"

definition cl_SubStale where "cl_SubStale env fn topic cid c = client_sub env fn topic cid True c"

section \<open>An answered call\<close>

text \<open>A connection on which nothing is under way, and the reader handing over one frame.\<close>

definition idle :: "client \<Rightarrow> bool" where
  "idle c \<longleftrightarrow> \<not> cl_done c \<and> queue (cl_pending c) = [] \<and> \<not> w_err (cl_w c) \<and> w_buf (cl_w c) = [] \<and> w_room (cl_w c) = None"

definition answered :: "frame \<Rightarrow> call_env" where
  "answered f = \<lparr>ca_mid = id, ca_wait = (\<lambda>c. case dispatch False f c of None \<Rightarrow> c | Some c' \<Rightarrow> c'), ca_arm = Response\<rparr>"

fun is_response :: "frame \<Rightarrow> bool" where
  "is_response (F_Msg t p i pl) = False"
| "is_response _ = True"

lemma emits_sends:
  assumes "emits f bs" "\<not> w_err w" "w_buf w = []" "w_room w = None"
  shows "\<exists>w'. f w = (True, w') \<and> w_sent w' = w_sent w @ bs"
proof -
  obtain ok w' where f: "f w = (ok, w')" by fastforce
  have "fst (f w)"
    using mp [OF spec [OF conjunct2 [OF conjunct2 [OF assms(1) [unfolded emits_def]]], of w] conjI [OF assms(4,2)]] .
  then have ok: "ok" using f by simp
  note sent = mp [OF spec [OF conjunct1 [OF assms(1) [unfolded emits_def]], of w] conjI [OF assms(2,3)]]
  then show ?thesis using f ok by simp
qed

lemma idle_call:
  assumes c: "idle c" and r: "is_response f" and e: "emits (write_seq ops) bs"
  shows "\<exists>c'. client_call (answered f) ops c = (Inr f, c') \<and> w_sent (cl_w c') = w_sent (cl_w c) @ bs \<and> queue (cl_pending c') = []"
proof -
  obtain w' where w: "write_seq ops (cl_w c) = (True, w')" "w_sent w' = w_sent (cl_w c) @ bs"
    using emits_sends [OF e] c by (auto simp: idle_def)
  let ?p = "length (reqs (cl_pending c))"
  let ?q = "(cl_pending c)\<lparr>reqs := reqs (cl_pending c) @ [\<lparr>resp = None, cancelled = False\<rparr>], queue := [?p]\<rparr>"
  let ?c1 = "c\<lparr>cl_pending := ?q\<rparr>"
  have b: "begin_req c = Inr (?p, ?c1)" using c by (simp add: begin_req_def push_def idle_def)
  have wr: "write_req ops ?p ?c1 = (None, ?c1\<lparr>cl_w := w'\<rparr>)" using c w(1) by (simp add: write_req_def idle_def)
  have dl: "deliver f ?q = Some (True, ?q\<lparr>reqs := reqs (cl_pending c) @ [\<lparr>resp = Some f, cancelled = False\<rparr>], queue := []\<rparr>)"
    by (simp add: deliver_def send_resp_def)
  have "dispatch False f (?c1\<lparr>cl_w := w'\<rparr>) =
      Some (c\<lparr>cl_pending := ?q\<lparr>reqs := reqs (cl_pending c) @ [\<lparr>resp = Some f, cancelled = False\<rparr>], queue := []\<rparr>, cl_w := w'\<rparr>)"
    using r dl by (cases f) (simp_all add: dispatch_def)
  then show ?thesis
    using b wr w(2) by (simp add: client_call_def answered_def await_req_def)
qed

section \<open>From the caller to the broker and back\<close>



end
