(* ===== verification/Server_Listener.thy ===== *)
theory Server_Listener
  imports Session
begin

text \<open>
  The listener and the life of its sessions (\<^verbatim>\<open>internal/server/server.go\<close>): \<^verbatim>\<open>Serve\<close>, its context
  watcher, the session goroutines, and \<^verbatim>\<open>Shutdown\<close>, as the atomic steps of one state.  What happens inside a
  session is the subject of the theory \<open>Session\<close>; here a session runs and at some point ends.
\<close>

section \<open>Configuration\<close>

record server =
  srv_addr :: string
  srv_auth :: authConfig
  srv_tls :: bool
  srv_metrics :: bool

datatype Option = WithRequireHello bool | WithTokens "string list" | WithTLS bool

fun apply_option :: "Option \<Rightarrow> server \<Rightarrow> server" where
  "apply_option (WithRequireHello v) s = s\<lparr>srv_auth := (srv_auth s)\<lparr>requireHello := v\<rparr>\<rparr>"
| "apply_option (WithTokens ts) s = s\<lparr>srv_auth := (srv_auth s)\<lparr>tokens := ts\<rparr>\<rparr>"
| "apply_option (WithTLS cfg) s = s\<lparr>srv_tls := cfg\<rparr>"

definition server_New :: "string \<Rightarrow> Option list \<Rightarrow> server" where
  "server_New addr opts =
     fold apply_option opts
       \<lparr>srv_addr = addr, srv_auth = \<lparr>requireHello = False, tokens = []\<rparr>, srv_tls = False, srv_metrics = False\<rparr>"

definition server_NewWithObservability :: "string \<Rightarrow> bool \<Rightarrow> Option list \<Rightarrow> server" where
  "server_NewWithObservability addr m opts = (server_New addr opts)\<lparr>srv_metrics := m\<rparr>"

section \<open>State\<close>

text \<open>Durations in milliseconds.\<close>

definition emfileBackoffMin :: nat where "emfileBackoffMin = 5"
definition emfileBackoffMax :: nat where "emfileBackoffMax = 1000"

datatype serve_res = SR_Nil | SR_Listen | SR_Accept

text \<open>Where \<^verbatim>\<open>Serve\<close> is.  \<open>S_Return\<close> runs the deferred calls in turn: cancel and wait for the watcher, then
  \<^verbatim>\<open>wg.Done\<close>.\<close>

datatype serve_pc =
    S_Start | S_Listen | S_Assign | S_Watch
  | S_Accept nat | S_Sleep nat
  | S_Return serve_res | S_Join serve_res | S_Exit serve_res | S_Done serve_res

datatype watch_pc = W_None | W_Wait | W_Done

datatype sess_pc = SS_Spawned | SS_Running | SS_Ended

datatype shut_pc = SH_Idle | SH_Wait | SH_Ret bool

record listener =
  sv_pc :: serve_pc
  sv_watch :: watch_pc
  sv_shut :: shut_pc
  sv_listener :: bool
  sv_closed :: bool
  sv_once :: bool
  sv_wg :: nat
  sv_ctx :: bool
  sv_cancel :: bool
  sv_sessions :: "sess_pc list"
  sv_gauge :: int

definition listener_init :: listener where
  "listener_init = \<lparr>sv_pc = S_Start, sv_watch = W_None, sv_shut = SH_Idle, sv_listener = False, sv_closed = False,
     sv_once = False, sv_wg = 0, sv_ctx = False, sv_cancel = False, sv_sessions = [], sv_gauge = 0\<rparr>"

text \<open>\<open>bound\<close> is the address the kernel gave the listener.\<close>

definition server_Addr :: "string \<Rightarrow> listener \<Rightarrow> string" where
  "server_Addr bound s = (if sv_listener s then bound else [])"

section \<open>Steps\<close>

definition closeListenerOnce :: "listener \<Rightarrow> listener" where
  "closeListenerOnce s =
     (if sv_once s then s else s\<lparr>sv_once := True, sv_closed := sv_closed s \<or> sv_listener s\<rparr>)"

datatype accept_res = AC_Conn | AC_Closed | AC_EMFILE | AC_Err

text \<open>One turn of the accept loop with the current backoff.\<close>

fun accept_turn :: "accept_res \<Rightarrow> nat \<Rightarrow> serve_pc" where
  "accept_turn AC_Conn b = S_Accept 0"
| "accept_turn AC_Closed b = S_Return SR_Nil"
| "accept_turn AC_EMFILE b = S_Sleep (if b = 0 then emfileBackoffMin else b)"
| "accept_turn AC_Err b = S_Return SR_Accept"

definition slept :: "nat \<Rightarrow> nat" where
  "slept b = (let b2 = b * 2 in if b2 > emfileBackoffMax then emfileBackoffMax else b2)"

text \<open>\<^verbatim>\<open>Accept\<close> reports \<^verbatim>\<open>net.ErrClosed\<close> exactly when the listener has been closed.\<close>

fun accept_may :: "bool \<Rightarrow> accept_res \<Rightarrow> bool" where
  "accept_may cl AC_Closed = cl"
| "accept_may cl _ = (\<not> cl)"

fun spawned :: "accept_res \<Rightarrow> listener \<Rightarrow> listener" where
  "spawned AC_Conn s = s\<lparr>sv_wg := sv_wg s + 1, sv_sessions := sv_sessions s @ [SS_Spawned]\<rparr>"
| "spawned _ s = s"

inductive serve_step :: "listener \<Rightarrow> listener \<Rightarrow> bool" where
  sv_add: "sv_pc s = S_Start \<Longrightarrow> serve_step s (s\<lparr>sv_pc := S_Listen, sv_wg := sv_wg s + 1\<rparr>)"
| sv_listen_err: "sv_pc s = S_Listen \<Longrightarrow> serve_step s (s\<lparr>sv_pc := S_Exit SR_Listen\<rparr>)"
| sv_listen: "sv_pc s = S_Listen \<Longrightarrow> serve_step s (s\<lparr>sv_pc := S_Assign\<rparr>)"
| sv_assign: "sv_pc s = S_Assign \<Longrightarrow> serve_step s (s\<lparr>sv_pc := S_Watch, sv_listener := True\<rparr>)"
| sv_watcher: "sv_pc s = S_Watch \<Longrightarrow> serve_step s (s\<lparr>sv_pc := S_Accept 0, sv_watch := W_Wait\<rparr>)"
| sv_accept: "sv_pc s = S_Accept b \<Longrightarrow> accept_may (sv_closed s) r \<Longrightarrow>
    serve_step s ((spawned r s)\<lparr>sv_pc := accept_turn r b\<rparr>)"
| sv_wake: "sv_pc s = S_Sleep b \<Longrightarrow> serve_step s (s\<lparr>sv_pc := S_Accept (slept b)\<rparr>)"
| sv_return: "sv_pc s = S_Return r \<Longrightarrow> serve_step s (s\<lparr>sv_pc := S_Join r, sv_cancel := True\<rparr>)"
| sv_join: "sv_pc s = S_Join r \<Longrightarrow> sv_watch s = W_Done \<Longrightarrow> serve_step s (s\<lparr>sv_pc := S_Exit r\<rparr>)"
| sv_exit: "sv_pc s = S_Exit r \<Longrightarrow> serve_step s (s\<lparr>sv_pc := S_Done r, sv_wg := sv_wg s - 1\<rparr>)"
| sv_watched: "sv_watch s = W_Wait \<Longrightarrow> sv_ctx s \<or> sv_cancel s \<Longrightarrow>
    serve_step s ((closeListenerOnce s)\<lparr>sv_watch := W_Done\<rparr>)"

inductive session_step :: "listener \<Rightarrow> listener \<Rightarrow> bool" where
  se_start: "i < length (sv_sessions s) \<Longrightarrow> sv_sessions s ! i = SS_Spawned \<Longrightarrow>
    session_step s (s\<lparr>sv_sessions := (sv_sessions s)[i := SS_Running], sv_gauge := sv_gauge s + 1\<rparr>)"
| se_end: "i < length (sv_sessions s) \<Longrightarrow> sv_sessions s ! i = SS_Running \<Longrightarrow>
    session_step s (s\<lparr>sv_sessions := (sv_sessions s)[i := SS_Ended], sv_gauge := sv_gauge s - 1\<rparr>)"
| se_done: "i < length (sv_sessions s) \<Longrightarrow> sv_sessions s ! i = SS_Ended \<Longrightarrow>
    session_step s (s\<lparr>sv_sessions := take i (sv_sessions s) @ drop (Suc i) (sv_sessions s), sv_wg := sv_wg s - 1\<rparr>)"

inductive shutdown_step :: "listener \<Rightarrow> listener \<Rightarrow> bool" where
  sh_close: "sv_shut s = SH_Idle \<Longrightarrow> shutdown_step s ((closeListenerOnce s)\<lparr>sv_shut := SH_Wait\<rparr>)"
| sh_drained: "sv_shut s = SH_Wait \<Longrightarrow> sv_wg s = 0 \<Longrightarrow> shutdown_step s (s\<lparr>sv_shut := SH_Ret True\<rparr>)"
| sh_deadline: "sv_shut s = SH_Wait \<Longrightarrow> shutdown_step s (s\<lparr>sv_shut := SH_Ret False\<rparr>)"

definition cancel_ctx :: "listener \<Rightarrow> listener" where
  "cancel_ctx s = s\<lparr>sv_ctx := True\<rparr>"

definition server_step :: "listener \<Rightarrow> listener \<Rightarrow> bool" where
  "server_step s s' \<longleftrightarrow> serve_step s s' \<or> session_step s s' \<or> shutdown_step s s' \<or> s' = cancel_ctx s"

abbreviation server_reach :: "listener \<Rightarrow> bool" where
  "server_reach s \<equiv> server_step\<^sup>*\<^sup>* listener_init s"

section \<open>The invariant\<close>

fun serving :: "serve_pc \<Rightarrow> bool" where
  "serving S_Start = False"
| "serving (S_Done r) = False"
| "serving _ = True"

fun bound_pc :: "serve_pc \<Rightarrow> bool" where
  "bound_pc S_Start = False"
| "bound_pc S_Listen = False"
| "bound_pc S_Assign = False"
| "bound_pc (S_Exit r) = (r \<noteq> SR_Listen)"
| "bound_pc (S_Done r) = (r \<noteq> SR_Listen)"
| "bound_pc _ = True"

definition running :: "sess_pc list \<Rightarrow> nat" where
  "running xs = length (filter (\<lambda>x. x = SS_Running) xs)"

text \<open>The wait group counts \<^verbatim>\<open>Serve\<close> and the sessions, the gauge the running sessions.\<close>

definition server_inv :: "listener \<Rightarrow> bool" where
  "server_inv s \<longleftrightarrow>
     sv_wg s = (if serving (sv_pc s) then 1 else 0) + length (sv_sessions s) \<and>
     sv_gauge s = int (running (sv_sessions s)) \<and>
     sv_listener s = bound_pc (sv_pc s) \<and>
     (sv_closed s \<longrightarrow> sv_listener s \<and> sv_once s) \<and>
     (sv_shut s \<noteq> SH_Idle \<longrightarrow> sv_once s) \<and>
     (sv_watch s = W_Done \<longrightarrow> sv_once s) \<and>
     (bound_pc (sv_pc s) \<longrightarrow> (sv_watch s = W_None \<longleftrightarrow> sv_pc s = S_Watch)) \<and>
     (\<not> bound_pc (sv_pc s) \<longrightarrow> sv_watch s = W_None) \<and>
     (\<forall>r. sv_pc s = S_Join r \<longrightarrow> sv_cancel s) \<and>
     (\<forall>r. sv_pc s \<in> {S_Return r, S_Join r} \<longrightarrow> r \<noteq> SR_Listen) \<and>
     (sv_shut s = SH_Ret True \<longrightarrow> sv_closed s \<longrightarrow> (\<exists>r. sv_pc s = S_Done r) \<and> sv_sessions s = [])"
lemma running_update:
  assumes "i < length xs"
  shows "running (xs[i := y]) + (if xs ! i = SS_Running then 1 else 0) = running xs + (if y = SS_Running then 1 else 0)"
proof -
  have "running (xs[i := y]) = running (take i xs) + (if y = SS_Running then 1 else 0) + running (drop (Suc i) xs)"
    using assms by (simp add: running_def upd_conv_take_nth_drop)
  moreover have "running xs = running (take i xs @ xs ! i # drop (Suc i) xs)"
    by (rule arg_cong [OF id_take_nth_drop [OF assms]])
  then have "running xs = running (take i xs) + (if xs ! i = SS_Running then 1 else 0) + running (drop (Suc i) xs)"
    by (simp add: running_def)
  ultimately show ?thesis by simp
qed

lemma running_remove:
  assumes "i < length xs" "xs ! i \<noteq> SS_Running"
  shows "running (take i xs @ drop (Suc i) xs) = running xs"
proof -
  have "xs = take i xs @ xs ! i # drop (Suc i) xs" by (rule id_take_nth_drop [OF assms(1)])
  then have "running xs = running (take i xs @ xs ! i # drop (Suc i) xs)" by (rule arg_cong)
  then show ?thesis using assms(2) by (simp add: running_def)
qed

lemma server_inv_init: "server_inv listener_init"
  by (simp add: server_inv_def listener_init_def running_def)

lemma slept_pos: "0 < b \<Longrightarrow> 0 < slept b"
  by (simp add: slept_def emfileBackoffMax_def Let_def)

lemma running_snoc [simp]: "running (xs @ [SS_Spawned]) = running xs" "running [] = 0"
  by (simp_all add: running_def)

lemma serve_step_inv: "serve_step s s' \<Longrightarrow> server_inv s \<Longrightarrow> server_inv s'"
proof (induction rule: serve_step.induct)
  case (sv_accept s b r)
  then show ?case by (cases r) (auto simp: server_inv_def)
qed (auto simp: server_inv_def closeListenerOnce_def)

lemma session_step_inv: "session_step s s' \<Longrightarrow> server_inv s \<Longrightarrow> server_inv s'"
proof (induction rule: session_step.induct)
  case (se_start i s)
  then show ?case using running_update [of i "sv_sessions s" SS_Running] by (auto simp: server_inv_def)
next
  case (se_end i s)
  then show ?case using running_update [of i "sv_sessions s" SS_Ended] by (auto simp: server_inv_def)
next
  case (se_done i s)
  then show ?case using running_remove [of i "sv_sessions s"] by (auto simp: server_inv_def)
qed

lemma shutdown_step_inv: "shutdown_step s s' \<Longrightarrow> server_inv s \<Longrightarrow> server_inv s'"
proof (induction rule: shutdown_step.induct)
  case (sh_drained s)
  then show ?case by (cases "sv_pc s") (auto simp: server_inv_def)
qed (auto simp: server_inv_def closeListenerOnce_def)

lemma server_step_inv: "server_step s s' \<Longrightarrow> server_inv s \<Longrightarrow> server_inv s'"
  unfolding server_step_def
proof (elim disjE)
  assume "server_inv s" "s' = cancel_ctx s"
  then show ?thesis by (auto simp: cancel_ctx_def server_inv_def)
qed (auto dest: serve_step_inv session_step_inv shutdown_step_inv)

lemma server_steps_inv: "server_step\<^sup>*\<^sup>* s s' \<Longrightarrow> server_inv s \<Longrightarrow> server_inv s'"
  by (induction rule: rtranclp_induct) (auto intro: server_step_inv)

lemmas server_reach_inv = server_steps_inv [OF _ server_inv_init]

lemma closed_stays: "server_step\<^sup>*\<^sup>* s s' \<Longrightarrow> sv_closed s \<Longrightarrow> sv_closed s'"
proof (induction rule: rtranclp_induct)
  case (step t u)
  have "serve_step t u \<Longrightarrow> sv_closed t \<Longrightarrow> sv_closed u"
  proof (induction rule: serve_step.induct)
    case (sv_accept s b r)
    then show ?case by (cases r) auto
  qed (auto simp: closeListenerOnce_def)
  moreover have "session_step t u \<Longrightarrow> sv_closed t \<Longrightarrow> sv_closed u" by (induction rule: session_step.induct) auto
  moreover have "shutdown_step t u \<Longrightarrow> sv_closed t \<Longrightarrow> sv_closed u"
    by (induction rule: shutdown_step.induct) (auto simp: closeListenerOnce_def)
  ultimately show ?case using step by (auto simp: server_step_def cancel_ctx_def)
qed simp

lemma returned_stays: "server_step\<^sup>*\<^sup>* s s' \<Longrightarrow> sv_shut s = SH_Ret ok \<Longrightarrow> sv_shut s' = SH_Ret ok"
proof (induction rule: rtranclp_induct)
  case (step t u)
  have "serve_step t u \<Longrightarrow> sv_shut u = sv_shut t"
  proof (induction rule: serve_step.induct)
    case (sv_accept s b r)
    then show ?case by (cases r) auto
  qed (auto simp: closeListenerOnce_def)
  moreover have "session_step t u \<Longrightarrow> sv_shut u = sv_shut t" by (induction rule: session_step.induct) auto
  moreover have "shutdown_step t u \<Longrightarrow> sv_shut t = SH_Ret ok \<Longrightarrow> sv_shut u = SH_Ret ok"
    by (induction rule: shutdown_step.induct) auto
  ultimately show ?case using step by (auto simp: server_step_def cancel_ctx_def)
qed simp

section \<open>Stopping\<close>

fun serve_rank :: "serve_pc \<Rightarrow> nat" where
  "serve_rank (S_Done r) = 0"
| "serve_rank (S_Exit r) = 1"
| "serve_rank (S_Join r) = 2"
| "serve_rank (S_Return r) = 3"
| "serve_rank (S_Accept b) = 4"
| "serve_rank _ = 5"

definition stop_rank :: "listener \<Rightarrow> nat" where
  "stop_rank s = serve_rank (sv_pc s) + (if sv_watch s = W_Done then 0 else 1)"

lemma serve_step_rank:
  assumes "serve_step s s'" "server_inv s" "sv_closed s"
  shows "stop_rank s' < stop_rank s \<and> sv_sessions s' = sv_sessions s"
  using assms
proof (induction rule: serve_step.induct)
  case (sv_accept s b r)
  then show ?case by (cases r) (auto simp: stop_rank_def)
qed (auto simp: stop_rank_def server_inv_def closeListenerOnce_def)

lemma serve_step_enabled:
  assumes "server_inv s" "sv_closed s" "\<forall>r. sv_pc s \<noteq> S_Done r"
  shows "\<exists>s'. serve_step s s'"
proof (cases "sv_pc s")
  case (S_Accept b)
  then show ?thesis using assms(2) serve_step.sv_accept [of s b AC_Closed] by auto
next
  case (S_Join r)
  then have "sv_cancel s" "sv_watch s \<noteq> W_None" using assms(1) by (auto simp: server_inv_def)
  then show ?thesis using S_Join serve_step.sv_watched serve_step.sv_join by (cases "sv_watch s") blast+
next
  case (S_Done r)
  then show ?thesis using assms(3) by blast
qed (blast intro: serve_step.intros)+

lemma closeListenerOnce_keeps [simp]:
  "sv_pc (closeListenerOnce s) = sv_pc s" "sv_watch (closeListenerOnce s) = sv_watch s"
  "sv_sessions (closeListenerOnce s) = sv_sessions s"
  by (simp_all add: closeListenerOnce_def)

lemma other_step_rank:
  assumes "session_step s s' \<or> shutdown_step s s' \<or> s' = cancel_ctx s"
  shows "stop_rank s' = stop_rank s"
  using assms by (auto elim!: session_step.cases shutdown_step.cases simp: stop_rank_def cancel_ctx_def)

text \<open>The waits of a run of descriptor exhaustion.\<close>

fun emfile_sleeps :: "nat \<Rightarrow> nat \<Rightarrow> nat list" where
  "emfile_sleeps 0 b = []"
| "emfile_sleeps (Suc n) b = (case accept_turn AC_EMFILE b of S_Sleep d \<Rightarrow> d # emfile_sleeps n (slept d) | _ \<Rightarrow> [])"

lemma min_scaled: "1 \<le> c \<Longrightarrow> min (min a m * c) m = min (a * c) (m::nat)"
proof (cases "a \<le> m")
  case False
  moreover assume "1 \<le> c"
  ultimately have "min a m = m" "m \<le> m * c" "m * c \<le> a * c" by simp_all
  then show ?thesis by (metis min_absorb2 order_trans)
qed (simp add: min_absorb1)

lemma emfile_sleeps_nth:
  "0 < b \<Longrightarrow> b \<le> emfileBackoffMax \<Longrightarrow> k < n \<Longrightarrow> emfile_sleeps n b ! k = min (b * 2 ^ k) emfileBackoffMax"
proof (induction n arbitrary: b k)
  case (Suc n)
  have s: "0 < slept b" "slept b \<le> emfileBackoffMax" "slept b = min (b * 2) emfileBackoffMax"
    using Suc.prems(1) slept_pos by (auto simp: slept_def emfileBackoffMax_def Let_def)
  show ?case
  proof (cases k)
    case (Suc j)
    then have "emfile_sleeps n (slept b) ! j = min (slept b * 2 ^ j) emfileBackoffMax" using Suc.IH [OF s(1,2)] Suc.prems(3) by simp
    also have "\<dots> = min (b * 2 * 2 ^ j) emfileBackoffMax" unfolding s(3) by (rule min_scaled) simp
    finally show ?thesis using Suc Suc.prems(1) by (simp add: mult.assoc)
  qed (use Suc.prems in simp)
qed simp

lemma emfile_backoff: "k < n \<Longrightarrow> emfile_sleeps n 0 ! k = min (emfileBackoffMin * 2 ^ k) emfileBackoffMax"
proof -
  assume k: "k < n"
  then have "emfile_sleeps n 0 = emfile_sleeps n emfileBackoffMin" by (cases n) (simp_all add: emfileBackoffMin_def)
  then show ?thesis using emfile_sleeps_nth [OF _ _ k, of emfileBackoffMin] by (simp add: emfileBackoffMin_def emfileBackoffMax_def)
qed

lemma unclosed_stays:
  "server_step\<^sup>*\<^sup>* s s' \<Longrightarrow> sv_once s \<Longrightarrow> \<not> sv_closed s \<Longrightarrow> sv_once s' \<and> \<not> sv_closed s'"
proof (induction rule: rtranclp_induct)
  case (step t u)
  have "serve_step t u \<Longrightarrow> sv_once t \<and> \<not> sv_closed t \<Longrightarrow> sv_once u \<and> \<not> sv_closed u"
  proof (induction rule: serve_step.induct)
    case (sv_accept s b r)
    then show ?case by (cases r) auto
  qed (auto simp: closeListenerOnce_def)
  moreover have "session_step t u \<or> shutdown_step t u \<or> u = cancel_ctx t \<Longrightarrow> sv_once t \<and> \<not> sv_closed t \<Longrightarrow> sv_once u \<and> \<not> sv_closed u"
    by (auto elim!: session_step.cases shutdown_step.cases simp: closeListenerOnce_def cancel_ctx_def)
  ultimately show ?case using step by (auto simp: server_step_def)
qed simp

section \<open>Theorems\<close>


text \<open>A server that serves one session and is shut down; and one that is shut down before it listens.\<close>

definition served :: listener where
  "served = \<lparr>sv_pc = S_Done SR_Nil, sv_watch = W_Done, sv_shut = SH_Ret True, sv_listener = True, sv_closed = True,
     sv_once = True, sv_wg = 0, sv_ctx = False, sv_cancel = True, sv_sessions = [], sv_gauge = 0\<rparr>"

definition draining :: listener where
  "draining = \<lparr>sv_pc = S_Accept 0, sv_watch = W_Wait, sv_shut = SH_Wait, sv_listener = True, sv_closed = True,
     sv_once = True, sv_wg = 2, sv_ctx = False, sv_cancel = False, sv_sessions = [SS_Running], sv_gauge = 1\<rparr>"

definition shut_early :: listener where
  "shut_early = listener_init\<lparr>sv_once := True, sv_shut := SH_Ret True\<rparr>"

definition serves_on :: listener where
  "serves_on = \<lparr>sv_pc = S_Accept 0, sv_watch = W_Wait, sv_shut = SH_Ret True, sv_listener = True, sv_closed = False,
     sv_once = True, sv_wg = 2, sv_ctx = False, sv_cancel = False, sv_sessions = [SS_Running], sv_gauge = 1\<rparr>"

lemma sstep_serve: "server_step\<^sup>*\<^sup>* s t \<Longrightarrow> serve_step t u \<Longrightarrow> server_step\<^sup>*\<^sup>* s u"
  and sstep_session: "server_step\<^sup>*\<^sup>* s t \<Longrightarrow> session_step t u \<Longrightarrow> server_step\<^sup>*\<^sup>* s u"
  and sstep_shutdown: "server_step\<^sup>*\<^sup>* s t \<Longrightarrow> shutdown_step t u \<Longrightarrow> server_step\<^sup>*\<^sup>* s u"
  by (auto simp: server_step_def intro: rtranclp.rtrancl_into_rtrancl)

lemma draining_reach: "server_reach draining"
proof -
  note r = sstep_serve [OF rtranclp.rtrancl_refl sv_add, of listener_init, unfolded listener_init_def, simplified]
  note r = sstep_serve [OF r sv_listen, simplified]
  note r = sstep_serve [OF r sv_assign, simplified]
  note r = sstep_serve [OF r sv_watcher, simplified]
  note r = sstep_serve [OF r sv_accept [where r = AC_Conn and b = 0], simplified]
  note r = sstep_session [OF r se_start [where i = 0], simplified]
  note r = sstep_shutdown [OF r sh_close, simplified]
  then show ?thesis by (simp add: closeListenerOnce_def draining_def listener_init_def numeral_2_eq_2)
qed

lemma served_reach: "server_reach served"
proof -
  note r = sstep_session [OF draining_reach se_end [where i = 0], unfolded draining_def, simplified]
  note r = sstep_session [OF r se_done [where i = 0], simplified]
  note r = sstep_serve [OF r sv_accept [where r = AC_Closed and b = 0], simplified]
  note r = sstep_serve [OF r sv_return, simplified]
  note r = sstep_serve [OF r sv_watched, simplified]
  note r = sstep_serve [OF r [unfolded closeListenerOnce_def, simplified] sv_join, simplified]
  note r = sstep_serve [OF r sv_exit, simplified]
  note r = sstep_shutdown [OF r sh_drained, simplified]
  then show ?thesis by (simp add: served_def)
qed

lemma early_reach: "server_reach shut_early" "server_step\<^sup>*\<^sup>* shut_early serves_on"
proof -
  note r = sstep_shutdown [OF rtranclp.rtrancl_refl sh_close, of listener_init, unfolded closeListenerOnce_def listener_init_def, simplified]
  note r = sstep_shutdown [OF r sh_drained, simplified]
  then show "server_reach shut_early" by (simp add: shut_early_def listener_init_def)
  note r = sstep_serve [OF rtranclp.rtrancl_refl sv_add, of shut_early, unfolded shut_early_def listener_init_def, simplified]
  note r = sstep_serve [OF r sv_listen, simplified]
  note r = sstep_serve [OF r sv_assign, simplified]
  note r = sstep_serve [OF r sv_watcher, simplified]
  note r = sstep_serve [OF r sv_accept [where r = AC_Conn and b = 0], simplified]
  note r = sstep_session [OF r se_start [where i = 0], simplified]
  then show "server_step\<^sup>*\<^sup>* shut_early serves_on" by (simp add: serves_on_def shut_early_def listener_init_def numeral_2_eq_2)
qed


text \<open>C33: A closed listener brings the server down.  From the moment its listener is closed, \<^verbatim>\<open>Serve\<close> is never
  blocked until it has returned, each of its steps brings its end nearer, no other goroutine can delay it, and it
  spawns no further session; \<^verbatim>\<open>Shutdown\<close> then reports a clean drain as soon as the sessions have ended.\<close>

theorem closed_listener_stops:
  assumes "server_reach s" "sv_closed s"
  shows "((\<forall>r. sv_pc s \<noteq> S_Done r) \<longrightarrow> (\<exists>s'. serve_step s s')) \<and>
     (\<forall>s'. serve_step s s' \<longrightarrow> stop_rank s' < stop_rank s \<and> sv_sessions s' = sv_sessions s) \<and>
     (\<forall>s'. session_step s s' \<or> shutdown_step s s' \<or> s' = cancel_ctx s \<longrightarrow> stop_rank s' = stop_rank s) \<and>
     (sv_shut s = SH_Wait \<and> (\<exists>r. sv_pc s = S_Done r) \<and> sv_sessions s = [] \<longrightarrow>
        shutdown_step s (s\<lparr>sv_shut := SH_Ret True\<rparr>))"
proof (intro conjI allI impI)
  have inv: "server_inv s" by (rule server_reach_inv [OF assms(1)])
  show "\<exists>s'. serve_step s s'" if "\<forall>r. sv_pc s \<noteq> S_Done r" by (rule serve_step_enabled [OF inv assms(2) that])
  show "stop_rank s' < stop_rank s" "sv_sessions s' = sv_sessions s" if "serve_step s s'" for s'
    using serve_step_rank [OF that inv assms(2)] by simp_all
  show "shutdown_step s (s\<lparr>sv_shut := SH_Ret True\<rparr>)"
    if "sv_shut s = SH_Wait \<and> (\<exists>r. sv_pc s = S_Done r) \<and> sv_sessions s = []"
    using that inv by (intro sh_drained) (auto simp: server_inv_def)
qed (rule other_step_rank)

theorem closed_listener_stops_witness:
  "server_reach draining \<and> serve_step draining (draining\<lparr>sv_pc := S_Return SR_Nil\<rparr>) \<and>
   stop_rank (draining\<lparr>sv_pc := S_Return SR_Nil\<rparr>) < stop_rank draining"
proof -
  have "serve_step draining (draining\<lparr>sv_pc := S_Return SR_Nil\<rparr>)"
    using sv_accept [of draining 0 AC_Closed] by (simp add: draining_def)
  then show ?thesis using closed_listener_stops [OF draining_reach] draining_reach by (simp add: draining_def)
qed

text \<open>A server that is shut down before \<^verbatim>\<open>Serve\<close> has published its listener reports a clean drain at once; its
  listener is then closed by nobody, and it goes on accepting.\<close>

theorem early_shutdown_never_stops:
  "server_reach shut_early \<and> sv_shut shut_early = SH_Ret True \<and>
   server_step\<^sup>*\<^sup>* shut_early serves_on \<and> sv_sessions serves_on = [SS_Running] \<and>
   (\<forall>s. server_step\<^sup>*\<^sup>* shut_early s \<longrightarrow> \<not> sv_closed s)"
  using early_reach unclosed_stays [of shut_early]
  by (auto simp: shut_early_def serves_on_def listener_init_def)

end
