(* ===== verification/Config_Validate.thy ===== *)
theory Config_Validate
  imports Session
begin

text \<open>
  The broker's configuration (\<^verbatim>\<open>internal/config/config.go\<close>): what \<^verbatim>\<open>validate\<close> accepts, the cluster
  membership flag, and the broker configuration that \<^verbatim>\<open>cmd/toymq\<close> builds from it.  \<^verbatim>\<open>url.Parse\<close> and
  \<^verbatim>\<open>net.ParseIP\<close> are arguments: the scheme and host of a URL, the bytes of an address.
\<close>

section \<open>Configuration\<close>

text \<open>A sampling ratio as a 64-bit float: a number, an infinity, or not a number.\<close>

datatype float64 = Num rat | PInf | NInf | NaN

record Config =
  Addr :: string
  DataDir :: string
  LogLevel :: string
  LogFormat :: string
  ShutdownTimeout :: int
  DedupeCap :: int
  RecvWindow :: int
  DefaultPartitions :: int
  FsyncMode :: string
  FsyncInterval :: int
  SegmentBytes :: int
  RetainBytes :: int
  RetainDuration :: int
  DLQAfterNacks :: int
  RequireHello :: bool
  AuthTokenFile :: string
  TLSAddr :: string
  TLSCert :: string
  TLSKey :: string
  MetricsAddr :: string
  OTLPEndpoint :: string
  TraceSampleRatio :: float64
  ServiceVersion :: string
  Replicate :: bool
  NodeID :: string
  RaftDir :: string
  Peers :: string
  RaftAddr :: string
  AllowPublicRaftBind :: bool

definition default_config :: Config where
  "default_config = \<lparr>Addr = '':6789'', DataDir = ''./data'', LogLevel = ''info'', LogFormat = ''text'',
     ShutdownTimeout = 5000000000, DedupeCap = 4096, RecvWindow = 256, DefaultPartitions = 1,
     FsyncMode = ''per-message'', FsyncInterval = 5000000, SegmentBytes = 0, RetainBytes = 0, RetainDuration = 0,
     DLQAfterNacks = 0, RequireHello = True, AuthTokenFile = [], TLSAddr = [], TLSCert = [], TLSKey = [],
     MetricsAddr = [], OTLPEndpoint = [], TraceSampleRatio = Num (3602879701896397 / 72057594037927936), ServiceVersion = ''dev'',
     Replicate = False, NodeID = ''n1'', RaftDir = [], Peers = [], RaftAddr = [], AllowPublicRaftBind = False\<rparr>"

datatype config_err = BadAddr | BadDataDir | BadLogLevel | BadLogFormat | BadShutdown | BadDedupeCap | BadRecvWindow
  | BadPartitions | BadFsync | BadFsyncInterval | BadSegmentBytes | BadRetainBytes | BadRetainDuration
  | RetainNeedsSegments | BadDLQ | BadRatio | TLSPair | TLSNeedsCert | NoNodeID | BadPeers | SelfNotInPeers
  | EvenPeers nat | NoRaftAddr | PublicRaftBind

section \<open>Addresses\<close>

fun index_of :: "char \<Rightarrow> string \<Rightarrow> nat option" where
  "index_of c [] = None"
| "index_of c (x # xs) = (if x = c then Some 0 else map_option Suc (index_of c xs))"

definition last_index_of :: "char \<Rightarrow> string \<Rightarrow> nat option" where
  "last_index_of c s = map_option (\<lambda>i. length s - 1 - i) (index_of c (rev s))"

text \<open>\<^verbatim>\<open>net.SplitHostPort\<close>: the host, \<open>None\<close> on an error.\<close>

definition SplitHostPort :: "string \<Rightarrow> string option" where
  "SplitHostPort hp =
     (case last_index_of (CHR '':'') hp of
        None \<Rightarrow> None
      | Some i \<Rightarrow>
          if hd hp = CHR ''[''
          then (case index_of (CHR '']'') hp of
                  None \<Rightarrow> None
                | Some e \<Rightarrow>
                    if e + 1 \<noteq> i then None
                    else if CHR ''['' \<in> set (drop 1 hp) \<or> CHR '']'' \<in> set (drop (e + 1) hp) then None
                    else Some (drop 1 (take e hp)))
          else if CHR '':'' \<in> set (take i hp) then None
          else if CHR ''['' \<in> set hp \<or> CHR '']'' \<in> set hp then None
          else Some (take i hp))"

datatype ip = IPv4 nat nat nat nat | IPv6 "nat list"

fun IsLoopback :: "ip \<Rightarrow> bool" where
  "IsLoopback (IPv4 a b c d) \<longleftrightarrow> a = 127"
| "IsLoopback (IPv6 bs) \<longleftrightarrow> bs = replicate 15 0 @ [1]"

fun IsPrivate :: "ip \<Rightarrow> bool" where
  "IsPrivate (IPv4 a b c d) \<longleftrightarrow> a = 10 \<or> a = 172 \<and> 16 \<le> b \<and> b < 32 \<or> a = 192 \<and> b = 168"
| "IsPrivate (IPv6 bs) \<longleftrightarrow> length bs = 16 \<and> (hd bs = 252 \<or> hd bs = 253)"

definition isPublicBind :: "(string \<Rightarrow> ip option) \<Rightarrow> string \<Rightarrow> bool" where
  "isPublicBind parse_ip addr =
     (case SplitHostPort addr of
        None \<Rightarrow> False
      | Some host \<Rightarrow>
          if host = [] \<or> host = ''0.0.0.0'' \<or> host = ''::'' then True
          else case parse_ip host of None \<Rightarrow> False | Some a \<Rightarrow> \<not> IsLoopback a \<and> \<not> IsPrivate a)"

section \<open>Membership\<close>

text \<open>The scheme and the host of a URL, \<open>None\<close> when it does not parse.\<close>

type_synonym url_parse = "string \<Rightarrow> (string \<times> string) option"

datatype peers_err = EmptyEntry | WantIDURL | BadURL | NotAbsolute | DuplicateID string

fun parse_entries :: "url_parse \<Rightarrow> string list \<Rightarrow> (string \<times> string) list \<Rightarrow> peers_err + (string \<times> string) list" where
  "parse_entries url [] out = Inr out"
| "parse_entries url (e # es) out =
     (let entry = TrimSpace e in
      if entry = [] then Inl EmptyEntry
      else case Cut entry (CHR ''@'') of
        (i, rawURL, ok) \<Rightarrow>
          if \<not> ok \<or> i = [] \<or> rawURL = [] then Inl WantIDURL
          else (case url rawURL of
            None \<Rightarrow> Inl BadURL
          | Some (scheme, host) \<Rightarrow>
              if scheme = [] \<or> host = [] then Inl NotAbsolute
              else if map_of out i \<noteq> None then Inl (DuplicateID i)
              else parse_entries url es (AList.update i rawURL out)))"

definition ParsePeers :: "url_parse \<Rightarrow> string \<Rightarrow> peers_err + (string \<times> string) list" where
  "ParsePeers url raw = parse_entries url (Split (CHR '','') raw) []"

definition ClusterPeers :: "url_parse \<Rightarrow> Config \<Rightarrow> (string \<times> string) list option" where
  "ClusterPeers url c =
     (if Peers c = [] then None else case ParsePeers url (Peers c) of Inl _ \<Rightarrow> None | Inr ps \<Rightarrow> Some ps)"

definition PeerURLsExcludingSelf :: "url_parse \<Rightarrow> Config \<Rightarrow> (string \<times> string) list option" where
  "PeerURLsExcludingSelf url c = map_option (AList.delete (NodeID c)) (ClusterPeers url c)"

definition ResolvedRaftDir :: "(string \<Rightarrow> string \<Rightarrow> string) \<Rightarrow> Config \<Rightarrow> string" where
  "ResolvedRaftDir join c = (if RaftDir c \<noteq> [] then RaftDir c else join (DataDir c) ''raft'')"

section \<open>Validation\<close>

definition validLogLevels :: "string list" where
  "validLogLevels = [''debug'', ''info'', ''warn'', ''error'']"

definition validLogFormats :: "string list" where
  "validLogFormats = [''text'', ''json'']"

fun ratio_rejected :: "float64 \<Rightarrow> bool" where
  "ratio_rejected (Num r) \<longleftrightarrow> r < 0 \<or> r > 1"
| "ratio_rejected PInf \<longleftrightarrow> True"
| "ratio_rejected NInf \<longleftrightarrow> True"
| "ratio_rejected NaN \<longleftrightarrow> False"

definition validate_cluster :: "url_parse \<Rightarrow> (string \<Rightarrow> ip option) \<Rightarrow> Config \<Rightarrow> config_err option" where
  "validate_cluster url parse_ip c =
     (if Replicate c \<and> NodeID c = [] then Some NoNodeID
      else if Replicate c \<and> Peers c \<noteq> []
      then (case ParsePeers url (Peers c) of
              Inl _ \<Rightarrow> Some BadPeers
            | Inr ps \<Rightarrow>
                if map_of ps (NodeID c) = None then Some SelfNotInPeers
                else if length ps mod 2 = 0 then Some (EvenPeers (length ps))
                else if RaftAddr c = [] then Some NoRaftAddr
                else if \<not> AllowPublicRaftBind c \<and> isPublicBind parse_ip (RaftAddr c) then Some PublicRaftBind
                else None)
      else None)"

definition validate :: "url_parse \<Rightarrow> (string \<Rightarrow> ip option) \<Rightarrow> Config \<Rightarrow> config_err option" where
  "validate url parse_ip c =
     (if Addr c = [] then Some BadAddr
      else if DataDir c = [] then Some BadDataDir
      else if LogLevel c \<notin> set validLogLevels then Some BadLogLevel
      else if LogFormat c \<notin> set validLogFormats then Some BadLogFormat
      else if ShutdownTimeout c \<le> 0 then Some BadShutdown
      else if DedupeCap c \<le> 0 then Some BadDedupeCap
      else if RecvWindow c < 1 then Some BadRecvWindow
      else if DefaultPartitions c < 1 then Some BadPartitions
      else if (case ParseSyncMode (FsyncMode c) of Inl _ \<Rightarrow> True | Inr _ \<Rightarrow> False) then Some BadFsync
      else if FsyncMode c = ''batched'' \<and> FsyncInterval c \<le> 0 then Some BadFsyncInterval
      else if SegmentBytes c < 0 then Some BadSegmentBytes
      else if RetainBytes c < 0 then Some BadRetainBytes
      else if RetainDuration c < 0 then Some BadRetainDuration
      else if (RetainBytes c > 0 \<or> RetainDuration c > 0) \<and> SegmentBytes c \<le> 0 then Some RetainNeedsSegments
      else if DLQAfterNacks c < 0 then Some BadDLQ
      else if ratio_rejected (TraceSampleRatio c) then Some BadRatio
      else if (TLSCert c = []) \<noteq> (TLSKey c = []) then Some TLSPair
      else if TLSAddr c \<noteq> [] \<and> TLSCert c = [] then Some TLSNeedsCert
      else validate_cluster url parse_ip c)"

text \<open>What \<^verbatim>\<open>cmd/toymq\<close> hands to the broker: a visibility timeout of 30 seconds, sizes as unsigned numbers.\<close>

definition broker_config_of :: "Config \<Rightarrow> broker_config" where
  "broker_config_of c =
     \<lparr>cf_dedupeCap = DedupeCap c, cf_defaultPartitions = DefaultPartitions c, cf_recvWindow = RecvWindow c,
      cf_visibilityTimeout = 30000000000, cf_SegmentBytes = of_int (SegmentBytes c), cf_RetainBytes = of_int (RetainBytes c),
      cf_RetainDuration = RetainDuration c, cf_dlqAfterNacks = DLQAfterNacks c,
      cf_sync = (case ParseSyncMode (FsyncMode c) of Inr m \<Rightarrow> m | Inl _ \<Rightarrow> SyncPerMessage)\<rparr>"

section \<open>Lemmas on membership\<close>

lemma parse_entries_distinct:
  "parse_entries url es out = Inr ps \<Longrightarrow> distinct (map fst out) \<Longrightarrow> distinct (map fst ps)"
  by (induction es arbitrary: out)
     (auto simp: Let_def distinct_update split: if_splits prod.splits option.splits)

lemma update_new: "map_of al k = None \<Longrightarrow> AList.update k v al = al @ [(k, v)]"
  by (induction al) (auto split: if_splits)

lemma Split_nonempty: "Split sep s \<noteq> []"
  by (induction sep s rule: Split.induct) (auto split: list.splits)

lemma Split_last: "sep \<notin> set a \<Longrightarrow> Split sep a = [a]"
  by (induction a) auto

lemma Split_Cons: "sep \<notin> set a \<Longrightarrow> Split sep (a @ sep # b) = a # Split sep b"
  by (induction a) auto

text \<open>The flag that lists the members.\<close>

definition peer_entry :: "string \<times> string \<Rightarrow> string" where
  "peer_entry e = fst e @ CHR ''@'' # snd e"

fun peers_flag :: "(string \<times> string) list \<Rightarrow> string" where
  "peers_flag [] = []"
| "peers_flag [e] = peer_entry e"
| "peers_flag (e # es) = peer_entry e @ CHR '','' # peers_flag es"

definition peer_ok :: "url_parse \<Rightarrow> string \<times> string \<Rightarrow> bool" where
  "peer_ok url e \<longleftrightarrow>
     fst e \<noteq> [] \<and> snd e \<noteq> [] \<and> CHR ''@'' \<notin> set (fst e) \<and> CHR '','' \<notin> set (peer_entry e) \<and>
     TrimSpace (peer_entry e) = peer_entry e \<and> (\<exists>scheme host. url (snd e) = Some (scheme, host) \<and> scheme \<noteq> [] \<and> host \<noteq> [])"

lemma Split_flag: "es \<noteq> [] \<Longrightarrow> \<forall>e \<in> set es. peer_ok url e \<Longrightarrow> Split (CHR '','') (peers_flag es) = map peer_entry es"
  by (induction es rule: peers_flag.induct) (auto simp: peer_ok_def Split_last Split_Cons)

lemma parse_peer_step:
  assumes "peer_ok url e"
  shows "parse_entries url (peer_entry e # xs) out =
     (if map_of out (fst e) \<noteq> None then Inl (DuplicateID (fst e)) else parse_entries url xs (out @ [e]))"
proof -
  have "Cut (peer_entry e) (CHR ''@'') = (fst e, snd e, True)"
    using assms by (simp add: peer_entry_def peer_ok_def Cut_found)
  moreover have "peer_entry e \<noteq> []" by (simp add: peer_entry_def)
  ultimately show ?thesis using assms update_new [of out "fst e" "snd e"] by (auto simp: peer_ok_def Let_def)
qed

lemma parse_entries_map:
  "\<forall>e \<in> set es. peer_ok url e \<Longrightarrow> distinct (map fst out) \<Longrightarrow>
     (if distinct (map fst (out @ es)) then parse_entries url (map peer_entry es) out = Inr (out @ es)
      else \<exists>i. parse_entries url (map peer_entry es) out = Inl (DuplicateID i))"
proof (induction es arbitrary: out)
  case (Cons e es)
  show ?case
  proof (cases "map_of out (fst e)")
    case None
    then have "fst e \<notin> fst ` set out" by (simp add: map_of_eq_None_iff)
    then show ?thesis using Cons.IH [of "out @ [e]"] Cons.prems None by (simp add: parse_peer_step del: parse_entries.simps)
  next
    case (Some u)
    then have "fst e \<in> fst ` set out" by (metis map_of_eq_None_iff option.distinct(1))
    then show ?thesis using Cons.prems Some by (auto simp: parse_peer_step simp del: parse_entries.simps)
  qed
qed simp

lemma delete_self:
  assumes "distinct (map fst ps)" "map_of ps k \<noteq> None"
  shows "k \<notin> fst ` set (AList.delete k ps) \<and> length ps = length (AList.delete k ps) + 1"
proof
  show "k \<notin> fst ` set (AList.delete k ps)" by (auto simp: AList.delete_eq)
  show "length ps = length (AList.delete k ps) + 1"
    using assms
  proof (induction ps)
    case (Cons p ps)
    show ?case
    proof (cases "fst p = k")
      case True
      then have "AList.delete k ps = ps" using Cons.prems(1) by (intro AList.delete_id) auto
      then show ?thesis using True by (cases p) simp
    qed (use Cons in \<open>cases p, auto\<close>)
  qed simp
qed

section \<open>Properties\<close>

text \<open>A configuration that is accepted never meets the silent defaults of the broker, keeps retention only with
  segments it can drop, and in a cluster gives a membership of distinct nodes that contains this node and an even
  number of others, which are the peers the transport is given.\<close>
theorem validated_config:
  assumes "validate url parse_ip c = None" "SegmentBytes c < 2 ^ 63" "RetainBytes c < 2 ^ 63"
  shows "newBroker_config (broker_config_of c) = broker_config_of c \<and> 0 < cf_dedupeCap (broker_config_of c) \<and>
     0 \<le> cf_dlqAfterNacks (broker_config_of c) \<and>
     (cf_RetainBytes (broker_config_of c) > 0 \<or> cf_RetainDuration (broker_config_of c) > 0 \<longrightarrow>
        cf_SegmentBytes (broker_config_of c) > 0) \<and>
     (Replicate c \<and> Peers c \<noteq> [] \<longrightarrow>
        (\<exists>ps others. ClusterPeers url c = Some ps \<and> distinct (map fst ps) \<and> NodeID c \<in> fst ` set ps \<and>
           PeerURLsExcludingSelf url c = Some others \<and> NodeID c \<notin> fst ` set others \<and>
           length ps = length others + 1 \<and> even (length others) \<and>
           (AllowPublicRaftBind c \<or> \<not> isPublicBind parse_ip (RaftAddr c))))"
proof -
  have v: "0 < DedupeCap c" "1 \<le> RecvWindow c" "1 \<le> DefaultPartitions c" "0 \<le> SegmentBytes c" "0 \<le> RetainBytes c"
    "0 \<le> DLQAfterNacks c" "(RetainBytes c > 0 \<or> RetainDuration c > 0) \<Longrightarrow> SegmentBytes c \<noteq> 0"
    "validate_cluster url parse_ip c = None"
    using assms(1) by (auto simp: validate_def not_le not_less split: if_splits)
  have z: "(of_int n :: u64) > 0 \<longleftrightarrow> 0 < n" if "0 \<le> n" "n < 2 ^ 63" for n
    using that by (simp add: word_less_def uint_word_of_int)
  have p: "\<exists>ps others. ClusterPeers url c = Some ps \<and> distinct (map fst ps) \<and> NodeID c \<in> fst ` set ps \<and>
       PeerURLsExcludingSelf url c = Some others \<and> NodeID c \<notin> fst ` set others \<and>
       length ps = length others + 1 \<and> even (length others) \<and>
       (AllowPublicRaftBind c \<or> \<not> isPublicBind parse_ip (RaftAddr c))"
    if r: "Replicate c" "Peers c \<noteq> []"
  proof -
    obtain ps where ps: "ParsePeers url (Peers c) = Inr ps" "map_of ps (NodeID c) \<noteq> None" "odd (length ps)"
      "AllowPublicRaftBind c \<or> \<not> isPublicBind parse_ip (RaftAddr c)"
      using v(8) r by (auto simp: validate_cluster_def even_iff_mod_2_eq_zero split: if_splits sum.splits)
    have d: "distinct (map fst ps)" using ps(1) parse_entries_distinct by (simp add: ParsePeers_def)
    have "NodeID c \<in> fst ` set ps" using ps(2) by (metis map_of_eq_None_iff)
    moreover have "odd (length (AList.delete (NodeID c) ps) + 1)" using delete_self [OF d ps(2)] ps(3) by simp
    ultimately show ?thesis
      using delete_self [OF d ps(2)] ps d r by (simp add: ClusterPeers_def PeerURLsExcludingSelf_def)
  qed
  have "RetainBytes c > 0 \<or> RetainDuration c > 0 \<Longrightarrow> 0 < SegmentBytes c" using v(4,7) by fastforce
  then show ?thesis
    using v z [OF v(4) assms(2)] z [OF v(5) assms(3)] p by (simp add: newBroker_config_def broker_config_of_def)
qed

text \<open>The membership flag is read as it is written: a list of members with distinct names comes back as that list,
  in order, and a repeated name is refused rather than merged.\<close>
theorem peers_roundtrip:
  assumes "es \<noteq> []" "\<forall>e \<in> set es. peer_ok url e"
  shows "if distinct (map fst es) then ParsePeers url (peers_flag es) = Inr es
     else \<exists>i. ParsePeers url (peers_flag es) = Inl (DuplicateID i)"
  using parse_entries_map [OF assms(2), of "[]"] by (simp add: ParsePeers_def Split_flag [OF assms] del: parse_entries.simps)

text \<open>The sampling ratio is not checked when it is not a number.\<close>

lemma nan_ratio_accepted: "validate url parse_ip (default_config\<lparr>TraceSampleRatio := NaN\<rparr>) = None"
  by (simp add: validate_def validate_cluster_def default_config_def validLogLevels_def validLogFormats_def ParseSyncMode_def)

section \<open>Witnesses\<close>

definition sample_url :: url_parse where
  "sample_url u = (if HasPrefix u ''http://'' then Some (''http'', drop 7 u) else None)"

definition sample_peers :: "(string \<times> string) list" where
  "sample_peers = [(''n1'', ''http://a:1''), (''n2'', ''http://b:1''), (''n3'', ''http://c:1'')]"

definition sample_config :: Config where
  "sample_config = default_config\<lparr>Replicate := True, Peers := peers_flag sample_peers, RaftAddr := ''host:7000'',
     SegmentBytes := 1048576, RetainBytes := 4194304\<rparr>"

lemma sample_trim:
  "TrimSpace ''n1@http://a:1'' = ''n1@http://a:1''" "TrimSpace ''n2@http://b:1'' = ''n2@http://b:1''"
  "TrimSpace ''n3@http://c:1'' = ''n3@http://c:1''"
  by code_simp+

lemma sample_peers_ok: "\<forall>e \<in> set sample_peers. peer_ok sample_url e"
  by (simp add: sample_peers_def peer_ok_def peer_entry_def sample_url_def HasPrefix_def sample_trim)

theorem peers_roundtrip_witness:
  "ParsePeers sample_url (peers_flag sample_peers) = Inr sample_peers \<and>
   (\<exists>i. ParsePeers sample_url (peers_flag (sample_peers @ [hd sample_peers])) = Inl (DuplicateID i))"
  using peers_roundtrip [OF _ sample_peers_ok] peers_roundtrip [of "sample_peers @ [hd sample_peers]" sample_url] sample_peers_ok
  by (simp add: sample_peers_def)

lemma sample_validated: "validate sample_url (\<lambda>_. None) sample_config = None"
proof -
  have f: "peers_flag sample_peers \<noteq> []" by (simp add: sample_peers_def peer_entry_def)
  have p: "ParsePeers sample_url (peers_flag sample_peers) = Inr sample_peers"
    using parse_entries_map [OF sample_peers_ok, of "[]"] Split_flag [OF _ sample_peers_ok]
    by (simp add: ParsePeers_def sample_peers_def del: parse_entries.simps)
  have b: "\<not> isPublicBind (\<lambda>_. None) ''host:7000''"
    by (simp add: isPublicBind_def SplitHostPort_def last_index_of_def)
  show ?thesis
    using f p b
    by (simp add: validate_def validate_cluster_def sample_config_def default_config_def validLogLevels_def
        validLogFormats_def ParseSyncMode_def) (simp add: sample_peers_def)
qed

theorem validated_config_witness:
  "cf_SegmentBytes (broker_config_of sample_config) > 0 \<and>
   (\<exists>others. PeerURLsExcludingSelf sample_url sample_config = Some others \<and> even (length others))"
proof -
  have "Replicate sample_config" "Peers sample_config \<noteq> []" "cf_RetainBytes (broker_config_of sample_config) > 0"
    by (simp_all add: sample_config_def sample_peers_def peer_entry_def broker_config_of_def)
  then show ?thesis
    using validated_config [OF sample_validated] by (auto simp: sample_config_def default_config_def)
qed

end
