(* ===== verification/Async_Transport.thy ===== *)
theory Async_Transport
  imports Config_Validate "HOL-Library.Sublist"
begin

text \<open>
  The raft peer transport (\<^verbatim>\<open>internal/replication/transport.go\<close>) and how \<^verbatim>\<open>cmd/toymq\<close> chooses it.  The
  transport that does the sending is not part of the repository: a call to it starts, and returns at some
  later point or never.  A peer has a bounded queue and a goroutine that takes one message after the other
  out of it; messages are of any type \<open>'m\<close>.
\<close>

section \<open>State\<close>

definition asyncSendQueueDepth :: nat where "asyncSendQueueDepth = 256"

text \<open>\<open>PP_Sending m\<close>: inside the inner \<^verbatim>\<open>Send\<close>.  \<open>pq_out\<close> records the calls of it.\<close>

datatype 'm pump_pc = PP_Select | PP_Sending 'm | PP_Stopped

record 'm peer_queue =
  pq_buf :: "'m list"
  pq_pump :: "'m pump_pc"
  pq_out :: "'m list"

record 'm asyncTransport =
  at_queues :: "(string \<times> 'm peer_queue) list"
  at_cancelled :: bool
  at_direct :: "(string \<times> 'm) list"
  at_innerClosed :: bool

definition new_queue :: "'m peer_queue" where
  "new_queue = \<lparr>pq_buf = [], pq_pump = PP_Select, pq_out = []\<rparr>"

definition newAsyncTransport :: "string list \<Rightarrow> 'm asyncTransport" where
  "newAsyncTransport peers =
     \<lparr>at_queues = fold (\<lambda>p. AList.update p new_queue) peers [], at_cancelled = False, at_direct = [], at_innerClosed = False\<rparr>"

section \<open>Operations\<close>

definition enqueue :: "'m \<Rightarrow> 'm peer_queue \<Rightarrow> 'm peer_queue" where
  "enqueue m q = (if length (pq_buf q) < asyncSendQueueDepth then q\<lparr>pq_buf := pq_buf q @ [m]\<rparr> else q)"

text \<open>\<open>inner\<close> is what the inner transport answers to a message for a peer without a queue; \<open>None\<close> is no error.\<close>

definition async_Send :: "(string \<Rightarrow> 'm \<Rightarrow> 'e option) \<Rightarrow> string \<Rightarrow> 'm \<Rightarrow> 'm asyncTransport \<Rightarrow> 'e option \<times> 'm asyncTransport" where
  "async_Send inner to m t =
     (case map_of (at_queues t) to of
        None \<Rightarrow> (inner to m, t\<lparr>at_direct := at_direct t @ [(to, m)]\<rparr>)
      | Some q \<Rightarrow> (None, t\<lparr>at_queues := AList.update to (enqueue m q) (at_queues t)\<rparr>))"

text \<open>One turn of \<^verbatim>\<open>pump\<close>: the \<^verbatim>\<open>select\<close> takes a message or sees the cancelled context, the inner \<^verbatim>\<open>Send\<close> returns.\<close>

datatype pump_act = PA_Take | PA_Return | PA_Stop

fun pump :: "pump_act \<Rightarrow> bool \<Rightarrow> 'm peer_queue \<Rightarrow> 'm peer_queue option" where
  "pump PA_Take cn q =
     (case (pq_pump q, pq_buf q) of
        (PP_Select, m # ms) \<Rightarrow> Some (q\<lparr>pq_buf := ms, pq_pump := PP_Sending m, pq_out := pq_out q @ [m]\<rparr>)
      | _ \<Rightarrow> None)"
| "pump PA_Return cn q =
     (case pq_pump q of PP_Sending m \<Rightarrow> Some (q\<lparr>pq_pump := PP_Select\<rparr>) | _ \<Rightarrow> None)"
| "pump PA_Stop cn q =
     (if cn \<and> pq_pump q = PP_Select then Some (q\<lparr>pq_pump := PP_Stopped\<rparr>) else None)"

definition all_stopped :: "'m asyncTransport \<Rightarrow> bool" where
  "all_stopped t \<longleftrightarrow> list_all (\<lambda>(p, q). pq_pump q = PP_Stopped) (at_queues t)"

text \<open>\<^verbatim>\<open>Close\<close> cancels, waits for the pumps, and closes the inner transport.\<close>

datatype 'm tev = TE_Send string 'm | TE_Pump string pump_act | TE_Cancel | TE_CloseInner

fun tstep :: "'m tev \<Rightarrow> 'm asyncTransport \<Rightarrow> 'm asyncTransport option" where
  "tstep (TE_Send to m) t = Some (snd (async_Send (\<lambda>_ _. None :: unit option) to m t))"
| "tstep (TE_Pump p a) t =
     (case map_of (at_queues t) p of
        None \<Rightarrow> None
      | Some q \<Rightarrow> map_option (\<lambda>q'. t\<lparr>at_queues := AList.update p q' (at_queues t)\<rparr>) (pump a (at_cancelled t) q))"
| "tstep TE_Cancel t = Some (t\<lparr>at_cancelled := True\<rparr>)"
| "tstep TE_CloseInner t =
     (if at_cancelled t \<and> all_stopped t \<and> \<not> at_innerClosed t then Some (t\<lparr>at_innerClosed := True\<rparr>) else None)"

fun trun :: "'m tev list \<Rightarrow> 'm asyncTransport \<Rightarrow> 'm asyncTransport option" where
  "trun [] t = Some t"
| "trun (e # es) t = Option.bind (tstep e t) (trun es)"

text \<open>The transport of a single node drops everything.\<close>

definition single_Send :: "string \<Rightarrow> 'm \<Rightarrow> 'e option" where
  "single_Send to m = None"

section \<open>Choosing a transport\<close>

datatype 'm transport = SingleNode | Async "'m asyncTransport"

text \<open>\<open>http\<close> builds the HTTP transport from the node, its address and its peers' URLs, or reports an error.\<close>

definition NewHTTPTransport ::
    "(string \<Rightarrow> string \<Rightarrow> (string \<times> string) list \<Rightarrow> 'e option) \<Rightarrow> string \<Rightarrow> string \<Rightarrow> (string \<times> string) list \<Rightarrow> 'e + 'm asyncTransport" where
  "NewHTTPTransport http node addr urls =
     (case http node addr urls of Some e \<Rightarrow> Inl e | None \<Rightarrow> Inr (newAsyncTransport (map fst urls)))"

definition raftPeersAndTransport ::
    "url_parse \<Rightarrow> (string \<Rightarrow> string \<Rightarrow> (string \<times> string) list \<Rightarrow> 'e option) \<Rightarrow> Config \<Rightarrow> 'e + string list \<times> 'm transport" where
  "raftPeersAndTransport url http cfg =
     (if Peers cfg = [] then Inr ([NodeID cfg], SingleNode)
      else let membership = (case ClusterPeers url cfg of None \<Rightarrow> [] | Some ps \<Rightarrow> ps);
               urls = (case PeerURLsExcludingSelf url cfg of None \<Rightarrow> [] | Some ps \<Rightarrow> ps)
           in case NewHTTPTransport http (NodeID cfg) (RaftAddr cfg) urls of
                Inl e \<Rightarrow> Inl e
              | Inr t \<Rightarrow> Inr (map fst membership, Async t))"

section \<open>One peer\<close>

text \<open>What one peer sees of a run.\<close>

datatype 'm pev = PE_Send 'm | PE_Pump pump_act | PE_Cancel

fun peer_view :: "string \<Rightarrow> 'm tev \<Rightarrow> 'm pev option" where
  "peer_view p (TE_Send to m) = (if to = p then Some (PE_Send m) else None)"
| "peer_view p (TE_Pump p' a) = (if p' = p then Some (PE_Pump a) else None)"
| "peer_view p TE_Cancel = Some PE_Cancel"
| "peer_view p TE_CloseInner = None"

fun pstep :: "'m pev \<Rightarrow> bool \<times> 'm peer_queue \<Rightarrow> (bool \<times> 'm peer_queue) option" where
  "pstep (PE_Send m) (c, q) = Some (c, enqueue m q)"
| "pstep (PE_Pump a) (c, q) = map_option (Pair c) (pump a c q)"
| "pstep PE_Cancel (c, q) = Some (True, q)"

fun prun :: "'m pev list \<Rightarrow> bool \<times> 'm peer_queue \<Rightarrow> (bool \<times> 'm peer_queue) option" where
  "prun [] s = Some s"
| "prun (e # es) s = Option.bind (pstep e s) (prun es)"

definition peer_state :: "string \<Rightarrow> 'm asyncTransport \<Rightarrow> (bool \<times> 'm peer_queue) option" where
  "peer_state p t = map_option (Pair (at_cancelled t)) (map_of (at_queues t) p)"

fun sent_to :: "string \<Rightarrow> 'm tev list \<Rightarrow> 'm list" where
  "sent_to p [] = []"
| "sent_to p (TE_Send to m # es) = (if to = p then m # sent_to p es else sent_to p es)"
| "sent_to p (_ # es) = sent_to p es"

lemma queue_of_update: "map_of (AList.update k v xs) k' = (if k = k' then Some v else map_of xs k')"
  by (simp add: update_conv)

lemma tstep_peer:
  assumes "tstep e t = Some t'" "peer_state p t = Some s"
  shows "(case peer_view p e of None \<Rightarrow> peer_state p t' = Some s | Some pe \<Rightarrow> peer_state p t' = pstep pe s \<and> pstep pe s \<noteq> None)"
  using assms
  by (cases e) (auto simp: peer_state_def async_Send_def queue_of_update split: option.splits if_splits)

lemma trun_peer:
  "trun es t = Some t' \<Longrightarrow> peer_state p t = Some s \<Longrightarrow>
     prun (List.map_filter (peer_view p) es) s = peer_state p t' \<and> peer_state p t' \<noteq> None"
proof (induction es arbitrary: t s)
  case (Cons e es)
  then obtain t1 where t1: "tstep e t = Some t1" "trun es t1 = Some t'" by (auto simp: bind_eq_Some_conv)
  show ?case
  proof (cases "peer_view p e")
    case None
    then show ?thesis using tstep_peer [OF t1(1) Cons.prems(2)] Cons.IH [OF t1(2)] by (simp add: map_filter_simps)
  next
    case (Some pe)
    then show ?thesis using tstep_peer [OF t1(1) Cons.prems(2)] Cons.IH [OF t1(2)] by (auto simp: map_filter_simps)
  qed
qed (simp add: map_filter_simps)

text \<open>Nothing is invented, doubled or reordered, and the queue is bounded.\<close>

lemma pump_keeps: "pump a c q = Some q' \<Longrightarrow> pq_out q' @ pq_buf q' = pq_out q @ pq_buf q \<and> length (pq_buf q') \<le> length (pq_buf q)"
  by (cases a) (auto split: pump_pc.splits list.splits if_splits)

fun pev_sends :: "'m pev list \<Rightarrow> 'm list" where
  "pev_sends [] = []"
| "pev_sends (PE_Send m # es) = m # pev_sends es"
| "pev_sends (_ # es) = pev_sends es"

lemma prun_fifo:
  "prun es (c, q) = Some (c', q') \<Longrightarrow> length (pq_buf q) \<le> asyncSendQueueDepth \<Longrightarrow>
     (\<exists>ms. subseq ms (pev_sends es) \<and> pq_out q' @ pq_buf q' = pq_out q @ pq_buf q @ ms) \<and>
     length (pq_buf q') \<le> asyncSendQueueDepth"
proof (induction es arbitrary: c q)
  case (Cons e es)
  obtain c1 q1 where s1: "pstep e (c, q) = Some (c1, q1)" "prun es (c1, q1) = Some (c', q')"
    using Cons.prems(1) by (auto simp: bind_eq_Some_conv)
  show ?case
  proof (cases e)
    case (PE_Send m)
    have q1: "q1 = enqueue m q" using s1(1) PE_Send by simp
    then have b: "length (pq_buf q1) \<le> asyncSendQueueDepth" using Cons.prems(2) by (simp add: enqueue_def)
    obtain ms where ms: "subseq ms (pev_sends es)" "pq_out q' @ pq_buf q' = pq_out q1 @ pq_buf q1 @ ms"
      using Cons.IH [OF s1(2) b] by blast
    show ?thesis
    proof (cases "length (pq_buf q) < asyncSendQueueDepth")
      case True
      then show ?thesis using ms q1 PE_Send Cons.IH [OF s1(2) b] by (intro conjI exI [of _ "m # ms"]) (auto simp: enqueue_def)
    next
      case False
      then show ?thesis using ms q1 PE_Send Cons.IH [OF s1(2) b] by (intro conjI exI [of _ ms]) (auto simp: enqueue_def)
    qed
  next
    case (PE_Pump a)
    then have k: "pq_out q1 @ pq_buf q1 = pq_out q @ pq_buf q" "length (pq_buf q1) \<le> asyncSendQueueDepth"
      using s1(1) pump_keeps [of a c q] Cons.prems(2) by auto
    then show ?thesis using Cons.IH [OF s1(2) k(2)] PE_Pump by (metis append.assoc pev_sends.simps(3))
  next
    case PE_Cancel
    then show ?thesis using Cons.IH [OF s1(2)] s1(1) Cons.prems(2) by auto
  qed
qed simp

lemma sends_view: "pev_sends (List.map_filter (peer_view p) es) = sent_to p es"
  by (induction p es rule: sent_to.induct) (auto simp: map_filter_simps)

lemma prun_exact:
  "prun es (c, q) = Some (c', q') \<Longrightarrow> length (pq_buf q) + length (pev_sends es) \<le> asyncSendQueueDepth \<Longrightarrow>
     pq_out q' @ pq_buf q' = pq_out q @ pq_buf q @ pev_sends es"
proof (induction es arbitrary: c q)
  case (Cons e es)
  obtain c1 q1 where s1: "pstep e (c, q) = Some (c1, q1)" "prun es (c1, q1) = Some (c', q')"
    using Cons.prems(1) by (auto simp: bind_eq_Some_conv)
  show ?case
  proof (cases e)
    case (PE_Pump a)
    then have k: "pq_out q1 @ pq_buf q1 = pq_out q @ pq_buf q" "length (pq_buf q1) \<le> length (pq_buf q)"
      using s1(1) pump_keeps [of a c q] by auto
    then have "pq_out q' @ pq_buf q' = (pq_out q1 @ pq_buf q1) @ pev_sends es"
      using Cons.IH [OF s1(2)] Cons.prems(2) PE_Pump by simp
    then show ?thesis using k(1) PE_Pump by simp
  qed (use Cons.IH [OF s1(2)] s1(1) Cons.prems(2) in \<open>auto simp: enqueue_def split: if_splits\<close>)
qed simp

lemma new_queues: "map_of (at_queues (newAsyncTransport peers :: 'm asyncTransport)) p = (if p \<in> set peers then Some new_queue else None)"
proof -
  have "map_of (fold (\<lambda>p. AList.update p new_queue) peers xs) p = (if p \<in> set peers then Some new_queue else map_of xs p)"
    for xs :: "(string \<times> 'm peer_queue) list"
    by (induction peers arbitrary: xs) (auto simp: queue_of_update)
  then show ?thesis by (simp add: newAsyncTransport_def)
qed

fun known :: "'m asyncTransport \<Rightarrow> 'm tev \<Rightarrow> bool" where
  "known t (TE_Pump p a) \<longleftrightarrow> map_of (at_queues t) p \<noteq> None"
| "known t TE_CloseInner \<longleftrightarrow> False"
| "known t _ \<longleftrightarrow> True"

lemma tstep_known: "tstep e t = Some t' \<Longrightarrow> known t' e' = known t e'"
  by (cases e; cases e') (auto simp: async_Send_def queue_of_update split: option.splits if_splits)

text \<open>A run can take place as soon as each peer can make its own part of it.\<close>

lemma trun_possible:
  "list_all (known t) es \<Longrightarrow>
   (\<And>p s. peer_state p t = Some s \<Longrightarrow> prun (List.map_filter (peer_view p) es) s \<noteq> None) \<Longrightarrow>
   trun es t \<noteq> None"
proof (induction es arbitrary: t)
  case (Cons e es)
  have "tstep e t \<noteq> None"
  proof (cases e)
    case (TE_Pump p a)
    then obtain q where q: "map_of (at_queues t) p = Some q" using Cons.prems(1) by auto
    then have "prun (List.map_filter (peer_view p) (e # es)) (at_cancelled t, q) \<noteq> None"
      using Cons.prems(2) [of p] by (simp add: peer_state_def)
    then show ?thesis using TE_Pump q by (cases "pump a (at_cancelled t) q") (auto simp: map_filter_simps)
  qed (use Cons.prems(1) in auto)
  then obtain t1 where t1: "tstep e t = Some t1" by blast
  have "list_all (known t1) es" using Cons.prems(1) tstep_known [OF t1] by (simp add: list_all_iff)
  moreover have "prun (List.map_filter (peer_view p) es) s1 \<noteq> None" if s1: "peer_state p t1 = Some s1" for p s1
  proof -
    have "map_of (at_queues t) p \<noteq> None" using tstep_known [OF t1, of "TE_Pump p PA_Take"] s1 by (auto simp: peer_state_def)
    then obtain s where s: "peer_state p t = Some s" by (auto simp: peer_state_def)
    from tstep_peer [OF t1 s] Cons.prems(2) [OF s] s1 show ?thesis
      by (cases "peer_view p e") (auto simp: map_filter_simps)
  qed
  ultimately show ?case using Cons.IH t1 by auto
qed simp

section \<open>Theorems\<close>

text \<open>C35: A stuck peer is isolated.  After any sequence of sends, pump turns and cancellations the queue of a peer
  is what its own sends and turns make of it, whatever the other peers do; what has been handed to the inner
  transport for it and what is waiting form, in order, a subsequence of what was sent to it, and all of it as
  long as no more than the queue's depth was sent; at most that depth is waiting; and a further send to it
  returns at once without calling the inner transport.\<close>

theorem stuck_peer_isolated:
  assumes "p \<in> set peers" "trun es (newAsyncTransport peers) = Some t"
  shows "\<exists>q. map_of (at_queues t) p = Some q \<and>
     prun (List.map_filter (peer_view p) es) (False, new_queue) = Some (at_cancelled t, q) \<and>
     subseq (pq_out q @ pq_buf q) (sent_to p es) \<and>
     (length (sent_to p es) \<le> asyncSendQueueDepth \<longrightarrow> pq_out q @ pq_buf q = sent_to p es) \<and>
     length (pq_buf q) \<le> asyncSendQueueDepth \<and>
     (\<forall>inner m. fst (async_Send inner p m t) = None \<and> at_direct (snd (async_Send inner p m t)) = at_direct t)"
proof -
  have s0: "peer_state p (newAsyncTransport peers) = Some (False, new_queue)"
    using assms(1) by (simp add: peer_state_def new_queues) (simp add: newAsyncTransport_def)
  from trun_peer [OF assms(2) s0] obtain q where q: "map_of (at_queues t) p = Some q"
    "prun (List.map_filter (peer_view p) es) (False, new_queue) = Some (at_cancelled t, q)"
    by (auto simp: peer_state_def)
  have n: "pq_buf new_queue = []" "pq_out new_queue = []" by (simp_all add: new_queue_def)
  have f: "subseq (pq_out q @ pq_buf q) (sent_to p es)" "length (pq_buf q) \<le> asyncSendQueueDepth"
    using prun_fifo [OF q(2)] by (auto simp: n sends_view)
  have "pq_out q @ pq_buf q = sent_to p es" if "length (sent_to p es) \<le> asyncSendQueueDepth"
    using prun_exact [OF q(2)] that by (simp add: n sends_view)
  with q f show ?thesis by (simp add: async_Send_def)
qed

theorem stuck_peer_isolated_witness:
  "\<exists>t q. trun [TE_Send ''n2'' (1::int), TE_Pump ''n2'' PA_Take, TE_Send ''n3'' 2, TE_Send ''n2'' 3, TE_Pump ''n3'' PA_Take]
       (newAsyncTransport [''n2'', ''n3'']) = Some t \<and>
     map_of (at_queues t) ''n3'' = Some q \<and> pq_out q @ pq_buf q = [2]"
proof -
  let ?es = "[TE_Send ''n2'' (1::int), TE_Pump ''n2'' PA_Take, TE_Send ''n3'' 2, TE_Send ''n2'' 3, TE_Pump ''n3'' PA_Take]"
  obtain t where t: "trun ?es (newAsyncTransport [''n2'', ''n3'']) = Some t"
    by (simp add: newAsyncTransport_def async_Send_def enqueue_def new_queue_def asyncSendQueueDepth_def)
  from stuck_peer_isolated [OF _ t, of "''n3''"] show ?thesis using t by (auto simp: asyncSendQueueDepth_def)
qed

text \<open>The membership that raft is given and the peers that have a queue differ by the node itself.\<close>

lemma raftPeersAndTransport_peers:
  assumes "raftPeersAndTransport url http cfg = Inr (ps, Async t)" "ClusterPeers url cfg = Some m"
  shows "ps = map fst m \<and> map_of (at_queues t) p = (if p \<in> set ps \<and> p \<noteq> NodeID cfg then Some new_queue else None)"
  using assms
  by (auto simp: raftPeersAndTransport_def NewHTTPTransport_def PeerURLsExcludingSelf_def Let_def new_queues
      delete_keys image_iff split: if_splits option.splits)

end
