(* ===== verification/Main_Run.thy ===== *)
theory Main_Run
  imports Server_Listener Async_Transport
begin

text \<open>
  The broker process (\<^verbatim>\<open>cmd/toymq/main.go\<close>): what \<^verbatim>\<open>run\<close> brings up and tears down, in which order, for every
  outcome of its steps.  The result is the error it returns, if any, and the actions it has taken, the deferred ones
  last.  The raft node, the tracer, the TLS key pair and the metrics endpoint are outcomes given as arguments.
\<close>

section \<open>Starting raft\<close>

datatype raft_up_err = RU_Storage | RU_Transport | RU_Build | RU_Start | RU_Ctx | RU_NoLeader

datatype act =
    A_Tracer | A_Broker | A_Storage | A_Node | A_NodeStart | A_NodeStop | A_AttachRaft | A_Collector
  | A_MetricsServe | A_Serve nat | A_Shutdown nat | A_MetricsShutdown
  | A_BrokerClose | A_TracerShutdown

text \<open>One turn of the leader wait: the role the node reports, then what the \<^verbatim>\<open>select\<close> sees.\<close>

datatype leader_sel = LS_Ctx | LS_Deadline | LS_Tick

fun waitForLeader :: "(bool \<times> leader_sel) list \<Rightarrow> raft_up_err option option" where
  "waitForLeader [] = None"
| "waitForLeader ((leads, sel) # ts) =
     (if leads then Some None
      else case sel of LS_Ctx \<Rightarrow> Some (Some RU_Ctx) | LS_Deadline \<Rightarrow> Some (Some RU_NoLeader) | LS_Tick \<Rightarrow> waitForLeader ts)"

text \<open>\<open>ru_leader\<close> is the outcome of the leader wait.\<close>

record raft_up_io =
  ru_storage :: bool
  ru_url :: url_parse
  ru_http :: "string \<Rightarrow> string \<Rightarrow> (string \<times> string) list \<Rightarrow> unit option"
  ru_node :: bool
  ru_start :: bool
  ru_leader :: "raft_up_err option"

definition attachRaft :: "raft_up_io \<Rightarrow> Config \<Rightarrow> raft_up_err option \<times> act list" where
  "attachRaft io cfg =
     (if \<not> ru_storage io then (Some RU_Storage, [])
      else case (raftPeersAndTransport (ru_url io) (ru_http io) cfg :: unit + string list \<times> unit transport) of
        Inl _ \<Rightarrow> (Some RU_Transport, [A_Storage])
      | Inr _ \<Rightarrow>
          if \<not> ru_node io then (Some RU_Build, [A_Storage])
          else if \<not> ru_start io then (Some RU_Start, [A_Storage, A_Node])
          else case (if Peers cfg = [] then ru_leader io else None) of
            Some e \<Rightarrow> (Some e, [A_Storage, A_Node, A_NodeStart, A_NodeStop])
          | None \<Rightarrow> (None, [A_Storage, A_Node, A_NodeStart, A_AttachRaft]))"

section \<open>The listeners\<close>

text \<open>\<open>toks\<close> are the tokens of the token file when one is configured.\<close>

definition server_opts :: "Config \<Rightarrow> string list option \<Rightarrow> Option list" where
  "server_opts cfg toks =
     WithRequireHello (RequireHello cfg) # (case toks of None \<Rightarrow> [] | Some ts \<Rightarrow> [WithTokens ts])"

definition server_list :: "Config \<Rightarrow> string list option \<Rightarrow> server list" where
  "server_list cfg toks =
     (let mtr = (MetricsAddr cfg \<noteq> []); opts = server_opts cfg toks in
      server_NewWithObservability (Addr cfg) mtr opts #
      (if TLSAddr cfg \<noteq> [] then [server_NewWithObservability (TLSAddr cfg) mtr (opts @ [WithTLS True])] else []))"

section \<open>The run\<close>

datatype main_err = ME_Tracing | ME_Broker | ME_Replication raft_up_err | ME_Auth | ME_TLS | ME_Serve | ME_ServeAfter

text \<open>\<open>mr_tokens\<close>: the token file's tokens, \<open>None\<close> when it does not load.  \<open>mr_wake\<close>: the first \<^verbatim>\<open>Serve\<close> to return and whether
  without error, or \<open>None\<close> for the signal.  \<open>mr_after k\<close>: the \<open>k\<close>-th \<^verbatim>\<open>Serve\<close> to return after the shutdown does so without error.\<close>

record main_io =
  mr_tracing :: bool
  mr_broker :: bool
  mr_raft :: raft_up_io
  mr_tokens :: "string list option"
  mr_keypair :: bool
  mr_wake :: "bool option"
  mr_after :: "nat \<Rightarrow> bool"

definition serve_phase :: "main_io \<Rightarrow> Config \<Rightarrow> server list \<Rightarrow> main_err option \<times> act list" where
  "serve_phase io cfg servers =
     (let up = (if MetricsAddr cfg \<noteq> [] then [A_MetricsServe] else []) @ map A_Serve [0..<length servers] in
      case mr_wake io of
        Some ok \<Rightarrow> (if ok then None else Some ME_Serve, up)
      | None \<Rightarrow>
          let dn = map A_Shutdown [0..<length servers] in
          if \<exists>k < length servers. \<not> mr_after io k then (Some ME_ServeAfter, up @ dn)
          else (None, up @ dn @ (if MetricsAddr cfg \<noteq> [] then [A_MetricsShutdown] else [])))"

definition listen_phase :: "main_io \<Rightarrow> Config \<Rightarrow> main_err option \<times> act list" where
  "listen_phase io cfg =
     (if AuthTokenFile cfg \<noteq> [] \<and> mr_tokens io = None then (Some ME_Auth, [])
      else if TLSAddr cfg \<noteq> [] \<and> \<not> mr_keypair io then (Some ME_TLS, [])
      else serve_phase io cfg (server_list cfg (if AuthTokenFile cfg \<noteq> [] then mr_tokens io else None)))"

definition raft_phase :: "main_io \<Rightarrow> Config \<Rightarrow> main_err option \<times> act list" where
  "raft_phase io cfg =
     (if \<not> Replicate cfg then listen_phase io cfg
      else case attachRaft (mr_raft io) cfg of
        (Some e, acts) \<Rightarrow> (Some (ME_Replication e), acts)
      | (None, acts) \<Rightarrow>
          (case listen_phase io cfg of
             (r, acts') \<Rightarrow> (r, acts @ (if MetricsAddr cfg \<noteq> [] then [A_Collector] else []) @ acts' @ [A_NodeStop])))"

definition main_run :: "main_io \<Rightarrow> Config \<Rightarrow> main_err option \<times> act list" where
  "main_run io cfg =
     (if \<not> mr_tracing io then (Some ME_Tracing, [])
      else if \<not> mr_broker io then (Some ME_Broker, [A_Tracer, A_TracerShutdown])
      else case raft_phase io cfg of (r, acts) \<Rightarrow> (r, [A_Tracer, A_Broker] @ acts @ [A_BrokerClose, A_TracerShutdown]))"

section \<open>Order of the tear-down\<close>

definition plain_act :: "act \<Rightarrow> bool" where
  "plain_act a \<longleftrightarrow> (\<exists>i. a \<in> {A_MetricsServe, A_MetricsShutdown, A_Serve i, A_Shutdown i, A_Collector})"

lemma listen_plain: "a \<in> set (snd (listen_phase io cfg)) \<Longrightarrow> plain_act a"
  by (auto simp: listen_phase_def serve_phase_def plain_act_def Let_def split: if_splits option.splits)

lemma attachRaft_acts:
  "attachRaft io cfg = (r, acts) \<Longrightarrow>
     distinct acts \<and> set acts \<subseteq> {A_Storage, A_Node, A_NodeStart, A_NodeStop, A_AttachRaft} \<and>
     (r = None \<longleftrightarrow> A_AttachRaft \<in> set acts) \<and>
     (r = None \<longrightarrow> A_NodeStart \<in> set acts \<and> A_NodeStop \<notin> set acts) \<and> (r \<noteq> None \<longrightarrow> (A_NodeStart \<in> set acts \<longleftrightarrow> A_NodeStop \<in> set acts))"
  by (auto simp: attachRaft_def split: if_splits sum.splits option.splits)

lemma raft_phase_shape:
  obtains pre mid post where "snd (raft_phase io cfg) = pre @ mid @ post"
    "set pre \<subseteq> {A_Storage, A_Node, A_NodeStart, A_NodeStop, A_AttachRaft}" "\<forall>a \<in> set mid. plain_act a"
    "(A_AttachRaft \<in> set pre \<and> A_NodeStop \<notin> set pre \<and> post = [A_NodeStop]) \<or>
     (A_AttachRaft \<notin> set pre \<and> post = [] \<and> (A_NodeStart \<in> set pre \<longrightarrow> A_NodeStop \<in> set pre))"
    "distinct pre"
proof (cases "Replicate cfg")
  case False
  then show thesis using that [of "[]" "snd (listen_phase io cfg)" "[]"] listen_plain by (auto simp: raft_phase_def)
next
  case True
  obtain r acts where a: "attachRaft (mr_raft io) cfg = (r, acts)" by fastforce
  note f = attachRaft_acts [OF a]
  show thesis
  proof (cases r)
    case None
    let ?mid = "(if MetricsAddr cfg \<noteq> [] then [A_Collector] else []) @ snd (listen_phase io cfg)"
    have "snd (raft_phase io cfg) = acts @ ?mid @ [A_NodeStop]"
      using True a None by (auto simp: raft_phase_def split: prod.splits)
    moreover have "\<forall>a \<in> set ?mid. plain_act a" using listen_plain [of _ io cfg] by (auto simp: plain_act_def)
    ultimately show thesis using that [of acts ?mid "[A_NodeStop]"] f None by blast
  next
    case (Some e)
    then have "snd (raft_phase io cfg) = acts" using True a by (simp add: raft_phase_def)
    then show thesis using that [of acts "[]" "[]"] f Some by simp
  qed
qed

text \<open>The process is torn down in order.  Whatever fails on the way up or while serving, a broker that was opened is closed
  exactly once, after every listener action and after the raft node that feeds it has been stopped; a raft node
  attached to the broker is stopped exactly once; and the tracer goes last.\<close>

theorem ordered_teardown:
  assumes "main_run io cfg = (r, acts)" "A_Broker \<in> set acts"
  shows "\<exists>body. acts = body @ [A_BrokerClose, A_TracerShutdown] \<and> A_BrokerClose \<notin> set body \<and> A_TracerShutdown \<notin> set body \<and>
     (A_AttachRaft \<in> set body \<longrightarrow> (\<exists>up. body = up @ [A_NodeStop] \<and> A_NodeStop \<notin> set up)) \<and>
     (A_NodeStart \<in> set body \<longrightarrow> A_NodeStop \<in> set body)"
proof -
  obtain pre mid post where s: "snd (raft_phase io cfg) = pre @ mid @ post"
    "set pre \<subseteq> {A_Storage, A_Node, A_NodeStart, A_NodeStop, A_AttachRaft}" "\<forall>a \<in> set mid. plain_act a"
    "(A_AttachRaft \<in> set pre \<and> A_NodeStop \<notin> set pre \<and> post = [A_NodeStop]) \<or>
     (A_AttachRaft \<notin> set pre \<and> post = [] \<and> (A_NodeStart \<in> set pre \<longrightarrow> A_NodeStop \<in> set pre))"
    by (rule raft_phase_shape)
  let ?body = "[A_Tracer, A_Broker] @ pre @ mid @ post"
  have "acts = ?body @ [A_BrokerClose, A_TracerShutdown]"
    using assms s(1) by (auto simp: main_run_def split: if_splits prod.splits)
  moreover have m: "A_BrokerClose \<notin> set mid" "A_TracerShutdown \<notin> set mid" "A_NodeStop \<notin> set mid" "A_AttachRaft \<notin> set mid"
    "A_NodeStart \<notin> set mid"
    using s(3) by (auto simp: plain_act_def)
  moreover have "A_BrokerClose \<notin> set pre" "A_TracerShutdown \<notin> set pre" using s(2) by auto
  moreover have "A_AttachRaft \<in> set ?body \<longrightarrow> (\<exists>up. ?body = up @ [A_NodeStop] \<and> A_NodeStop \<notin> set up)"
    using s(4) m by (auto intro!: exI [of _ "A_Tracer # A_Broker # pre @ mid"])
  ultimately show ?thesis using s(4) by (intro exI [of _ ?body]) auto
qed

definition up_ok :: main_io where
  "up_ok = \<lparr>mr_tracing = True, mr_broker = True,
     mr_raft = \<lparr>ru_storage = True, ru_url = (\<lambda>_. None), ru_http = (\<lambda>_ _ _. None), ru_node = True, ru_start = True, ru_leader = None\<rparr>,
     mr_tokens = None, mr_keypair = True, mr_wake = None, mr_after = (\<lambda>_. True)\<rparr>"

theorem ordered_teardown_witness:
  "main_run up_ok (default_config\<lparr>Replicate := True\<rparr>) =
     (None, [A_Tracer, A_Broker, A_Storage, A_Node, A_NodeStart, A_AttachRaft, A_Serve 0, A_Shutdown 0, A_NodeStop,
             A_BrokerClose, A_TracerShutdown]) \<and>
   (\<exists>body up. snd (main_run up_ok (default_config\<lparr>Replicate := True\<rparr>)) = body @ [A_BrokerClose, A_TracerShutdown] \<and> body = up @ [A_NodeStop])"
proof -
  have r: "main_run up_ok (default_config\<lparr>Replicate := True\<rparr>) =
     (None, [A_Tracer, A_Broker, A_Storage, A_Node, A_NodeStart, A_AttachRaft, A_Serve 0, A_Shutdown 0, A_NodeStop,
             A_BrokerClose, A_TracerShutdown])"
    by (simp add: main_run_def raft_phase_def attachRaft_def listen_phase_def serve_phase_def server_list_def up_ok_def
        default_config_def raftPeersAndTransport_def Let_def)
  from ordered_teardown [OF r] obtain body where
    b: "[A_Tracer, A_Broker, A_Storage, A_Node, A_NodeStart, A_AttachRaft, A_Serve 0, A_Shutdown 0, A_NodeStop, A_BrokerClose, A_TracerShutdown]
       = body @ [A_BrokerClose, A_TracerShutdown]" "A_AttachRaft \<in> set body \<longrightarrow> (\<exists>up. body = up @ [A_NodeStop] \<and> A_NodeStop \<notin> set up)"
    by auto
  have "A_AttachRaft \<in> set body" using b(1) by auto
  then show ?thesis using r b by auto
qed

text \<open>When a \<^verbatim>\<open>Serve\<close> returns first, no listener is drained before the broker is closed.\<close>

lemma no_drain_after_serve_error:
  assumes "mr_wake io = Some ok" "main_run io cfg = (r, acts)"
  shows "A_Shutdown i \<notin> set acts"
proof -
  have "A_Shutdown i \<notin> set (snd (listen_phase io cfg))"
    using assms(1) by (auto simp: listen_phase_def serve_phase_def Let_def)
  then have "A_Shutdown i \<notin> set (snd (raft_phase io cfg))"
    using attachRaft_acts [of "mr_raft io" cfg] by (auto simp: raft_phase_def split: prod.splits option.splits if_splits)
  then show ?thesis using assms(2) by (auto simp: main_run_def split: if_splits prod.splits)
qed

text \<open>Both listeners ask for the same credentials.\<close>

lemma listeners_same_auth:
  assumes "s \<in> set (server_list cfg toks)"
  shows "srv_auth s = \<lparr>requireHello = RequireHello cfg, tokens = (case toks of None \<Rightarrow> [] | Some ts \<Rightarrow> ts)\<rparr>"
  using assms
  by (auto simp: server_list_def server_opts_def server_NewWithObservability_def server_New_def Let_def split: if_splits option.splits)

text \<open>The wait ends well exactly when the node leads before the context or the deadline fires.\<close>

lemma waitForLeader_ok:
  "waitForLeader ts = Some None \<longleftrightarrow> (\<exists>n < length ts. fst (ts ! n) \<and> (\<forall>k < n. snd (ts ! k) = LS_Tick))"
proof (induction ts)
  case (Cons t ts)
  obtain leads sel where t: "t = (leads, sel)" by fastforce
  show ?case
  proof (cases "leads \<or> sel \<noteq> LS_Tick")
    case True
    then show ?thesis by (cases sel) (auto simp: t nth_Cons split: nat.splits)
  next
    case False
    then have "waitForLeader (t # ts) = waitForLeader ts" by (simp add: t)
    also have "\<dots> = Some None \<longleftrightarrow> (\<exists>n < length (t # ts). fst ((t # ts) ! n) \<and> (\<forall>k < n. snd ((t # ts) ! k) = LS_Tick))"
      unfolding Cons using False t by (simp add: Ex_less_Suc2 All_less_Suc2)
    finally show ?thesis .
  qed
qed simp

section \<open>Logging\<close>

datatype log_level = LevelDebug | LevelInfo | LevelWarn | LevelError

text \<open>The level and whether the output is JSON.\<close>

definition buildLogger :: "string \<Rightarrow> string \<Rightarrow> log_level \<times> bool" where
  "buildLogger level fmt =
     (if level = ''debug'' then LevelDebug else if level = ''warn'' then LevelWarn
      else if level = ''error'' then LevelError else LevelInfo,
      fmt = ''json'')"

end
