(* ===== verification/Bench_Report.thy ===== *)
theory Bench_Report
  imports Session
begin

text \<open>
  The load generator (\<^verbatim>\<open>cmd/toymq-bench\<close>): splitting the messages over the producers, the producer loop, the
  aggregated report, and the run around them.  What a dial, a publish and the clock give are arguments.
  Durations are in nanoseconds; the two rates are exact quotients, which the code rounds to 64-bit floats.
\<close>

section \<open>Data\<close>

record benchConfig =
  bc_Addr :: string
  bc_Peers :: string
  bc_Topic :: string
  bc_Producers :: int
  bc_Msgs :: int
  bc_Size :: int
  bc_Partitions :: int

record result =
  latencies :: "int list"
  pubErrs :: nat

record Stats =
  Total :: nat
  Errors :: nat
  Elapsed :: int
  Throughput :: rat
  MiBPerSec :: rat
  s_Min :: int
  s_P50 :: int
  s_P95 :: int
  s_P99 :: int
  s_Max :: int

datatype exit_code = exitOK | exitErr | exitUsage

section \<open>Operations\<close>

definition check_flags :: "benchConfig \<Rightarrow> exit_code" where
  "check_flags cfg = (if bc_Producers cfg \<le> 0 \<or> bc_Msgs cfg \<le> 0 \<or> bc_Size cfg < 0 then exitUsage else exitOK)"

definition splitPeers :: "string \<Rightarrow> string list" where
  "splitPeers raw = filter (\<lambda>m. m \<noteq> []) (map TrimSpace (Split (CHR '','') raw))"

text \<open>The division panics when there are no producers.\<close>

definition distribute :: "nat \<Rightarrow> nat \<Rightarrow> nat list option" where
  "distribute tot producers =
     (if producers = 0 then None
      else Some (map (\<lambda>i. tot div producers + (if i < tot mod producers then 1 else 0)) [0..<producers]))"

definition makePayload :: "nat \<Rightarrow> string" where
  "makePayload n = replicate n (CHR ''x'')"

text \<open>\<open>stop i\<close>: the context is done before publish \<open>i\<close>; \<open>pub i\<close>: its latency, \<open>None\<close> on an error.\<close>

fun producer_loop :: "(nat \<Rightarrow> bool) \<Rightarrow> (nat \<Rightarrow> int option) \<Rightarrow> nat \<Rightarrow> nat \<Rightarrow> result \<Rightarrow> result" where
  "producer_loop stop pub i 0 out = out"
| "producer_loop stop pub i (Suc k) out =
     (if stop i then out
      else case pub i of
        None \<Rightarrow> producer_loop stop pub (Suc i) k (out\<lparr>pubErrs := pubErrs out + 1\<rparr>)
      | Some d \<Rightarrow> producer_loop stop pub (Suc i) k (out\<lparr>latencies := latencies out @ [d]\<rparr>))"

definition runProducer :: "(nat \<Rightarrow> bool) \<Rightarrow> (nat \<Rightarrow> int option) \<Rightarrow> nat \<Rightarrow> result" where
  "runProducer stop pub cnt = producer_loop stop pub 0 cnt \<lparr>latencies = [], pubErrs = 0\<rparr>"

definition idx :: "int \<Rightarrow> int \<Rightarrow> int" where
  "idx n p = (if n \<le> 0 then 0 else let i = n * p div 100 in if i \<ge> n then n - 1 else i)"

definition aggregate :: "result list \<Rightarrow> nat \<Rightarrow> int \<Rightarrow> Stats" where
  "aggregate results payloadSize elapsed =
     (let xs = sort (concat (map latencies results)); n = length xs;
          at = (\<lambda>i. if n = 0 then 0 else xs ! i);
          secs = Fract elapsed 1000000000
      in \<lparr>Total = n, Errors = sum_list (map pubErrs results), Elapsed = elapsed,
          Throughput = (if elapsed > 0 then of_nat n / secs else 0),
          MiBPerSec = (if elapsed > 0 then of_nat (n * payloadSize) / 1024 / 1024 / secs else 0),
          s_Min = at 0, s_P50 = at (nat (idx (int n) 50)), s_P95 = at (nat (idx (int n) 95)),
          s_P99 = at (nat (idx (int n) 99)), s_Max = at (n - 1)\<rparr>)"

text \<open>
  The run: \<open>dial i\<close> succeeds or not, \<open>create\<close> likewise.  The result is the exit code, the report if one is
  written, and the connections that are closed, in order.
\<close>

record bench_io =
  bn_dial :: "nat \<Rightarrow> bool"
  bn_create :: bool
  bn_stop :: "nat \<Rightarrow> nat \<Rightarrow> bool"
  bn_pub :: "nat \<Rightarrow> nat \<Rightarrow> int option"
  bn_elapsed :: int

definition first_refused :: "(nat \<Rightarrow> bool) \<Rightarrow> nat \<Rightarrow> nat option" where
  "first_refused dial n = List.find (\<lambda>i. \<not> dial i) [0..<n]"

definition bench_run :: "bench_io \<Rightarrow> benchConfig \<Rightarrow> exit_code \<times> Stats option \<times> nat list" where
  "bench_run io cfg =
     (if check_flags cfg \<noteq> exitOK then (check_flags cfg, None, [])
      else let n = nat (bc_Producers cfg) in
        case first_refused (bn_dial io) n of
          Some i \<Rightarrow> (exitErr, None, [0..<i])
        | None \<Rightarrow>
            if bc_Partitions cfg > 1 \<and> \<not> bn_create io then (exitErr, None, [0..<n])
            else case distribute (nat (bc_Msgs cfg)) n of
                None \<Rightarrow> (exitErr, None, [0..<n])
              | Some per \<Rightarrow>
                  let stats = aggregate (map (\<lambda>i. runProducer (bn_stop io i) (bn_pub io i) (per ! i)) [0..<n])
                                (nat (bc_Size cfg)) (bn_elapsed io)
                  in (if Errors stats > 0 then exitErr else exitOK, Some stats, [0..<n]))"

section \<open>Lemmas\<close>

lemma count_below: "r \<le> n \<Longrightarrow> sum_list (map (\<lambda>i. if i < r then 1 else 0) [0..<n]) = (r::nat)"
proof (induction n)
  case (Suc n)
  show ?case
  proof (cases "r = Suc n")
    case True
    have "sum_list (map (\<lambda>i. if i < r then 1 else 0) [0..<n]) = (n::nat)"
      using True by (subst map_cong [OF refl, of _ _ "\<lambda>_. 1"]) (simp_all add: sum_list_triv)
    then show ?thesis using True by simp
  qed (use Suc in simp)
qed simp

text \<open>Every message is given to one producer, and no producer has two more than another.\<close>

lemma distribute_spec:
  assumes "distribute tot producers = Some per"
  shows "length per = producers \<and> sum_list per = tot \<and> (\<forall>a \<in> set per. \<forall>b \<in> set per. a \<le> b + 1)"
proof -
  have p: "producers \<noteq> 0" "per = map (\<lambda>i. tot div producers + (if i < tot mod producers then 1 else 0)) [0..<producers]"
    using assms by (auto simp: distribute_def split: if_splits)
  have "sum_list per = producers * (tot div producers) + tot mod producers"
    using p count_below [of "tot mod producers" producers]
    by (simp add: sum_list_addf sum_list_triv)
  then show ?thesis using p by auto
qed

lemma producer_loop_count:
  "length (latencies (producer_loop stop pub i k out)) + pubErrs (producer_loop stop pub i k out)
     \<le> length (latencies out) + pubErrs out + k"
  "(\<forall>j. \<not> stop j) \<Longrightarrow>
   length (latencies (producer_loop stop pub i k out)) + pubErrs (producer_loop stop pub i k out)
     = length (latencies out) + pubErrs out + k"
proof -
  have "length (latencies (producer_loop stop pub i k out)) + pubErrs (producer_loop stop pub i k out)
     \<le> length (latencies out) + pubErrs out + k \<and>
   ((\<forall>j. \<not> stop j) \<longrightarrow>
     length (latencies (producer_loop stop pub i k out)) + pubErrs (producer_loop stop pub i k out)
     = length (latencies out) + pubErrs out + k)"
  proof (induction k arbitrary: i out)
    case (Suc k)
    show ?case
    proof (cases "pub i")
      case None
      then show ?thesis using Suc [of "Suc i" "out\<lparr>pubErrs := pubErrs out + 1\<rparr>"] by auto
    next
      case (Some d)
      then show ?thesis using Suc [of "Suc i" "out\<lparr>latencies := latencies out @ [d]\<rparr>"] by auto
    qed
  qed simp
  then show "length (latencies (producer_loop stop pub i k out)) + pubErrs (producer_loop stop pub i k out)
     \<le> length (latencies out) + pubErrs out + k"
    "(\<forall>j. \<not> stop j) \<Longrightarrow>
   length (latencies (producer_loop stop pub i k out)) + pubErrs (producer_loop stop pub i k out)
     = length (latencies out) + pubErrs out + k" by blast+
qed

lemma idx_bounds:
  assumes "0 < n" "0 \<le> p" "p < 100"
  shows "0 \<le> idx n p" "idx n p < n" "idx n p = n * p div 100"
proof -
  have "n * p < n * 100" using assms by (simp add: mult_strict_left_mono)
  then have "n * p div 100 < n" by linarith
  then show "0 \<le> idx n p" "idx n p < n" "idx n p = n * p div 100" using assms by (auto simp: idx_def Let_def pos_imp_zdiv_nonneg_iff)
qed

text \<open>At least the stated share of the samples is no larger than the reported percentile.\<close>

lemma percentile_share:
  assumes "sorted xs" "xs \<noteq> []" "0 \<le> p" "p < 100"
  shows "int (length xs) * p \<le> 100 * int (length (filter (\<lambda>x. x \<le> xs ! nat (idx (int (length xs)) p)) xs))"
proof -
  let ?n = "length xs" and ?k = "nat (idx (int (length xs)) p)"
  have k: "?k < ?n" "int ?k = int ?n * p div 100" using idx_bounds [of "int ?n" p] assms by auto
  have "filter (\<lambda>x. x \<le> xs ! ?k) (take (Suc ?k) xs) = take (Suc ?k) xs"
    using assms(1) k(1) by (intro filter_True) (auto simp: in_set_conv_nth intro!: sorted_nth_mono)
  then have "Suc ?k \<le> length (filter (\<lambda>x. x \<le> xs ! ?k) xs)"
    using k(1) by (subst (3) append_take_drop_id [of "Suc ?k" xs, symmetric]) (simp only: filter_append length_append, simp)
  then have "int (Suc ?k) \<le> int (length (filter (\<lambda>x. x \<le> xs ! ?k) xs))" by (simp only: of_nat_le_iff)
  moreover have "x < 100 * (1 + x div 100)" for x :: int by presburger
  then have "int ?n * p < 100 * int (Suc ?k)" unfolding of_nat_Suc k(2) by blast
  moreover have "a \<le> 100 * c" if "b \<le> c" "a < 100 * b" for a b c :: int using that by linarith
  ultimately show ?thesis by blast
qed

lemma idx_mono: "0 < n \<Longrightarrow> 0 \<le> p \<Longrightarrow> p \<le> q \<Longrightarrow> q < 100 \<Longrightarrow> idx n p \<le> idx n q"
  by (simp add: idx_bounds zdiv_mono1)

text \<open>The report's percentiles are samples, in order.\<close>

lemma aggregate_ordered:
  assumes "concat (map latencies rs) \<noteq> []"
  shows "s_Min (aggregate rs sz el) \<le> s_P50 (aggregate rs sz el) \<and> s_P50 (aggregate rs sz el) \<le> s_P95 (aggregate rs sz el) \<and>
     s_P95 (aggregate rs sz el) \<le> s_P99 (aggregate rs sz el) \<and> s_P99 (aggregate rs sz el) \<le> s_Max (aggregate rs sz el)"
proof -
  let ?xs = "sort (concat (map latencies rs))"
  let ?n = "length ?xs"
  have n: "0 < ?n" using assms by simp
  have i: "nat (idx (int ?n) 50) \<le> nat (idx (int ?n) 95)" "nat (idx (int ?n) 95) \<le> nat (idx (int ?n) 99)"
    by (intro nat_mono idx_mono; use n in simp)+
  have "idx (int ?n) 99 < int ?n" by (rule idx_bounds(2)) (use n in simp_all)
  then have i': "nat (idx (int ?n) 99) < ?n" "nat (idx (int ?n) 95) < ?n" using i(2) n by linarith+
  have "?xs ! a \<le> ?xs ! b" if "a \<le> b" "b < ?n" for a b using that sorted_nth_mono [OF sorted_sort] by simp
  then show ?thesis using n i i' by (simp add: aggregate_def Let_def)
qed

lemma nth_sum: "length ys = n \<Longrightarrow> sum_list (map (\<lambda>i. ys ! i) [0..<n]) = sum_list (ys :: nat list)"
  by (metis map_nth)

text \<open>Every message is accounted for.\<close>

lemma aggregate_total:
  "Total (aggregate rs sz el) + Errors (aggregate rs sz el) = sum_list (map (\<lambda>r. length (latencies r) + pubErrs r) rs)"
  by (simp add: aggregate_def Let_def length_concat sum_list_addf comp_def)

lemma producers_total:
  assumes "length per = n"
  shows "sum_list (map (\<lambda>r. length (latencies r) + pubErrs r) (map (\<lambda>i. runProducer (stop i) (pub i) (per ! i)) [0..<n])) \<le> sum_list per"
    and "(\<forall>i j. \<not> stop i j) \<Longrightarrow>
      sum_list (map (\<lambda>r. length (latencies r) + pubErrs r) (map (\<lambda>i. runProducer (stop i) (pub i) (per ! i)) [0..<n])) = sum_list per"
proof -
  let ?r = "\<lambda>i. runProducer (stop i) (pub i) (per ! i)"
  have "sum_list (map (\<lambda>i. length (latencies (?r i)) + pubErrs (?r i)) [0..<n]) \<le> sum_list (map (\<lambda>i. per ! i) [0..<n])"
    using producer_loop_count(1) [where out = "\<lparr>latencies = [], pubErrs = 0\<rparr>"]
    by (intro sum_list_mono) (simp add: runProducer_def)
  then show "sum_list (map (\<lambda>r. length (latencies r) + pubErrs r) (map ?r [0..<n])) \<le> sum_list per"
    using nth_sum [OF assms] by (simp add: comp_def)
  assume s: "\<forall>i j. \<not> stop i j"
  have "length (latencies (?r i)) + pubErrs (?r i) = per ! i" for i
    using producer_loop_count(2) [of "stop i" "pub i" 0 "per ! i" "\<lparr>latencies = [], pubErrs = 0\<rparr>"] s by (simp add: runProducer_def)
  then show "sum_list (map (\<lambda>r. length (latencies r) + pubErrs r) (map ?r [0..<n])) = sum_list per"
    using nth_sum [OF assms] by (simp add: comp_def)
qed

section \<open>Theorems\<close>

text \<open>The benchmark accounts for every message.  A report, when one is written, counts no more messages and
  errors than were asked for, and exactly as many unless the run was interrupted; its minimum, percentiles
  and maximum are in order; the exit code is success exactly when no publish failed; and every
  connection that was opened is closed once, in every outcome.\<close>

theorem bench_accounts:
  assumes "bench_run io cfg = (code, rep, closed)"
  shows "(\<forall>st. rep = Some st \<longrightarrow>
        Total st + Errors st \<le> nat (bc_Msgs cfg) \<and>
        ((\<forall>i j. \<not> bn_stop io i j) \<longrightarrow> Total st + Errors st = nat (bc_Msgs cfg)) \<and>
        (Total st > 0 \<longrightarrow> s_Min st \<le> s_P50 st \<and> s_P50 st \<le> s_P95 st \<and> s_P95 st \<le> s_P99 st \<and> s_P99 st \<le> s_Max st) \<and>
        (code = exitOK \<longleftrightarrow> Errors st = 0)) \<and>
     distinct closed \<and>
     set closed = (if check_flags cfg \<noteq> exitOK then {} else {i. i < nat (bc_Producers cfg) \<and> (\<forall>j \<le> i. bn_dial io j)})"
proof (cases "check_flags cfg = exitOK")
  case False
  then show ?thesis using assms by (auto simp: bench_run_def)
next
  case True
  let ?n = "nat (bc_Producers cfg)"
  have n: "0 < ?n" using True by (auto simp: check_flags_def split: if_splits)
  show ?thesis
  proof (cases "first_refused (bn_dial io) ?n")
    case (Some i)
    then have i: "i < ?n" "\<not> bn_dial io i" "\<forall>j < i. bn_dial io j"
      by (auto simp: first_refused_def find_Some_iff)
    have "j < ?n \<and> (\<forall>k \<le> j. bn_dial io k) \<longleftrightarrow> j \<in> {0..<i}" for j
    proof (cases "j < i")
      case True
      then show ?thesis using i by auto
    qed (use i(2) in \<open>auto intro: exI [of _ i]\<close>)
    then have "{j. j < ?n \<and> (\<forall>k \<le> j. bn_dial io k)} = {0..<i}" by (simp only: Collect_mem_eq)
    moreover have "rep = None" "closed = [0..<i]" using assms True Some by (simp_all add: bench_run_def Let_def)
    ultimately show ?thesis using True by simp
  next
    case None
    then have a: "\<forall>j < ?n. bn_dial io j" by (auto simp: first_refused_def find_None_iff)
    then have c: "{j. j < ?n \<and> (\<forall>k \<le> j. bn_dial io k)} = {0..<?n}" by auto
    obtain per where per: "distribute (nat (bc_Msgs cfg)) ?n = Some per" using n by (auto simp: distribute_def)
    note d = distribute_spec [OF per]
    let ?rs = "map (\<lambda>i. runProducer (bn_stop io i) (bn_pub io i) (per ! i)) [0..<?n]"
    let ?st = "aggregate ?rs (nat (bc_Size cfg)) (bn_elapsed io)"
    have t: "Total ?st + Errors ?st \<le> nat (bc_Msgs cfg)"
        "(\<forall>i j. \<not> bn_stop io i j) \<Longrightarrow> Total ?st + Errors ?st = nat (bc_Msgs cfg)"
      using producers_total [of per ?n "bn_stop io" "bn_pub io"] d by (simp_all add: aggregate_total)
    have o: "Total ?st > 0 \<Longrightarrow> concat (map latencies ?rs) \<noteq> []" by (auto simp: aggregate_def Let_def)
    show ?thesis
    proof (cases "bc_Partitions cfg > 1 \<and> \<not> bn_create io")
      case False
      then have "bench_run io cfg = (if Errors ?st > 0 then exitErr else exitOK, Some ?st, [0..<?n])"
        using True None per by (simp add: bench_run_def Let_def)
      then have r: "rep = Some ?st" "code = (if Errors ?st > 0 then exitErr else exitOK)" "closed = [0..<?n]"
        using assms by (simp_all only: prod.inject)
      then show ?thesis using t c True aggregate_ordered [OF o] by auto
    next
      case pc: True
      then have "rep = None" "closed = [0..<?n]" using assms True None by (simp_all add: bench_run_def Let_def)
      then show ?thesis using c True by auto
    qed
  qed
qed

definition bench_cfg :: benchConfig where
  "bench_cfg = \<lparr>bc_Addr = '':6789'', bc_Peers = [], bc_Topic = ''bench'', bc_Producers = 2, bc_Msgs = 3, bc_Size = 4, bc_Partitions = 1\<rparr>"

definition bench_ok :: bench_io where
  "bench_ok = \<lparr>bn_dial = (\<lambda>_. True), bn_create = True, bn_stop = (\<lambda>_ _. False), bn_pub = (\<lambda>i j. Some (int (10 * i + j))), bn_elapsed = 100\<rparr>"

lemma no_errors: "pubErrs (producer_loop stop (\<lambda>j. Some (f j)) i k out) = pubErrs out"
  by (induction k arbitrary: i out) simp_all

theorem bench_accounts_witness:
  "\<exists>st. bench_run bench_ok bench_cfg = (exitOK, Some st, [0, 1]) \<and> Total st + Errors st = 3 \<and> s_Min st \<le> s_P50 st"
proof -
  obtain code rep closed where r: "bench_run bench_ok bench_cfg = (code, rep, closed)" by (metis prod.exhaust)
  let ?rs = "map (\<lambda>i. runProducer (\<lambda>_. False) (\<lambda>j. Some (int (10 * i + j))) ([2, 1] ! i)) [0, 1]"
  have d: "distribute 3 2 = Some [2, 1]" by (simp add: distribute_def upt_rec)
  have rep: "rep = Some (aggregate ?rs 4 100)" "closed = [0, 1]"
    using r d by (auto simp: bench_run_def bench_cfg_def bench_ok_def check_flags_def first_refused_def upt_rec Let_def)
  have e: "Errors (aggregate ?rs 4 100) = 0"
    by (simp add: aggregate_def Let_def runProducer_def no_errors)
  have "Total (aggregate ?rs 4 100) = 3 \<and> code = exitOK \<and> s_Min (aggregate ?rs 4 100) \<le> s_P50 (aggregate ?rs 4 100)"
    using bench_accounts [OF r] rep(1) e by (simp add: bench_ok_def bench_cfg_def)
  then show ?thesis using r rep e by simp
qed

end
