(* ===== verification/Tui_Model.thy ===== *)
theory Tui_Model
  imports Client_Conn "HOL-Library.Multiset"
begin

text \<open>
  The terminal client (\<^verbatim>\<open>cmd/toymq-tui\<close>): the model, its \<^verbatim>\<open>Update\<close> with one definition per key handler, and
  the commands it starts.  The text inputs and the program loop are third-party code: the inputs are a record of
  operations the definitions take, the loop is a relation that hands \<^verbatim>\<open>Update\<close> a key press or the result of one of
  the commands that are under way.  A log line is kept as the data it prints.
\<close>

section \<open>Data\<close>

definition maxScrollback :: nat where "maxScrollback = 1000"

datatype tstate = stateMain | statePubModal | stateSubModal | stateClusterView | stateDisconnected

type_synonym repl_info = "string \<times> (string \<times> string) list"

text \<open>Messages; a channel is named by a number, and a message of the framework or of an input is \<open>M_Other\<close>.\<close>

datatype tmsg =
    M_Size int int
  | M_Key string
  | pubResultMsg string u64 bool "client_err option"
  | subStartedMsg string string nat "client_err option"
  | msgArrivedMsg Delivery
  | ackResultMsg string u64 "client_err option"
  | clusterInfoMsg repl_info "client_err option" int
  | clusterPollTickMsg int
  | transportLostMsg "client_err option"
  | M_Other nat

text \<open>Commands; \<open>C_Input\<close> is one returned by a text input, \<open>readDeliveryCmd None\<close> reads the nil channel.\<close>

datatype 'c tcmd =
    C_Quit
  | C_Input 'c
  | pubCmd string string string
  | subCmd string string
  | readDeliveryCmd "nat option"
  | clusterInfoCmd int
  | clusterPollTick int
  | ackCmd Delivery
  | nackCmd Delivery

datatype log_line =
    L_Connected string
  | L_Pub string "(u64 \<times> bool, client_err) sum" | L_PubSent string
  | L_Sub string "(string, client_err) sum" | L_SubSent string string
  | L_Msg Delivery
  | L_Acked string u64 "client_err option"
  | L_AutoAck bool
  | L_Nack u64
  | L_Disconnected "client_err option"

datatype status_line = St_None | St_Subscribed | St_NoMsg | St_PubRequired | St_SubRequired

record ('ti, 'c) input_ops =
  ti_New :: "string \<Rightarrow> int \<Rightarrow> 'ti"
  ti_SetValue :: "string \<Rightarrow> 'ti \<Rightarrow> 'ti"
  ti_Value :: "'ti \<Rightarrow> string"
  ti_Focus :: "'ti \<Rightarrow> 'ti \<times> 'c option"
  ti_Blur :: "'ti \<Rightarrow> 'ti"
  ti_Update :: "tmsg \<Rightarrow> 'ti \<Rightarrow> 'ti \<times> 'c option"
  ti_Blink :: 'c

record 'ti model =
  m_addr :: string
  m_state :: tstate
  scrollback :: "(int \<times> log_line) list"
  pubTopic :: 'ti
  pubPayload :: 'ti
  pubDedupe :: 'ti
  pubFocus :: nat
  subTopic :: 'ti
  subConsumer :: 'ti
  subFocus :: nat
  m_subActive :: bool
  m_consumerID :: string
  subTopicName :: string
  autoAck :: bool
  m_deliveryCh :: "nat option"
  lastDelivery :: "Delivery option"
  m_status :: status_line
  transportErr :: "client_err option"
  clusterInfo :: repl_info
  clusterErr :: "client_err option"
  pollGen :: int
  m_width :: int
  m_height :: int

section \<open>Operations\<close>

text \<open>\<open>now\<close> is the time stamp.\<close>

definition m_log :: "int \<Rightarrow> log_line \<Rightarrow> 'ti model \<Rightarrow> 'ti model" where
  "m_log now l m =
     (let sb = scrollback m @ [(now, l)]
      in m\<lparr>scrollback := if length sb > maxScrollback then drop (length sb - maxScrollback) sb else sb\<rparr>)"

definition newModel :: "('ti, 'c) input_ops \<Rightarrow> int \<Rightarrow> string \<Rightarrow> 'ti model" where
  "newModel ops now addr =
     m_log now (L_Connected addr)
       \<lparr>m_addr = addr, m_state = stateMain, scrollback = [],
        pubTopic = ti_New ops ''orders'' 32, pubPayload = ti_New ops ''hello'' 48, pubDedupe = ti_New ops ''(optional)'' 32,
        pubFocus = 0, subTopic = ti_New ops ''orders'' 32, subConsumer = ti_New ops ''c1'' 32, subFocus = 0,
        m_subActive = False, m_consumerID = [], subTopicName = [], autoAck = True, m_deliveryCh = None,
        lastDelivery = None, m_status = St_None, transportErr = None, clusterInfo = ([], []), clusterErr = None,
        pollGen = 0, m_width = 0, m_height = 0\<rparr>"

definition resetPubModal :: "('ti, 'c) input_ops \<Rightarrow> 'ti model \<Rightarrow> 'ti model" where
  "resetPubModal ops m =
     m\<lparr>pubTopic := fst (ti_Focus ops (ti_SetValue ops [] (pubTopic m))),
       pubPayload := ti_Blur ops (ti_SetValue ops [] (pubPayload m)),
       pubDedupe := ti_Blur ops (ti_SetValue ops [] (pubDedupe m)),
       pubFocus := 0\<rparr>"

definition resetSubModal :: "('ti, 'c) input_ops \<Rightarrow> 'ti model \<Rightarrow> 'ti model" where
  "resetSubModal ops m =
     m\<lparr>subTopic := fst (ti_Focus ops (ti_SetValue ops [] (subTopic m))),
       subConsumer := ti_Blur ops (ti_SetValue ops [] (subConsumer m)),
       subFocus := 0\<rparr>"

definition input_cmd :: "'c option \<Rightarrow> 'c tcmd list" where
  "input_cmd c = (case c of None \<Rightarrow> [] | Some x \<Rightarrow> [C_Input x])"

definition focusPubField :: "('ti, 'c) input_ops \<Rightarrow> 'ti model \<Rightarrow> 'ti model \<times> 'c tcmd list" where
  "focusPubField ops m =
     (let m1 = m\<lparr>pubTopic := ti_Blur ops (pubTopic m), pubPayload := ti_Blur ops (pubPayload m),
                 pubDedupe := ti_Blur ops (pubDedupe m)\<rparr>
      in if pubFocus m = 0 then (case ti_Focus ops (pubTopic m1) of (t, c) \<Rightarrow> (m1\<lparr>pubTopic := t\<rparr>, input_cmd c))
         else if pubFocus m = 1 then (case ti_Focus ops (pubPayload m1) of (t, c) \<Rightarrow> (m1\<lparr>pubPayload := t\<rparr>, input_cmd c))
         else if pubFocus m = 2 then (case ti_Focus ops (pubDedupe m1) of (t, c) \<Rightarrow> (m1\<lparr>pubDedupe := t\<rparr>, input_cmd c))
         else (m1, []))"

definition focusSubField :: "('ti, 'c) input_ops \<Rightarrow> 'ti model \<Rightarrow> 'ti model \<times> 'c tcmd list" where
  "focusSubField ops m =
     (let m1 = m\<lparr>subTopic := ti_Blur ops (subTopic m), subConsumer := ti_Blur ops (subConsumer m)\<rparr>
      in if subFocus m = 0 then (case ti_Focus ops (subTopic m1) of (t, c) \<Rightarrow> (m1\<lparr>subTopic := t\<rparr>, input_cmd c))
         else if subFocus m = 1 then (case ti_Focus ops (subConsumer m1) of (t, c) \<Rightarrow> (m1\<lparr>subConsumer := t\<rparr>, input_cmd c))
         else (m1, []))"

definition forwardToInput :: "('ti, 'c) input_ops \<Rightarrow> tmsg \<Rightarrow> 'ti model \<Rightarrow> 'ti model \<times> 'c tcmd list" where
  "forwardToInput ops msg m =
     (case m_state m of
        statePubModal \<Rightarrow>
          if pubFocus m = 0 then (case ti_Update ops msg (pubTopic m) of (t, c) \<Rightarrow> (m\<lparr>pubTopic := t\<rparr>, input_cmd c))
          else if pubFocus m = 1 then (case ti_Update ops msg (pubPayload m) of (t, c) \<Rightarrow> (m\<lparr>pubPayload := t\<rparr>, input_cmd c))
          else if pubFocus m = 2 then (case ti_Update ops msg (pubDedupe m) of (t, c) \<Rightarrow> (m\<lparr>pubDedupe := t\<rparr>, input_cmd c))
          else (m, [])
      | stateSubModal \<Rightarrow>
          if subFocus m = 0 then (case ti_Update ops msg (subTopic m) of (t, c) \<Rightarrow> (m\<lparr>subTopic := t\<rparr>, input_cmd c))
          else if subFocus m = 1 then (case ti_Update ops msg (subConsumer m) of (t, c) \<Rightarrow> (m\<lparr>subConsumer := t\<rparr>, input_cmd c))
          else (m, [])
      | _ \<Rightarrow> (m, []))"

definition handlePubKey :: "('ti, 'c) input_ops \<Rightarrow> int \<Rightarrow> string \<Rightarrow> 'ti model \<Rightarrow> 'ti model \<times> 'c tcmd list" where
  "handlePubKey ops now k m =
     (if k = ''esc'' then (m\<lparr>m_state := stateMain\<rparr>, [])
      else if k = ''tab'' \<or> k = ''down'' then focusPubField ops (m\<lparr>pubFocus := (pubFocus m + 1) mod 3\<rparr>)
      else if k = ''shift+tab'' \<or> k = ''up'' then focusPubField ops (m\<lparr>pubFocus := (pubFocus m + 2) mod 3\<rparr>)
      else if k = ''enter''
      then let topic = ti_Value ops (pubTopic m); payload = ti_Value ops (pubPayload m); dedupe = ti_Value ops (pubDedupe m)
           in if topic = [] \<or> payload = [] then (m\<lparr>m_status := St_PubRequired\<rparr>, [])
              else (m_log now (L_PubSent topic) (m\<lparr>m_state := stateMain, m_status := St_None\<rparr>), [pubCmd topic dedupe payload])
      else forwardToInput ops (M_Key k) m)"

definition handleSubKey :: "('ti, 'c) input_ops \<Rightarrow> int \<Rightarrow> string \<Rightarrow> 'ti model \<Rightarrow> 'ti model \<times> 'c tcmd list" where
  "handleSubKey ops now k m =
     (if k = ''esc'' then (m\<lparr>m_state := stateMain\<rparr>, [])
      else if k = ''tab'' \<or> k = ''down'' then focusSubField ops (m\<lparr>subFocus := (subFocus m + 1) mod 2\<rparr>)
      else if k = ''shift+tab'' \<or> k = ''up'' then focusSubField ops (m\<lparr>subFocus := (subFocus m + 1) mod 2\<rparr>)
      else if k = ''enter''
      then let topic = ti_Value ops (subTopic m); cid = ti_Value ops (subConsumer m)
           in if topic = [] \<or> cid = [] then (m\<lparr>m_status := St_SubRequired\<rparr>, [])
              else (m_log now (L_SubSent topic cid) (m\<lparr>m_state := stateMain, m_status := St_None\<rparr>), [subCmd topic cid])
      else forwardToInput ops (M_Key k) m)"

definition handleClusterKey :: "string \<Rightarrow> 'ti model \<Rightarrow> 'ti model \<times> 'c tcmd list" where
  "handleClusterKey k m =
     (if k = ''esc'' \<or> k = ''c'' then (m\<lparr>m_state := stateMain, pollGen := pollGen m + 1\<rparr>, [])
      else if k = ''q'' \<or> k = ''ctrl+c'' then (m, [C_Quit])
      else (m, []))"

definition handleMainKey :: "('ti, 'c) input_ops \<Rightarrow> int \<Rightarrow> string \<Rightarrow> 'ti model \<Rightarrow> 'ti model \<times> 'c tcmd list" where
  "handleMainKey ops now k m =
     (if k = ''q'' \<or> k = ''ctrl+c'' then (m, [C_Quit])
      else if k = ''p'' then (resetPubModal ops (m\<lparr>m_state := statePubModal\<rparr>), [C_Input (ti_Blink ops)])
      else if k = ''s''
      then if m_subActive m then (m\<lparr>m_status := St_Subscribed\<rparr>, [])
           else (resetSubModal ops (m\<lparr>m_state := stateSubModal\<rparr>), [C_Input (ti_Blink ops)])
      else if k = ''a'' then (m_log now (L_AutoAck (\<not> autoAck m)) (m\<lparr>autoAck := \<not> autoAck m\<rparr>), [])
      else if k = ''n''
      then (case lastDelivery m of
              None \<Rightarrow> (m\<lparr>m_status := St_NoMsg\<rparr>, [])
            | Some d \<Rightarrow> (m_log now (L_Nack (d_MsgID d)) m, [nackCmd d]))
      else if k = ''c''
      then let m1 = m\<lparr>m_state := stateClusterView, m_status := St_None, pollGen := pollGen m + 1\<rparr>
           in (m1, [clusterInfoCmd (pollGen m1), clusterPollTick (pollGen m1)])
      else (m, []))"

definition handleKey :: "('ti, 'c) input_ops \<Rightarrow> int \<Rightarrow> string \<Rightarrow> 'ti model \<Rightarrow> 'ti model \<times> 'c tcmd list" where
  "handleKey ops now k m =
     (case m_state m of
        statePubModal \<Rightarrow> handlePubKey ops now k m
      | stateSubModal \<Rightarrow> handleSubKey ops now k m
      | stateClusterView \<Rightarrow> handleClusterKey k m
      | stateDisconnected \<Rightarrow> if k = ''q'' \<or> k = ''ctrl+c'' then (m, [C_Quit]) else (m, [])
      | stateMain \<Rightarrow> handleMainKey ops now k m)"

fun Update :: "('ti, 'c) input_ops \<Rightarrow> int \<Rightarrow> tmsg \<Rightarrow> 'ti model \<Rightarrow> 'ti model \<times> 'c tcmd list" where
  "Update ops now (M_Size w h) m = (m\<lparr>m_width := w, m_height := h\<rparr>, [])"
| "Update ops now (M_Key k) m = handleKey ops now k m"
| "Update ops now (pubResultMsg topic i dup err) m =
     (m_log now (L_Pub topic (case err of Some e \<Rightarrow> Inr e | None \<Rightarrow> Inl (i, dup))) m, [])"
| "Update ops now (subStartedMsg topic cid ch err) m =
     (case err of
        Some e \<Rightarrow> (m_log now (L_Sub topic (Inr e)) m, [])
      | None \<Rightarrow>
          (m_log now (L_Sub topic (Inl cid))
             (m\<lparr>m_subActive := True, m_consumerID := cid, subTopicName := topic, m_deliveryCh := Some ch\<rparr>),
           [readDeliveryCmd (Some ch)]))"
| "Update ops now (msgArrivedMsg d) m =
     (m_log now (L_Msg d) (m\<lparr>lastDelivery := Some d\<rparr>),
      (if autoAck m then [ackCmd d] else []) @ [readDeliveryCmd (m_deliveryCh m)])"
| "Update ops now (ackResultMsg verb i err) m = (m_log now (L_Acked verb i err) m, [])"
| "Update ops now (clusterInfoMsg info err gen) m =
     (if gen \<noteq> pollGen m then (m, []) else (m\<lparr>clusterInfo := info, clusterErr := err\<rparr>, []))"
| "Update ops now (clusterPollTickMsg gen) m =
     (if gen \<noteq> pollGen m \<or> m_state m \<noteq> stateClusterView then (m, [])
      else (m, [clusterInfoCmd (pollGen m), clusterPollTick (pollGen m)]))"
| "Update ops now (transportLostMsg err) m =
     (m_log now (L_Disconnected (if err = Some ErrTransport then err else None))
        (m\<lparr>m_state := stateDisconnected, transportErr := err, m_deliveryCh := None, lastDelivery := None\<rparr>), [])"
| "Update ops now (M_Other n) m = forwardToInput ops (M_Other n) m"

section \<open>The program\<close>

text \<open>What a command may return.  Reading the nil channel blocks for ever.\<close>

fun cmd_result :: "'c tcmd \<Rightarrow> tmsg \<Rightarrow> bool" where
  "cmd_result C_Quit msg = False"
| "cmd_result (C_Input c) msg = (case msg of M_Other n \<Rightarrow> True | _ \<Rightarrow> False)"
| "cmd_result (pubCmd topic dk pl) msg = (case msg of pubResultMsg t i dup err \<Rightarrow> t = topic | _ \<Rightarrow> False)"
| "cmd_result (subCmd topic cid) msg = (case msg of subStartedMsg t c ch err \<Rightarrow> t = topic \<and> c = cid | _ \<Rightarrow> False)"
| "cmd_result (readDeliveryCmd ch) msg =
     (ch \<noteq> None \<and> (case msg of msgArrivedMsg d \<Rightarrow> True | transportLostMsg err \<Rightarrow> True | _ \<Rightarrow> False))"
| "cmd_result (clusterInfoCmd g) msg = (case msg of clusterInfoMsg info err g' \<Rightarrow> g' = g | _ \<Rightarrow> False)"
| "cmd_result (clusterPollTick g) msg = (case msg of clusterPollTickMsg g' \<Rightarrow> g' = g | _ \<Rightarrow> False)"
| "cmd_result (ackCmd d) msg = (case msg of ackResultMsg v i err \<Rightarrow> v = ''ack'' \<and> i = d_MsgID d | _ \<Rightarrow> False)"
| "cmd_result (nackCmd d) msg = (case msg of ackResultMsg v i err \<Rightarrow> v = ''nack'' \<and> i = d_MsgID d | _ \<Rightarrow> False)"

fun sub_ok :: "tmsg \<Rightarrow> bool" where
  "sub_ok (subStartedMsg topic cid ch None) = True"
| "sub_ok _ = False"

fun from_user :: "tmsg \<Rightarrow> bool" where
  "from_user (M_Size w h) = True"
| "from_user (M_Key k) = True"
| "from_user (M_Other n) = True"
| "from_user _ = False"

record ('ti, 'c) program =
  pr_model :: "'ti model"
  pr_cmds :: "'c tcmd multiset"
  pr_subbed :: bool

text \<open>A connection has one subscription: a second one is refused (\<^verbatim>\<open>ErrSubInUse\<close>).\<close>

inductive tui_step :: "('ti, 'c) input_ops \<Rightarrow> ('ti, 'c) program \<Rightarrow> ('ti, 'c) program \<Rightarrow> bool" for ops where
  tu_user: "from_user msg \<Longrightarrow> Update ops now msg (pr_model s) = (m', cs) \<Longrightarrow>
    tui_step ops s (s\<lparr>pr_model := m', pr_cmds := pr_cmds s + mset cs\<rparr>)"
| tu_result: "c \<in># pr_cmds s \<Longrightarrow> cmd_result c msg \<Longrightarrow> sub_ok msg \<longrightarrow> \<not> pr_subbed s \<Longrightarrow>
    Update ops now msg (pr_model s) = (m', cs) \<Longrightarrow>
    tui_step ops s \<lparr>pr_model = m', pr_cmds = pr_cmds s - {#c#} + mset cs, pr_subbed = (pr_subbed s \<or> sub_ok msg)\<rparr>"

definition tui_init :: "('ti, 'c) input_ops \<Rightarrow> int \<Rightarrow> string \<Rightarrow> ('ti, 'c) program" where
  "tui_init ops now addr = \<lparr>pr_model = newModel ops now addr, pr_cmds = {#}, pr_subbed = False\<rparr>"

section \<open>The invariant\<close>

abbreviation reading :: "'c tcmd \<Rightarrow> bool" where
  "reading c \<equiv> (case c of readDeliveryCmd ch \<Rightarrow> True | _ \<Rightarrow> False)"

abbreviation ticking :: "'c tcmd \<Rightarrow> bool" where
  "ticking c \<equiv> (case c of clusterPollTick g \<Rightarrow> True | _ \<Rightarrow> False)"

definition readers :: "'c tcmd multiset \<Rightarrow> 'c tcmd multiset" where
  "readers cs = filter_mset reading cs"

definition ticks :: "'c tcmd multiset \<Rightarrow> 'c tcmd multiset" where
  "ticks cs = filter_mset ticking cs"

text \<open>While subscribed and connected, one command reads the subscription's channel; while the cluster view is open,
  one timer carries the current generation.\<close>

definition model_ok :: "'ti model \<Rightarrow> bool" where
  "model_ok m \<longleftrightarrow> length (scrollback m) \<le> maxScrollback \<and> pubFocus m < 3 \<and> subFocus m < 2"

definition reader_ok :: "('ti, 'c) program \<Rightarrow> bool" where
  "reader_ok s \<longleftrightarrow>
     m_subActive (pr_model s) = pr_subbed s \<and>
     (if pr_subbed s \<and> m_state (pr_model s) \<noteq> stateDisconnected
      then \<exists>ch. m_deliveryCh (pr_model s) = Some ch \<and> readers (pr_cmds s) = {#readDeliveryCmd (Some ch)#}
      else m_deliveryCh (pr_model s) = None \<and> lastDelivery (pr_model s) = None \<and> readers (pr_cmds s) = {#}) \<and>
     (m_state (pr_model s) = stateDisconnected \<longrightarrow> pr_subbed s)"

definition ticker_ok :: "('ti, 'c) program \<Rightarrow> bool" where
  "ticker_ok s \<longleftrightarrow>
     (\<forall>g. clusterPollTick g \<in># pr_cmds s \<longrightarrow> g \<le> pollGen (pr_model s)) \<and>
     (case m_state (pr_model s) of
        stateClusterView \<Rightarrow> count (pr_cmds s) (clusterPollTick (pollGen (pr_model s))) = 1
      | stateDisconnected \<Rightarrow> count (pr_cmds s) (clusterPollTick (pollGen (pr_model s))) \<le> 1
      | _ \<Rightarrow> count (pr_cmds s) (clusterPollTick (pollGen (pr_model s))) = 0)"

definition tui_inv :: "('ti, 'c) program \<Rightarrow> bool" where
  "tui_inv s \<longleftrightarrow> model_ok (pr_model s) \<and> reader_ok s \<and> ticker_ok s"

lemma m_log_fields [simp]:
  "m_state (m_log now l m) = m_state m" "pubFocus (m_log now l m) = pubFocus m" "subFocus (m_log now l m) = subFocus m"
  "m_subActive (m_log now l m) = m_subActive m" "m_deliveryCh (m_log now l m) = m_deliveryCh m"
  "lastDelivery (m_log now l m) = lastDelivery m" "pollGen (m_log now l m) = pollGen m" "autoAck (m_log now l m) = autoAck m"
  by (simp_all add: m_log_def Let_def)

lemma m_log_length: "length (scrollback m) \<le> maxScrollback \<Longrightarrow> length (scrollback (m_log now l m)) \<le> maxScrollback"
  by (simp add: m_log_def maxScrollback_def Let_def)

lemma model_ok_simps [simp]:
  "model_ok (m\<lparr>m_state := st\<rparr>) = model_ok m" "model_ok (m\<lparr>m_status := x\<rparr>) = model_ok m"
  "model_ok (m\<lparr>pubTopic := ti\<rparr>) = model_ok m" "model_ok (m\<lparr>pubPayload := ti\<rparr>) = model_ok m"
  "model_ok (m\<lparr>pubDedupe := ti\<rparr>) = model_ok m" "model_ok (m\<lparr>subTopic := ti\<rparr>) = model_ok m"
  "model_ok (m\<lparr>subConsumer := ti\<rparr>) = model_ok m" "model_ok (m\<lparr>autoAck := b\<rparr>) = model_ok m"
  "model_ok (m\<lparr>pollGen := g\<rparr>) = model_ok m" "model_ok (m\<lparr>lastDelivery := d\<rparr>) = model_ok m"
  "model_ok (m\<lparr>m_deliveryCh := c\<rparr>) = model_ok m" "model_ok (m\<lparr>m_subActive := b\<rparr>) = model_ok m"
  "model_ok (m\<lparr>m_consumerID := k\<rparr>) = model_ok m" "model_ok (m\<lparr>subTopicName := k\<rparr>) = model_ok m"
  "model_ok (m\<lparr>transportErr := e\<rparr>) = model_ok m" "model_ok (m\<lparr>clusterInfo := r\<rparr>) = model_ok m"
  "model_ok (m\<lparr>clusterErr := e\<rparr>) = model_ok m" "model_ok (m\<lparr>m_width := w\<rparr>) = model_ok m"
  "model_ok (m\<lparr>m_height := w\<rparr>) = model_ok m"
  by (simp_all add: model_ok_def)

lemma model_ok_focus: "model_ok m \<Longrightarrow> model_ok (m\<lparr>pubFocus := n mod 3\<rparr>)" "model_ok m \<Longrightarrow> model_ok (m\<lparr>subFocus := n mod 2\<rparr>)"
  "model_ok m \<Longrightarrow> n < 3 \<Longrightarrow> model_ok (m\<lparr>pubFocus := n\<rparr>)" "model_ok m \<Longrightarrow> n < 2 \<Longrightarrow> model_ok (m\<lparr>subFocus := n\<rparr>)"
  by (simp_all add: model_ok_def)

lemma model_ok_log: "model_ok m \<Longrightarrow> model_ok (m_log now l m)"
  by (simp add: model_ok_def m_log_length)

text \<open>What a key press may do.\<close>

definition quiet :: "'c tcmd list \<Rightarrow> bool" where
  "quiet cs \<longleftrightarrow> (\<forall>c \<in> set cs. \<not> reading c \<and> \<not> ticking c)"

definition press_ok :: "'ti model \<Rightarrow> 'ti model \<times> 'c tcmd list \<Rightarrow> bool" where
  "press_ok m r \<longleftrightarrow>
     (case r of (m', cs) \<Rightarrow>
        (model_ok m \<longrightarrow> model_ok m') \<and>
        m_subActive m' = m_subActive m \<and> m_deliveryCh m' = m_deliveryCh m \<and> lastDelivery m' = lastDelivery m \<and>
        (m_state m' = stateDisconnected \<longleftrightarrow> m_state m = stateDisconnected) \<and>
        (pollGen m' = pollGen m \<and> quiet cs \<and> (m_state m' = stateClusterView \<longleftrightarrow> m_state m = stateClusterView) \<or>
         pollGen m' = pollGen m + 1 \<and> m_state m = stateClusterView \<and> m_state m' = stateMain \<and> cs = [] \<or>
         pollGen m' = pollGen m + 1 \<and> m_state m = stateMain \<and> m_state m' = stateClusterView \<and>
           cs = [clusterInfoCmd (pollGen m'), clusterPollTick (pollGen m')]))"

lemma quiet_simps [simp]: "quiet []" "quiet [C_Quit]" "quiet [C_Input c]" "quiet [pubCmd a b d]" "quiet [subCmd a b]"
  "quiet [nackCmd x]" "quiet [ackCmd x]" "quiet (input_cmd oc)"
  by (auto simp: quiet_def input_cmd_def split: option.split)

lemma forward_key_ok: "press_ok m (forwardToInput ops msg m)"
  by (cases "m_state m") (simp_all add: forwardToInput_def press_ok_def split: prod.split)

lemma focus_key_ok:
  "m_state m = statePubModal \<Longrightarrow> press_ok m (focusPubField ops (m\<lparr>pubFocus := n mod 3\<rparr>))"
  "m_state m = stateSubModal \<Longrightarrow> press_ok m (focusSubField ops (m\<lparr>subFocus := n mod 2\<rparr>))"
  by (simp_all add: focusPubField_def focusSubField_def press_ok_def model_ok_focus Let_def split: prod.split)

lemma handlePubKey_ok: "m_state m = statePubModal \<Longrightarrow> press_ok m (handlePubKey ops now k m)"
  using forward_key_ok [of m ops "M_Key k"] focus_key_ok(1) [of m ops]
  by (simp add: handlePubKey_def Let_def) (simp add: press_ok_def model_ok_log)

lemma handleSubKey_ok: "m_state m = stateSubModal \<Longrightarrow> press_ok m (handleSubKey ops now k m)"
  using forward_key_ok [of m ops "M_Key k"] focus_key_ok(2) [of m ops]
  by (simp add: handleSubKey_def Let_def) (simp add: press_ok_def model_ok_log)

lemma handleMainKey_ok: "m_state m = stateMain \<Longrightarrow> press_ok m (handleMainKey ops now k m)"
  by (simp add: handleMainKey_def Let_def press_ok_def resetPubModal_def resetSubModal_def model_ok_focus model_ok_log
      split: option.split)

lemma handleKey_ok: "press_ok m (handleKey ops now k m)"
proof (cases "m_state m")
  case stateClusterView
  then show ?thesis by (simp add: handleKey_def handleClusterKey_def press_ok_def)
next
  case stateDisconnected
  then show ?thesis by (simp add: handleKey_def press_ok_def)
qed (simp_all add: handleKey_def handlePubKey_ok handleSubKey_ok handleMainKey_ok)

lemma user_key_ok: "from_user msg \<Longrightarrow> press_ok m (Update ops now msg m)"
  by (cases msg) (auto simp: handleKey_ok forward_key_ok, simp add: press_ok_def)

text \<open>A message that changes neither the screen's state nor the subscription.\<close>

lemma key_ok_log: "press_ok m (m_log now l m, [])"
  by (simp add: press_ok_def model_ok_log)

lemma count_mset_not: "quiet cs \<Longrightarrow> count (mset cs) (clusterPollTick g) = 0"
  by (force simp: quiet_def count_mset_0_iff)

lemma readers_simps [simp]:
  "readers {#} = {#}" "readers (A + B) = readers A + readers B" "quiet cs \<Longrightarrow> readers (mset cs) = {#}"
  by (auto simp: readers_def quiet_def filter_empty_conv mset_filter [symmetric] simp del: mset_filter)

lemma readers_add [simp]: "readers (add_mset c cs) = (if reading c then add_mset c (readers cs) else readers cs)"
  by (simp add: readers_def)

lemma readers_remove: "c \<in># cs \<Longrightarrow> readers (cs - {#c#}) = readers cs - (if reading c then {#c#} else {#})"
  by (simp add: readers_def multiset_eq_iff split: if_splits)

lemma key_step_inv:
  assumes "tui_inv s" "press_ok (pr_model s) (m', cs)"
    and old: "\<And>c. c \<in># cmds \<Longrightarrow> c \<in># pr_cmds s"
    and rd: "readers cmds = readers (pr_cmds s)"
    and tk: "\<And>g. g = pollGen (pr_model s) \<and> m_state (pr_model s) = stateClusterView \<Longrightarrow>
       count cmds (clusterPollTick g) = count (pr_cmds s) (clusterPollTick g)"
    and le: "\<And>g. count cmds (clusterPollTick g) \<le> count (pr_cmds s) (clusterPollTick g)"
  shows "tui_inv (s\<lparr>pr_model := m', pr_cmds := cmds + mset cs\<rparr>)"
proof -
  let ?m = "pr_model s" and ?s = "s\<lparr>pr_model := m', pr_cmds := cmds + mset cs\<rparr>"
  note k = assms(2) [unfolded press_ok_def prod.case]
  have q: "readers (mset cs) = {#}"
    using k by (auto simp: readers_def quiet_def filter_empty_conv mset_filter [symmetric] simp del: mset_filter)
  have "model_ok m'" using assms(1) k by (simp add: tui_inv_def)
  moreover have "reader_ok ?s"
    using assms(1) k rd q by (simp add: tui_inv_def reader_ok_def)
  moreover have "ticker_ok ?s"
  proof -
    have t: "ticker_ok s" using assms(1) by (simp add: tui_inv_def)
    then have new: "count cmds (clusterPollTick (pollGen ?m + 1)) = 0"
      using old by (force simp: ticker_ok_def count_eq_zero_iff)
    have bound: "g \<le> pollGen m'" if "clusterPollTick g \<in># cmds + mset cs" for g
      using that old t k count_mset_not [of cs g] by (fastforce simp: ticker_ok_def count_eq_zero_iff)
    have le': "count cmds (clusterPollTick (pollGen ?m)) \<le> count (pr_cmds s) (clusterPollTick (pollGen ?m))" by (rule le)
    from k consider
        (same) "pollGen m' = pollGen ?m" "quiet cs" "m_state m' = stateClusterView \<longleftrightarrow> m_state ?m = stateClusterView"
          "m_state m' = stateDisconnected \<longleftrightarrow> m_state ?m = stateDisconnected"
      | (leave) "pollGen m' = pollGen ?m + 1" "m_state m' = stateMain" "cs = []"
      | (enter) "pollGen m' = pollGen ?m + 1" "m_state m' = stateClusterView"
          "cs = [clusterInfoCmd (pollGen m'), clusterPollTick (pollGen m')]" by blast
    then show ?thesis
    proof cases
      case same
      then show ?thesis
        using t bound tk [of "pollGen ?m"] le'
        by (cases "m_state m'"; cases "m_state ?m") (auto simp: ticker_ok_def count_mset_not [OF same(2)])
    next
      case leave
      then show ?thesis using bound new by (simp add: ticker_ok_def)
    next
      case enter
      then show ?thesis using bound new by (simp add: ticker_ok_def)
    qed
  qed
  ultimately show ?thesis by (simp add: tui_inv_def)
qed

lemma count_remove:
  "count (cs - {#c#}) (clusterPollTick g) \<le> count cs (clusterPollTick g)"
  "\<not> ticking c \<Longrightarrow> count (cs - {#c#}) (clusterPollTick g) = count cs (clusterPollTick g)"
  by (auto simp: count_single)

lemma quiet_result_inv:
  assumes "tui_inv s" "c \<in># pr_cmds s" "\<not> reading c" "\<not> ticking c" "press_ok (pr_model s) (m', cs)"
  shows "tui_inv (s\<lparr>pr_model := m', pr_cmds := pr_cmds s - {#c#} + mset cs\<rparr>)"
  using assms count_remove [where c = c and cs = "pr_cmds s"]
  by (intro key_step_inv) (auto simp: readers_remove dest: in_diffD)

text \<open>The three results that matter: a subscription, a delivery, a lost connection; and the timer.\<close>

lemma sub_started_inv:
  assumes "tui_inv s" "subCmd topic cid \<in># pr_cmds s" "\<not> pr_subbed s"
  shows "tui_inv \<lparr>pr_model = m_log now l ((pr_model s)\<lparr>m_subActive := True, m_consumerID := cid, subTopicName := topic, m_deliveryCh := Some ch\<rparr>),
     pr_cmds = pr_cmds s - {#subCmd topic cid#} + {#readDeliveryCmd (Some ch)#}, pr_subbed = True\<rparr>"
proof -
  have "readers (pr_cmds s - {#subCmd topic cid#}) = {#}"
    using assms by (simp add: readers_remove tui_inv_def reader_ok_def)
  moreover have "readers {#readDeliveryCmd (Some ch)#} = {#readDeliveryCmd (Some ch)#}" by (simp add: readers_def)
  ultimately show ?thesis
    using assms count_remove(2) [of "subCmd topic cid" "pr_cmds s"]
    by (auto simp: tui_inv_def model_ok_log reader_ok_def ticker_ok_def dest: in_diffD split: tstate.splits)
qed

lemma delivery_inv:
  assumes "tui_inv s" "readDeliveryCmd (Some ch) \<in># pr_cmds s" "quiet cs"
  shows "tui_inv (s\<lparr>pr_model := m_log now l ((pr_model s)\<lparr>lastDelivery := Some d\<rparr>),
     pr_cmds := pr_cmds s - {#readDeliveryCmd (Some ch)#} + (mset cs + {#readDeliveryCmd (m_deliveryCh (pr_model s))#})\<rparr>)"
proof -
  let ?m = "pr_model s"
  have "readDeliveryCmd (Some ch) \<in># readers (pr_cmds s)" using assms(2) by (simp add: readers_def)
  then have r: "pr_subbed s" "m_state ?m \<noteq> stateDisconnected" "m_deliveryCh ?m = Some ch"
      "readers (pr_cmds s) = {#readDeliveryCmd (Some ch)#}"
    using assms(1) by (auto simp: tui_inv_def reader_ok_def split: if_splits)
  moreover have "readers {#readDeliveryCmd (Some ch)#} = {#readDeliveryCmd (Some ch)#}" by (simp add: readers_def)
  ultimately show ?thesis
    using assms count_remove(2) [of "readDeliveryCmd (Some ch)" "pr_cmds s"]
    by (auto simp: tui_inv_def model_ok_log reader_ok_def ticker_ok_def readers_remove count_mset_not quiet_def
        dest: in_diffD split: tstate.splits)
qed

lemma lost_inv:
  assumes "tui_inv s" "readDeliveryCmd (Some ch) \<in># pr_cmds s"
  shows "tui_inv (s\<lparr>pr_model := m_log now l ((pr_model s)\<lparr>m_state := stateDisconnected, transportErr := err,
       m_deliveryCh := None, lastDelivery := None\<rparr>), pr_cmds := pr_cmds s - {#readDeliveryCmd (Some ch)#}\<rparr>)"
proof -
  let ?m = "pr_model s"
  have "readDeliveryCmd (Some ch) \<in># readers (pr_cmds s)" using assms(2) by (simp add: readers_def)
  then have r: "pr_subbed s" "readers (pr_cmds s) = {#readDeliveryCmd (Some ch)#}"
    using assms(1) by (auto simp: tui_inv_def reader_ok_def split: if_splits)
  then show ?thesis
    using assms count_remove(2) [of "readDeliveryCmd (Some ch)" "pr_cmds s"]
    by (auto simp: tui_inv_def model_ok_log reader_ok_def ticker_ok_def readers_remove
        dest: in_diffD split: tstate.splits)
qed

lemma tick_inv:
  assumes "tui_inv s" "clusterPollTick g \<in># pr_cmds s" "Update ops now (clusterPollTickMsg g) (pr_model s) = (m', cs)"
  shows "tui_inv (s\<lparr>pr_model := m', pr_cmds := pr_cmds s - {#clusterPollTick g#} + mset cs\<rparr>)"
proof (cases "g \<noteq> pollGen (pr_model s) \<or> m_state (pr_model s) \<noteq> stateClusterView")
  case True
  then have "m' = pr_model s" "cs = []" using assms(3) by auto
  then show ?thesis
    using assms(1,2) True count_remove(1) [of "pr_cmds s" "clusterPollTick g"]
    by (intro key_step_inv) (auto simp: readers_remove press_ok_def dest: in_diffD)
next
  case False
  then have mc: "m' = pr_model s" "cs = [clusterInfoCmd g, clusterPollTick g]" "g = pollGen (pr_model s)"
    "m_state (pr_model s) = stateClusterView" using assms(3) by auto
  have "readers {#clusterInfoCmd g, clusterPollTick g#} = {#}" by (simp add: readers_def)
  then show ?thesis
    using assms(1,2) mc
    by (auto simp: tui_inv_def reader_ok_def ticker_ok_def readers_remove add_mset_commute dest: in_diffD)
qed

lemma tui_step_inv: "tui_step ops s s' \<Longrightarrow> tui_inv s \<Longrightarrow> tui_inv s'"
proof (induction rule: tui_step.induct)
  case (tu_user msg now s m' cs)
  then show ?case using user_key_ok [of msg "pr_model s" ops now] by (intro key_step_inv) auto
next
  case (tu_result c s msg now m' cs)
  have old: "\<lparr>pr_model = m, pr_cmds = cmds, pr_subbed = pr_subbed s\<rparr> = s\<lparr>pr_model := m, pr_cmds := cmds\<rparr>" for m cmds
    by simp
  show ?case
  proof (cases c)
    case (readDeliveryCmd ch)
    then obtain ch' where ch: "ch = Some ch'" using tu_result by auto
    show ?thesis
    proof (cases msg)
      case (msgArrivedMsg d)
      have "tui_inv (s\<lparr>pr_model := m', pr_cmds := pr_cmds s - {#c#} + mset cs\<rparr>)"
        using delivery_inv [of s ch' "if autoAck (pr_model s) then [ackCmd d] else []" now "L_Msg d" d] tu_result readDeliveryCmd ch msgArrivedMsg
        by (auto simp: add.commute)
      then show ?thesis using msgArrivedMsg by (simp add: old)
    next
      case (transportLostMsg err)
      then show ?thesis using lost_inv [of s ch' now _ err] tu_result readDeliveryCmd ch by (auto simp: old)
    qed (use tu_result readDeliveryCmd in auto)
  next
    case (clusterPollTick g)
    then show ?thesis using tick_inv [of s g ops now m' cs] tu_result by (auto simp: old split: tmsg.splits)
  next
    case (subCmd topic cid)
    then obtain ch err where msg: "msg = subStartedMsg topic cid ch err" using tu_result by (auto split: tmsg.splits)
    show ?thesis
    proof (cases err)
      case None
      then show ?thesis using sub_started_inv [of s topic cid now "L_Sub topic (Inl cid)" ch] tu_result subCmd msg by auto
    next
      case (Some e)
      then show ?thesis
        using quiet_result_inv [of s c m' cs] key_ok_log tu_result subCmd msg by (auto simp: old)
    qed
  next
    case (C_Input x)
    then obtain n where "msg = M_Other n" using tu_result by (auto split: tmsg.splits)
    then show ?thesis using quiet_result_inv [of s c m' cs] forward_key_ok [of "pr_model s" ops msg] tu_result C_Input by (auto simp: old)
  next
    case (clusterInfoCmd g)
    then obtain info err where "msg = clusterInfoMsg info err g" using tu_result by (auto split: tmsg.splits)
    then show ?thesis
      using quiet_result_inv [of s c m' cs] tu_result clusterInfoCmd by (auto simp: old press_ok_def split: if_splits)
  qed (use quiet_result_inv [of s c m' cs] key_ok_log tu_result in \<open>auto simp: old split: tmsg.splits\<close>)
qed

section \<open>Theorems\<close>

lemma tui_inv_init: "tui_inv (tui_init ops now addr)"
  by (simp add: tui_inv_def tui_init_def newModel_def reader_ok_def ticker_ok_def) (simp add: model_ok_def m_log_length)

lemma tui_reach_inv: "(tui_step ops)\<^sup>*\<^sup>* (tui_init ops now addr) s \<Longrightarrow> tui_inv s"
  by (induction rule: rtranclp_induct) (auto intro: tui_inv_init tui_step_inv)

text \<open>C40: The terminal client keeps one reader and one timer.  Whatever keys are pressed and in whatever order
  the commands return, the log never exceeds its bound and the focus stays on a field; while it is subscribed
  and connected exactly one command waits for the next delivery, on the subscription's channel, and none
  otherwise; at most one timer carries the current poll generation, exactly one while the cluster view is open; and
  after the connection is lost there is no delivery left to nack.\<close>

theorem tui_single_chain:
  assumes "(tui_step ops)\<^sup>*\<^sup>* (tui_init ops now addr) s"
  shows "length (scrollback (pr_model s)) \<le> 1000 \<and> pubFocus (pr_model s) < 3 \<and> subFocus (pr_model s) < 2 \<and>
     (if pr_subbed s \<and> m_state (pr_model s) \<noteq> stateDisconnected
      then \<exists>ch. m_deliveryCh (pr_model s) = Some ch \<and> readers (pr_cmds s) = {#readDeliveryCmd (Some ch)#}
      else readers (pr_cmds s) = {#}) \<and>
     count (pr_cmds s) (clusterPollTick (pollGen (pr_model s))) \<le> 1 \<and>
     (m_state (pr_model s) = stateClusterView \<longrightarrow> count (pr_cmds s) (clusterPollTick (pollGen (pr_model s))) = 1) \<and>
     (m_state (pr_model s) = stateDisconnected \<longrightarrow> lastDelivery (pr_model s) = None)"
  using tui_reach_inv [OF assms]
  by (cases "m_state (pr_model s)")
     (auto simp: tui_inv_def model_ok_def maxScrollback_def reader_ok_def ticker_ok_def split: if_splits)

definition plain_input :: "(string, unit) input_ops" where
  "plain_input = \<lparr>ti_New = (\<lambda>ph w. []), ti_SetValue = (\<lambda>v t. v), ti_Value = (\<lambda>t. t), ti_Focus = (\<lambda>t. (t, None)),
     ti_Blur = (\<lambda>t. t), ti_Update = (\<lambda>msg t. case msg of M_Key k \<Rightarrow> (t @ k, None) | _ \<Rightarrow> (t, None)), ti_Blink = ()\<rparr>"

definition press :: "string \<Rightarrow> (string, unit) program \<Rightarrow> (string, unit) program" where
  "press k s = (case Update plain_input 0 (M_Key k) (pr_model s) of
     (m, cs) \<Rightarrow> s\<lparr>pr_model := m, pr_cmds := pr_cmds s + mset cs\<rparr>)"

definition subscribed :: "(string, unit) program" where
  "subscribed = fold press [''s'', ''x'', ''tab'', ''y'', ''enter''] (tui_init plain_input 0 ''a'')"

lemma press_reach: "(tui_step plain_input)\<^sup>*\<^sup>* s t \<Longrightarrow> (tui_step plain_input)\<^sup>*\<^sup>* s (fold press ks t)"
proof (induction ks arbitrary: t)
  case (Cons k ks)
  have "tui_step plain_input t (press k t)"
    by (cases "Update plain_input 0 (M_Key k) (pr_model t)") (auto simp: press_def intro!: tu_user [where msg = "M_Key k"])
  then show ?case using Cons by (simp add: rtranclp.rtrancl_into_rtrancl)
qed simp

lemma subscribed_cmds: "subCmd ''x'' ''y'' \<in># pr_cmds subscribed" "pr_subbed subscribed = False"
  "m_state (pr_model subscribed) = stateMain"
  by (simp_all add: subscribed_def press_def tui_init_def newModel_def plain_input_def handleKey_def handleMainKey_def
      handleSubKey_def resetSubModal_def forwardToInput_def focusSubField_def input_cmd_def Let_def)

theorem tui_single_chain_witness:
  "\<exists>s. (tui_step plain_input)\<^sup>*\<^sup>* (tui_init plain_input 0 ''a'') s \<and>
     m_state (pr_model s) = stateMain \<and> readers (pr_cmds s) = {#readDeliveryCmd (Some 7)#}"
proof -
  let ?m = "m_log 0 (L_Sub ''x'' (Inl ''y'')) ((pr_model subscribed)\<lparr>m_subActive := True, m_consumerID := ''y'',
      subTopicName := ''x'', m_deliveryCh := Some 7\<rparr>)"
  let ?s = "\<lparr>pr_model = ?m, pr_cmds = pr_cmds subscribed - {#subCmd ''x'' ''y''#} + mset [readDeliveryCmd (Some 7)], pr_subbed = True\<rparr>"
  have "(tui_step plain_input)\<^sup>*\<^sup>* (tui_init plain_input 0 ''a'') subscribed"
    unfolding subscribed_def by (rule press_reach) simp
  moreover have "tui_step plain_input subscribed ?s"
    using tu_result [OF subscribed_cmds(1), of "subStartedMsg ''x'' ''y'' 7 None" plain_input 0] subscribed_cmds(2) by simp
  ultimately have r: "(tui_step plain_input)\<^sup>*\<^sup>* (tui_init plain_input 0 ''a'') ?s" by (rule rtranclp.rtrancl_into_rtrancl)
  from tui_single_chain [OF r] subscribed_cmds(3) have "readers (pr_cmds ?s) = {#readDeliveryCmd (Some 7)#}" by simp
  then show ?thesis using r subscribed_cmds(3) by (intro exI [of _ ?s]) simp
qed

end
