(* ===== verification/Tui_View.thy ===== *)
theory Tui_View
  imports Tui_Model Session
begin

text \<open>
  What the terminal client shows (\<^verbatim>\<open>cmd/toymq-tui/view.go\<close>): the part of the log that fits the pane and
  the cluster view built from the last \<^verbatim>\<open>INFO replication\<close> answer.  Borders and colours are the styling
  library's.  A blank line is \<open>None\<close>; \<open>runes\<close> counts the characters of a string, which is what the column
  formats pad by.
\<close>

section \<open>The panes\<close>

definition pane_width :: "int \<Rightarrow> int" where
  "pane_width w0 = (let w = (if w0 \<le> 0 then 80 else w0); innerW = w - 4 in if innerW < 10 then 10 else innerW)"

definition pane_height :: "int \<Rightarrow> int \<Rightarrow> int \<Rightarrow> nat" where
  "pane_height h0 headerH footerH =
     (let h = (if h0 \<le> 0 then 24 else h0); innerH = h - headerH - footerH - 2
      in nat (if innerH < 3 then 3 else innerH))"

definition pad_lines :: "nat \<Rightarrow> 'a option list \<Rightarrow> 'a option list" where
  "pad_lines n xs = xs @ replicate (n - length xs) None"

definition renderScrollback :: "int \<Rightarrow> int \<Rightarrow> 'ti model \<Rightarrow> int \<times> (int \<times> log_line) option list" where
  "renderScrollback headerH footerH m =
     (let innerH = pane_height (m_height m) headerH footerH;
          start = (if length (scrollback m) > innerH then length (scrollback m) - innerH else 0)
      in (pane_width (m_width m), pad_lines innerH (map Some (drop start (scrollback m)))))"

section \<open>The cluster view\<close>

definition CutPrefix :: "string \<Rightarrow> string \<Rightarrow> string option" where
  "CutPrefix s p = (if take (length p) s = p then Some (drop (length p) s) else None)"

definition CutSuffix :: "string \<Rightarrow> string \<Rightarrow> string option" where
  "CutSuffix s p = (if drop (length s - length p) s = p \<and> length p \<le> length s then Some (take (length s - length p) s) else None)"

fun insort_str :: "string \<Rightarrow> string list \<Rightarrow> string list" where
  "insort_str x [] = [x]"
| "insort_str x (y # ys) = (if str_le x y then x # y # ys else y # insort_str x ys)"

definition sort_Strings :: "string list \<Rightarrow> string list" where
  "sort_Strings xs = foldr insort_str xs []"

definition peer_key :: "string \<Rightarrow> string option" where
  "peer_key k = Option.bind (CutPrefix k ''replica_'') (\<lambda>i. CutSuffix i ''_match_index'')"

text \<open>Reading a missing key gives the empty string.\<close>

definition raw_get :: "(string \<times> string) list \<Rightarrow> string \<Rightarrow> string" where
  "raw_get raw k = (case map_of raw k of None \<Rightarrow> [] | Some v \<Rightarrow> v)"

definition peer_row :: "(string \<Rightarrow> nat) \<Rightarrow> string \<Rightarrow> string \<Rightarrow> string \<Rightarrow> string" where
  "peer_row runes a b c =
     ''  '' @ a @ replicate (16 - runes a) (CHR '' '') @ '' '' @
     replicate (14 - runes b) (CHR '' '') @ b @ '' '' @ replicate (10 - runes c) (CHR '' '') @ c"

definition peerRows :: "(string \<Rightarrow> nat) \<Rightarrow> (string \<times> string) list \<Rightarrow> string list" where
  "peerRows runes raw =
     map (\<lambda>i. peer_row runes i (raw_get raw (''replica_'' @ i @ ''_match_index''))
                 (raw_get raw (''replica_'' @ i @ ''_lag_entries'')))
       (sort_Strings (List.map_filter (\<lambda>(k, v). peer_key k) raw))"

text \<open>\<open>err_text\<close> is the error's message.\<close>

definition cluster_lines :: "(string \<Rightarrow> nat) \<Rightarrow> (client_err \<Rightarrow> string) \<Rightarrow> 'ti model \<Rightarrow> string list" where
  "cluster_lines runes err_text m =
     (let raw = snd (clusterInfo m); get = raw_get raw in
      case clusterErr m of
        Some e \<Rightarrow> [''cluster: '' @ err_text e]
      | None \<Rightarrow>
          if raw = [] then [''polling INFO replication ...'']
          else if fst (clusterInfo m) = ''standalone'' then [''standalone - no cluster (single node, raft disabled)'']
          else [''role:           '' @ get ''role'', ''leader:         '' @ get ''leader'', ''term:           '' @ get ''term'',
                ''commit_index:   '' @ get ''commit_index'', ''apply_index:    '' @ get ''apply_index'',
                ''last_log_index: '' @ get ''last_log_index'', []] @
               (if peerRows runes raw = []
                then [''peer detail is leader-only; this node is '' @ get ''role'' @ '' (leader='' @ get ''leader'' @ '')'']
                else [''replicas ('' @ get ''connected_replicas'' @ ''):'', peer_row runes ''PEER'' ''MATCH_INDEX'' ''LAG''] @
                     peerRows runes raw))"

definition renderClusterView ::
    "(string \<Rightarrow> nat) \<Rightarrow> (client_err \<Rightarrow> string) \<Rightarrow> int \<Rightarrow> int \<Rightarrow> 'ti model \<Rightarrow> int \<times> string option list" where
  "renderClusterView runes err_text headerH footerH m =
     (let innerH = pane_height (m_height m) headerH footerH
      in (pane_width (m_width m), take innerH (pad_lines innerH (map Some (cluster_lines runes err_text m)))))"

section \<open>The screen\<close>

definition renderHeader :: "'ti model \<Rightarrow> string" where
  "renderHeader m =
     (let sub = (if m_subActive m
                 then ''consumer='' @ m_consumerID m @ '' topic='' @ subTopicName m @
                      '' auto-ack='' @ (if autoAck m then ''true'' else ''false'')
                 else ''no subscription'');
          st = (if m_state m = stateDisconnected then ''disconnected'' else ''connected'')
      in ''ToyMQ TUI - '' @ st @ '' @ '' @ m_addr m @ '' - '' @ sub)"

fun status_text :: "status_line \<Rightarrow> string" where
  "status_text St_None = []"
| "status_text St_Subscribed = ''already subscribed; restart to change consumer''"
| "status_text St_NoMsg = ''no MSG to nack''"
| "status_text St_PubRequired = ''pub: topic and payload required''"
| "status_text St_SubRequired = ''sub: topic and consumer-id required''"

definition renderFooter :: "'ti model \<Rightarrow> string" where
  "renderFooter m =
     (if status_text (m_status m) \<noteq> [] then status_text (m_status m)
      else if m_state m = stateDisconnected then ''[q] quit''
      else if m_state m = stateClusterView then ''[esc/c] back  [q] quit''
      else ''[p] pub  [s] sub  [a] toggle auto-ack  [n] nack last  [c] cluster  [q] quit'')"

text \<open>The modal forms, with the inputs as the third-party code draws them.\<close>

definition renderPubModal :: "('ti \<Rightarrow> string) \<Rightarrow> 'ti model \<Rightarrow> string list" where
  "renderPubModal draw m =
     [''PUB'', [], ''topic:   '' @ draw (pubTopic m), ''payload: '' @ draw (pubPayload m), ''dedupe:  '' @ draw (pubDedupe m),
      [], ''Tab to cycle  -  Enter to submit  -  Esc to cancel'']"

definition renderSubModal :: "('ti \<Rightarrow> string) \<Rightarrow> 'ti model \<Rightarrow> string list" where
  "renderSubModal draw m =
     [''SUB'', [], ''topic:       '' @ draw (subTopic m), ''consumer id: '' @ draw (subConsumer m),
      [], ''Tab to cycle  -  Enter to submit  -  Esc to cancel'']"

datatype body = B_Log "int \<times> (int \<times> log_line) option list" | B_Cluster "int \<times> string option list"

text \<open>\<open>hgt\<close> and \<open>mhgt\<close> are the heights that the styling library gives a line and a form.\<close>

definition tui_View ::
    "('ti \<Rightarrow> string) \<Rightarrow> (string \<Rightarrow> int) \<Rightarrow> (string list \<Rightarrow> int) \<Rightarrow> (string \<Rightarrow> nat) \<Rightarrow> (client_err \<Rightarrow> string) \<Rightarrow>
     'ti model \<Rightarrow> string \<times> body \<times> string list option \<times> string" where
  "tui_View draw hgt mhgt runes err_text m =
     (let header = renderHeader m; footer = renderFooter m; hh = hgt header; fh = hgt footer in
      if m_state m = stateClusterView then (header, B_Cluster (renderClusterView runes err_text hh fh m), None, footer)
      else case m_state m of
          statePubModal \<Rightarrow> (let f = renderPubModal draw m in (header, B_Log (renderScrollback hh (fh + mhgt f) m), Some f, footer))
        | stateSubModal \<Rightarrow> (let f = renderSubModal draw m in (header, B_Log (renderScrollback hh (fh + mhgt f) m), Some f, footer))
        | _ \<Rightarrow> (header, B_Log (renderScrollback hh fh m), None, footer))"

section \<open>What fits\<close>

lemma pane_filled:
  "length (snd (renderScrollback hh fh m)) = pane_height (m_height m) hh fh"
  "length (snd (renderClusterView runes txt hh fh m)) = pane_height (m_height m) hh fh"
  by (simp_all add: renderScrollback_def renderClusterView_def pad_lines_def Let_def)

text \<open>The newest lines are the ones shown.\<close>

lemma newest_shown:
  "\<exists>old. scrollback m = old @ map the (filter (\<lambda>x. x \<noteq> None) (snd (renderScrollback hh fh m)))"
proof -
  have "map the (filter (\<lambda>x. x \<noteq> None) (map Some xs @ replicate n None)) = xs" for xs :: "(int \<times> log_line) list" and n
    by (induction xs) simp_all
  then show ?thesis
    by (simp add: renderScrollback_def pad_lines_def Let_def) (metis append_Nil append_take_drop_id)
qed

section \<open>From the broker to the screen\<close>

lemma CutPrefix_append [simp]: "CutPrefix (p @ s) p = Some s"
  by (simp add: CutPrefix_def)

lemma CutSuffix_append [simp]: "CutSuffix (s @ p) p = Some s"
  by (simp add: CutSuffix_def)

lemma peer_key_match: "peer_key (''replica_'' @ i @ ''_match_index'') = Some i"
  using CutPrefix_append [of "''replica_''" "i @ ''_match_index''"] CutSuffix_append [of i "''_match_index''"]
  by (simp only: peer_key_def bind.simps append_assoc)

lemma peer_key_lag: "peer_key (''replica_'' @ i @ ''_lag_entries'') = None"
proof -
  have "CutSuffix (i @ ''_lag_entries'') ''_match_index'' = None"
    by (simp add: CutSuffix_def)
  then show ?thesis using CutPrefix_append [of "''replica_''" "i @ ''_lag_entries''"] by (simp only: peer_key_def bind.simps)
qed

definition head_pairs :: "ReplicationStatus \<Rightarrow> (string \<times> string) list" where
  "head_pairs st =
     [(''role'', rs_Role st), (''leader'', rs_LeaderID st), (''term'', dec (unat (rs_Term st))),
      (''commit_index'', dec (unat (rs_CommitIndex st))), (''apply_index'', dec (unat (rs_ApplyIndex st))),
      (''last_log_index'', dec (unat (rs_LastLogIndex st))), (''connected_replicas'', dec (length (rs_Peers st)))]"

definition peer_pairs :: "PeerStatus \<Rightarrow> (string \<times> string) list" where
  "peer_pairs p =
     [(''replica_'' @ ps_ID p @ ''_match_index'', dec (unat (ps_MatchIndex p))),
      (''replica_'' @ ps_ID p @ ''_lag_entries'', dec (unat (ps_LagEntries p)))]"

definition info_pairs :: "ReplicationStatus \<Rightarrow> (string \<times> string) list" where
  "info_pairs st = head_pairs st @ concat (map peer_pairs (rs_Peers st))"

lemma info_lines_pairs:
  "rs_Role st \<noteq> ''standalone'' \<Longrightarrow> info_lines st = map (\<lambda>(k, v). k @ CHR '':'' # v) (info_pairs st)"
  by (simp add: info_lines_def info_pairs_def head_pairs_def peer_pairs_def map_concat comp_def)

lemma update_fresh: "k \<notin> fst ` set xs \<Longrightarrow> AList.update k v xs = xs @ [(k, v)]"
  by (induction xs) auto

lemma parse_pairs:
  "distinct (map fst (raw @ kvs)) \<Longrightarrow> (\<forall>(k, v) \<in> set kvs. CHR '':'' \<notin> set k) \<Longrightarrow>
     parse_info (map (\<lambda>(k, v). k @ CHR '':'' # v) kvs) raw = Some (raw @ kvs)"
proof (induction kvs arbitrary: raw)
  case (Cons kv kvs)
  obtain k v where kv: "kv = (k, v)" by fastforce
  then have "AList.update k v raw = raw @ [(k, v)]" using Cons.prems(1) by (intro update_fresh) auto
  then show ?case using Cons.IH [of "raw @ [(k, v)]"] Cons.prems kv by (simp add: Cut_found)
qed simp

lemma head_keys: "i \<in> fst ` set (head_pairs st) \<Longrightarrow> peer_key i = None \<and> i \<noteq> ''replica_'' @ j @ ''_lag_entries''"
  by (auto simp: head_pairs_def peer_key_def CutPrefix_def)

lemma head_distinct: "distinct (map fst (head_pairs st))"
  by (simp add: head_pairs_def)

lemma peers_distinct:
  assumes "distinct (map ps_ID ps)"
  shows "distinct (map fst (concat (map peer_pairs ps)))"
  using assms
proof (induction ps)
  case (Cons p ps)
  have n: "''replica_'' @ ps_ID p @ ''_match_index'' \<noteq> ''replica_'' @ i @ ''_lag_entries''"
    "''replica_'' @ i @ ''_match_index'' \<noteq> ''replica_'' @ ps_ID p @ ''_lag_entries''" for i
    using peer_key_match [of "ps_ID p"] peer_key_match [of i] peer_key_lag by (metis option.distinct(1))+
  have "fst ` set (peer_pairs p) \<inter> fst ` set (concat (map peer_pairs ps)) = {}"
    using Cons.prems n by (auto simp: peer_pairs_def)
  then show ?case using Cons n [of "ps_ID p"] by (auto simp: peer_pairs_def)
qed simp

lemma pairs_distinct:
  assumes "distinct (map ps_ID (rs_Peers st))"
  shows "distinct (map fst (info_pairs st))"
proof -
  have "fst ` set (head_pairs st) \<inter> fst ` set (concat (map peer_pairs (rs_Peers st))) = {}"
    using head_keys [of _ st] peer_key_match by (fastforce simp: peer_pairs_def)
  then show ?thesis using head_distinct peers_distinct [OF assms] by (simp add: info_pairs_def)
qed

lemma sort_sorted: "sorted_wrt str_le xs \<Longrightarrow> sort_Strings xs = xs"
proof (induction xs)
  case (Cons x xs)
  then have "insort_str x xs = x # xs" by (cases xs) auto
  then show ?case using Cons by (simp add: sort_Strings_def)
qed (simp add: sort_Strings_def)

lemma peer_keys: "List.map_filter (\<lambda>(k, v). peer_key k) (info_pairs st) = map ps_ID (rs_Peers st)"
proof -
  have h: "List.map_filter (\<lambda>(k, v). peer_key k) (head_pairs st) = []"
    using head_keys [of _ st] by (force simp: map_filter_def filter_empty_conv)
  have "List.map_filter (\<lambda>(k, v). peer_key k) (concat (map peer_pairs ps)) = map ps_ID ps" for ps
    by (induction ps) (simp_all add: map_filter_simps peer_pairs_def peer_key_match [simplified] peer_key_lag [simplified])
  then show ?thesis using h by (simp add: info_pairs_def map_filter_def)
qed

text \<open>The view of a cluster member shows, for every peer the broker reported, its match index and its lag, in
  the order of the peers' names, and nothing else: \<^verbatim>\<open>handleInfo\<close>, the wire, \<^verbatim>\<open>resolveInfoResp\<close> and \<^verbatim>\<open>peerRows\<close> compose.\<close>

theorem cluster_view_shows_peers:
  assumes "rs_Role st \<noteq> ''standalone''" "distinct (map ps_ID (rs_Peers st))"
    and "\<forall>p \<in> set (rs_Peers st). CHR '':'' \<notin> set (ps_ID p)"
    and "sorted_wrt str_le (map ps_ID (rs_Peers st))"
  shows "resolveInfoResp (F_Info (info_lines st)) = Inr (rs_Role st, info_pairs st) \<and>
     peerRows runes (info_pairs st) =
       map (\<lambda>p. peer_row runes (ps_ID p) (dec (unat (ps_MatchIndex p))) (dec (unat (ps_LagEntries p)))) (rs_Peers st)"
proof
  have d: "distinct (map fst (info_pairs st))" by (rule pairs_distinct [OF assms(2)])
  have "\<forall>(k, v) \<in> set (info_pairs st). CHR '':'' \<notin> set k"
    using assms(3) by (auto simp: info_pairs_def head_pairs_def peer_pairs_def)
  then have "parse_info (info_lines st) [] = Some (info_pairs st)"
    using parse_pairs [of "[]" "info_pairs st"] d info_lines_pairs [OF assms(1)] by simp
  moreover have "map_of (info_pairs st) ''role'' = Some (rs_Role st)" by (simp add: info_pairs_def head_pairs_def)
  ultimately show "resolveInfoResp (F_Info (info_lines st)) = Inr (rs_Role st, info_pairs st)" by (simp add: resolveInfoResp_def)
  have "raw_get (info_pairs st) k = v" if "(k, v) \<in> set (peer_pairs p)" "p \<in> set (rs_Peers st)" for k v p
  proof -
    have "(k, v) \<in> set (info_pairs st)" using that by (auto simp: info_pairs_def)
    from map_of_is_SomeI [OF d this] show ?thesis by (simp add: raw_get_def)
  qed
  then show "peerRows runes (info_pairs st) =
       map (\<lambda>p. peer_row runes (ps_ID p) (dec (unat (ps_MatchIndex p))) (dec (unat (ps_LagEntries p)))) (rs_Peers st)"
    unfolding peerRows_def peer_keys sort_sorted [OF assms(4)] by (simp add: peer_pairs_def)
qed

definition two_peers :: ReplicationStatus where
  "two_peers = \<lparr>rs_Role = ''leader'', rs_LeaderID = ''n1'', rs_Term = 2, rs_CommitIndex = 9, rs_ApplyIndex = 9, rs_LastLogIndex = 10,
     rs_Peers = [\<lparr>ps_ID = ''n2'', ps_MatchIndex = 10, ps_LagEntries = 0\<rparr>, \<lparr>ps_ID = ''n3'', ps_MatchIndex = 7, ps_LagEntries = 3\<rparr>]\<rparr>"

theorem cluster_view_shows_peers_witness:
  "resolveInfoResp (F_Info (info_lines two_peers)) = Inr (''leader'', info_pairs two_peers) \<and>
   length (peerRows length (info_pairs two_peers)) = 2"
  using cluster_view_shows_peers [of two_peers length] by (simp add: two_peers_def)

end
