(* ===== verification/Ctl_Tool.thy ===== *)
theory Ctl_Tool
  imports Tui_View
begin

text \<open>
  The command-line tool (\<^verbatim>\<open>cmd/toymqctl\<close>): the choice of the subcommand and what each one asks of the
  connection, prints and returns.  Parsing of the flags is the flag package's: a subcommand starts from its parsed
  flags, \<open>None\<close> when they do not parse, and its positional arguments.  What the connection answers is an argument; a
  subcommand that waits for deliveries consumes a list of events and is \<open>None\<close> when it is still waiting at its end.
\<close>

section \<open>Data\<close>

datatype ctl_exit = ctl_OK | ctl_Err | ctl_Usage

datatype out_line =
    Out_OK u64 | Out_Dup u64 | Out_Created string int | Out_Pair string string | Out_Msg Delivery | Out_Usage

record pub_flags =
  pf_key :: string
  pf_routingKey :: string
  pf_partition :: int
  pf_delayMs :: u64
  pf_wait :: int
  pf_waitTimeoutMs :: u64

datatype pub_call = PubWait string string string string int u64 | PubDelay string string string string u64

section \<open>Publishing, creating, reporting\<close>

definition pub_request :: "pub_flags \<Rightarrow> string \<Rightarrow> string \<Rightarrow> pub_call" where
  "pub_request f topic0 pl =
     (let topic = (if pf_partition f \<ge> 0 then topic0 @ ''#'' @ dec (nat (pf_partition f)) else topic0)
      in if pf_wait f > 0 then PubWait topic (pf_key f) (pf_routingKey f) pl (pf_wait f) (pf_waitTimeoutMs f)
         else PubDelay topic (pf_key f) (pf_routingKey f) pl (pf_delayMs f))"

definition runPub ::
    "bool \<Rightarrow> (pub_call \<Rightarrow> client_err + u64 \<times> bool) \<Rightarrow> pub_flags option \<Rightarrow> string list \<Rightarrow> ctl_exit \<times> out_line list" where
  "runPub dial op flags args =
     (case (flags, args) of
        (Some f, [topic, pl]) \<Rightarrow>
          if \<not> dial then (ctl_Err, [])
          else (case op (pub_request f topic pl) of
                  Inl e \<Rightarrow> (ctl_Err, [])
                | Inr (i, dup) \<Rightarrow> (ctl_OK, [if dup then Out_Dup i else Out_OK i]))
      | _ \<Rightarrow> (ctl_Usage, []))"

definition runCreate :: "bool \<Rightarrow> (string \<Rightarrow> int \<Rightarrow> client_err option) \<Rightarrow> int option \<Rightarrow> string list \<Rightarrow> ctl_exit \<times> out_line list" where
  "runCreate dial op partitions args =
     (case (partitions, args) of
        (Some n, [topic]) \<Rightarrow>
          if n < 1 then (ctl_Usage, [])
          else if \<not> dial then (ctl_Err, [])
          else (case op topic n of Some e \<Rightarrow> (ctl_Err, []) | None \<Rightarrow> (ctl_OK, [Out_Created topic n]))
      | _ \<Rightarrow> (ctl_Usage, []))"

definition runInfo :: "bool \<Rightarrow> client_err + repl_info \<Rightarrow> unit option \<Rightarrow> string list \<Rightarrow> ctl_exit \<times> out_line list" where
  "runInfo dial info flags args =
     (case (flags, args) of
        (Some _, []) \<Rightarrow>
          if \<not> dial then (ctl_Err, [])
          else (case info of
                  Inl e \<Rightarrow> (ctl_Err, [])
                | Inr ri \<Rightarrow> (ctl_OK, map (\<lambda>k. Out_Pair k (raw_get (snd ri) k)) (sort_Strings (map fst (snd ri)))))
      | _ \<Rightarrow> (ctl_Usage, []))"

section \<open>Waiting for deliveries\<close>

text \<open>
  What a \<^verbatim>\<open>select\<close> sees next: the context, a delivery with the answer its acknowledgement would get, or the closed
  channel with whether the transport failed.  The acknowledgements sent are listed beside the output.
\<close>

datatype ack_ans = AA_OK | AA_Cancelled | AA_Err

datatype ctl_ev = EV_Done | EV_Msg Delivery ack_ans | EV_Closed bool

type_synonym wait_res = "(ctl_exit \<times> out_line list \<times> Delivery list) option"

definition prepend :: "out_line list \<Rightarrow> Delivery list \<Rightarrow> wait_res \<Rightarrow> wait_res" where
  "prepend os ds r = map_option (\<lambda>(x, os', ds'). (x, os @ os', ds @ ds')) r"

fun sub_loop :: "bool \<Rightarrow> int \<Rightarrow> nat \<Rightarrow> ctl_ev list \<Rightarrow> wait_res" where
  "sub_loop noAutoAck maxMsgs seen [] = None"
| "sub_loop noAutoAck maxMsgs seen (EV_Done # evs) = Some (ctl_OK, [], [])"
| "sub_loop noAutoAck maxMsgs seen (EV_Closed transport # evs) = Some (if transport then ctl_Err else ctl_OK, [], [])"
| "sub_loop noAutoAck maxMsgs seen (EV_Msg d ans # evs) =
     (let ds = (if noAutoAck then [] else [d]) in
      if \<not> noAutoAck \<and> ans = AA_Cancelled then Some (ctl_OK, [Out_Msg d], ds)
      else if \<not> noAutoAck \<and> ans = AA_Err then Some (ctl_Err, [Out_Msg d], ds)
      else if maxMsgs > 0 \<and> int (seen + 1) \<ge> maxMsgs then Some (ctl_OK, [Out_Msg d], ds)
      else prepend [Out_Msg d] ds (sub_loop noAutoAck maxMsgs (seen + 1) evs))"

record sub_flags =
  sf_noAutoAck :: bool
  sf_maxMsgs :: int
  sf_stale :: bool

definition runSub ::
    "bool \<Rightarrow> (bool \<Rightarrow> string \<Rightarrow> string \<Rightarrow> client_err option) \<Rightarrow> ctl_ev list \<Rightarrow> sub_flags option \<Rightarrow> string list \<Rightarrow> wait_res" where
  "runSub dial op evs flags args =
     (case (flags, args) of
        (Some f, [topic, cid]) \<Rightarrow>
          if \<not> dial then Some (ctl_Err, [], [])
          else (case op (sf_stale f) topic cid of
                  Some e \<Rightarrow> Some (ctl_Err, [], [])
                | None \<Rightarrow> sub_loop (sf_noAutoAck f) (sf_maxMsgs f) 0 evs)
      | _ \<Rightarrow> Some (ctl_Usage, [], []))"

text \<open>The wait for the target ends with an error when its time is up.\<close>

fun ack_loop :: "u64 \<Rightarrow> ctl_ev list \<Rightarrow> wait_res" where
  "ack_loop target [] = None"
| "ack_loop target (EV_Done # evs) = Some (ctl_Err, [], [])"
| "ack_loop target (EV_Closed transport # evs) = Some (ctl_Err, [], [])"
| "ack_loop target (EV_Msg d ans # evs) =
     (if d_MsgID d \<noteq> target then ack_loop target evs
      else if ans \<noteq> AA_OK then Some (ctl_Err, [], [d])
      else Some (ctl_OK, [Out_OK target], [d]))"

definition runAck ::
    "bool \<Rightarrow> (string \<Rightarrow> string \<Rightarrow> client_err option) \<Rightarrow> ctl_ev list \<Rightarrow> unit option \<Rightarrow> string list \<Rightarrow> wait_res" where
  "runAck dial op evs flags args =
     (case (flags, args) of
        (Some _, [topic, cid, i]) \<Rightarrow>
          (case ParseUint i of
             None \<Rightarrow> Some (ctl_Usage, [], [])
           | Some target \<Rightarrow>
               if \<not> dial then Some (ctl_Err, [], [])
               else (case op topic cid of
                       Some e \<Rightarrow> Some (ctl_Err, [], [])
                     | None \<Rightarrow> ack_loop target evs))
      | _ \<Rightarrow> Some (ctl_Usage, [], []))"

section \<open>Dispatch\<close>

datatype verb = V_Create | V_Pub | V_Sub | V_Ack | V_Info

definition ctl_dispatch :: "string list \<Rightarrow> (ctl_exit \<times> out_line list) + verb \<times> string list" where
  "ctl_dispatch args =
     (case args of
        [] \<Rightarrow> Inl (ctl_Usage, [])
      | v # rest \<Rightarrow>
          if v = ''create'' then Inr (V_Create, rest)
          else if v = ''pub'' then Inr (V_Pub, rest)
          else if v = ''sub'' then Inr (V_Sub, rest)
          else if v = ''ack'' then Inr (V_Ack, rest)
          else if v = ''info'' then Inr (V_Info, rest)
          else if v = ''-h'' \<or> v = ''--help'' \<or> v = ''help'' then Inl (ctl_OK, [Out_Usage])
          else Inl (ctl_Usage, []))"

section \<open>What they do\<close>

fun msgs :: "ctl_ev list \<Rightarrow> Delivery list" where
  "msgs [] = []"
| "msgs (EV_Msg d ans # evs) = d # msgs evs"
| "msgs (_ # evs) = msgs evs"

text \<open>The subscriber prints what is delivered, in order, and acknowledges exactly what it has printed; with a limit it
  prints no more than that many.\<close>

lemma sub_loop_spec:
  assumes "sub_loop na mx seen evs = Some (x, os, ds)" "mx \<le> 0 \<or> int seen < mx"
  shows "\<exists>n. os = map Out_Msg (take n (msgs evs)) \<and> ds = (if na then [] else take n (msgs evs)) \<and> n \<le> length (msgs evs) \<and>
     (mx > 0 \<longrightarrow> int (seen + n) \<le> mx)"
  using assms
proof (induction na mx seen evs arbitrary: os ds rule: sub_loop.induct)
  case (4 na mx seen d ans evs)
  show ?case
  proof (cases "\<not> na \<and> ans \<noteq> AA_OK \<or> mx > 0 \<and> int (seen + 1) \<ge> mx")
    case True
    then have "os = [Out_Msg d]" "ds = (if na then [] else [d])"
      using 4 by (cases ans; auto simp: Let_def split: if_splits)+
    moreover have "mx > 0 \<longrightarrow> int (seen + 1) \<le> mx" using 4(3) by auto
    ultimately show ?thesis by (intro exI [of _ 1]) auto
  next
    case False
    then have st: "\<not> (\<not> na \<and> ans = AA_Cancelled)" "\<not> (\<not> na \<and> ans = AA_Err)" "\<not> (mx > 0 \<and> int (seen + 1) \<ge> mx)" by auto
    obtain os' ds' where r: "sub_loop na mx (seen + 1) evs = Some (x, os', ds')"
      "os = Out_Msg d # os'" "ds = (if na then [] else [d]) @ ds'"
      using 4(2) st by (auto simp: prepend_def Let_def)
    have "mx \<le> 0 \<or> int (seen + 1) < mx" using st(3) by linarith
    from 4(1) [OF refl st r(1) this] obtain n where
      "os' = map Out_Msg (take n (msgs evs))" "ds' = (if na then [] else take n (msgs evs))" "n \<le> length (msgs evs)"
      "mx > 0 \<longrightarrow> int (seen + 1 + n) \<le> mx" by blast
    then show ?thesis using r by (intro exI [of _ "Suc n"]) auto
  qed
qed (auto intro: exI [of _ 0])

text \<open>An acknowledgement is for the first delivery with the wanted ID, and for nothing else.\<close>

lemma ack_loop_spec:
  assumes "ack_loop target evs = Some (x, os, ds)"
  shows "(x = ctl_OK \<longrightarrow> os = [Out_OK target] \<and> ds \<noteq> []) \<and>
     (ds = [] \<or> (\<exists>d. ds = [d] \<and> List.find (\<lambda>e. d_MsgID e = target) (msgs evs) = Some d))"
  using assms by (induction target evs rule: ack_loop.induct) (auto split: if_splits)

text \<open>Message IDs are counted per partition: on a topic with several, the partition that delivers the ID first is acknowledged.\<close>

lemma ack_any_partition:
  assumes "d_MsgID d = target" "\<forall>e \<in> set pre. \<exists>m. e = EV_Msg m AA_OK \<and> d_MsgID m \<noteq> target"
  shows "ack_loop target (pre @ EV_Msg d AA_OK # evs) = Some (ctl_OK, [Out_OK target], [d])"
  using assms(2) by (induction pre) (use assms(1) in auto)

text \<open>A pinned partition reaches the broker: its parser reads back the topic and the number.\<close>

lemma pinned_partition:
  assumes "topic_ok topic (Sel_Part n)" "pf_partition f = int n"
  shows "case pub_request f topic pl of
       PubWait t _ _ _ _ _ \<Rightarrow> parseTopicPartition t = Inr (topic, int n, False, True)
     | PubDelay t _ _ _ _ \<Rightarrow> parseTopicPartition t = Inr (topic, int n, False, True)"
  using parseTopicPartition_token [OF assms(1)] assms(2)
  by (simp add: pub_request_def topic_token_def sel_part_def sel_named_def Let_def)

end
