(* ===== verification/Spec2Isabelle.thy ===== *)
theory Spec2Isabelle
  imports Delivery Cluster_Client Shutdown Client_Ops Main_Run Bench_Report Ctl_Tool
begin

text \<open>
  \<^bold>\<open>toymq: a verification of the broker, its log, its protocol, its client and its tools\<close>

  toymq is a message broker in Go.  A topic has partitions; a partition owns a segmented write-ahead log, a
  dedupe index and its consumers.  Clients speak a line protocol over TCP; a session turns command lines into
  calls of the broker.  With replication on, every mutation is an envelope in a raft log, which each node
  applies to its own broker.  All sources are under \<^verbatim>\<open>src/\<close>.

  \<^bold>\<open>Theories and sources\<close>

  \<^item> \<^verbatim>\<open>Prelude\<close>: byte streams, big-endian fields, association lists standing for Go maps, the
    collections of simplification rules.
  \<^item> \<^verbatim>\<open>Wal_Record\<close>, \<^verbatim>\<open>Wal_Log\<close>, \<^verbatim>\<open>Wal_Invariant\<close>, \<^verbatim>\<open>Wal_Recovery\<close>, \<^verbatim>\<open>Wal_Durability\<close>,
    \<^verbatim>\<open>Wal_Reader\<close>: \<^verbatim>\<open>internal/wal\<close>.  The log is a record over a disk that maps a segment number to bytes,
    beside the part of each file that is synced.  \<^verbatim>\<open>Append\<close>, \<^verbatim>\<open>rotate\<close> and the three atomic parts of
    \<^verbatim>\<open>flush\<close> are the steps of a relation; a crash keeps the synced bytes and any prefix of the rest.
  \<^item> \<^verbatim>\<open>Dedupe_Index\<close>, \<^verbatim>\<open>Consumer_State\<close>, \<^verbatim>\<open>Retention_Policy\<close>, \<^verbatim>\<open>Partition_Model\<close>,
    \<^verbatim>\<open>Partition_Safety\<close>, \<^verbatim>\<open>Delivery\<close>: \<^verbatim>\<open>dedupe.go\<close>, \<^verbatim>\<open>consumer.go\<close>, \<^verbatim>\<open>redelivery.go\<close>,
    \<^verbatim>\<open>retention.go\<close>, \<^verbatim>\<open>partition.go\<close> and \<^verbatim>\<open>offsets.go\<close> of \<^verbatim>\<open>internal/broker\<close>.
  \<^item> \<^verbatim>\<open>Topic_Routing\<close>, \<^verbatim>\<open>Broker_Model\<close>, \<^verbatim>\<open>Broker_Safety\<close>: \<^verbatim>\<open>topic.go\<close>, \<^verbatim>\<open>meta.go\<close>,
    \<^verbatim>\<open>dlq.go\<close> and \<^verbatim>\<open>broker.go\<close>.  The broker is a record of its configuration, data directory, open topics
    and applied index.
  \<^item> \<^verbatim>\<open>Envelope\<close>, \<^verbatim>\<open>State_Machine\<close>: \<^verbatim>\<open>internal/replication\<close>.  The surface that \<^verbatim>\<open>Apply\<close> drives is a
    locale, interpreted on the broker.
  \<^item> \<^verbatim>\<open>Proto_Text\<close>, \<^verbatim>\<open>Proto_Parser\<close>, \<^verbatim>\<open>Proto_Response\<close>: \<^verbatim>\<open>internal/proto\<close> and the parts of
    \<^verbatim>\<open>strings\<close>, \<^verbatim>\<open>strconv\<close> and \<^verbatim>\<open>bufio\<close> it uses.
  \<^item> \<^verbatim>\<open>Session\<close>: \<^verbatim>\<open>internal/server/session.go\<close> and \<^verbatim>\<open>auth.go\<close>, one definition per handler, the reader as a
    function of the input, the writer as a step relation.
  \<^item> \<^verbatim>\<open>Server_Listener\<close>: \<^verbatim>\<open>internal/server/server.go\<close>.  \<^verbatim>\<open>Serve\<close>, its watcher, the session goroutines and
    \<^verbatim>\<open>Shutdown\<close> are step relations on one record: the wait group, the \<^verbatim>\<open>Once\<close>, the listener, the sessions.
  \<^item> \<^verbatim>\<open>Client_Frame\<close>, \<^verbatim>\<open>Client_Conn\<close>, \<^verbatim>\<open>Cluster_Client\<close>, \<^verbatim>\<open>Client_Dial\<close>, \<^verbatim>\<open>Client_Ops\<close>:
    \<^verbatim>\<open>pkg/client\<close>.
  \<^item> \<^verbatim>\<open>Config_Validate\<close>: \<^verbatim>\<open>internal/config\<close> and the broker configuration built in \<^verbatim>\<open>cmd/toymq\<close>.
  \<^item> \<^verbatim>\<open>Shutdown\<close>: \<^verbatim>\<open>Close\<close> of the log and of the broker, with the persist loop's last flush.  The loop over the
    partitions is an instance of the locale \<^verbatim>\<open>partwise\<close>, interpreted on the flush and on the closing.
  \<^item> \<^verbatim>\<open>Async_Transport\<close>: \<^verbatim>\<open>internal/replication/transport.go\<close>; \<^verbatim>\<open>Main_Run\<close>: \<^verbatim>\<open>cmd/toymq/main.go\<close>, whose \<^verbatim>\<open>run\<close> is
    the list of actions it takes, the deferred ones last.
  \<^item> \<^verbatim>\<open>Tui_Model\<close>, \<^verbatim>\<open>Tui_View\<close>: \<^verbatim>\<open>cmd/toymq-tui\<close>; \<^verbatim>\<open>Ctl_Tool\<close>: \<^verbatim>\<open>cmd/toymqctl\<close>; \<^verbatim>\<open>Bench_Report\<close>:
    \<^verbatim>\<open>cmd/toymq-bench\<close>.

  \<^bold>\<open>How the code is represented\<close>

  Unsigned 64-bit numbers are words and wrap.  Go's \<^verbatim>\<open>int\<close> is an unbounded integer where no overflow is in
  reach.  Strings are lists of bytes.  The outcome of every file operation, the clock, the random fraction of a
  delay, error texts, \<^verbatim>\<open>url.Parse\<close> and \<^verbatim>\<open>net.ParseIP\<close> are arguments.  The raft node is the argument
  \<^verbatim>\<open>propose\<close>; what a property needs of it is the hypothesis \<^term>\<open>commits_at\<close>, which a concrete node satisfies.
  A critical section is one step; goroutines interleave between them.  The text inputs of the terminal client are a
  record of operations; a command it has started may return at any time.  A call of the inner raft transport may
  never return.

  \<^bold>\<open>What is shown\<close>

  \<^item> Log: the record codec round-trips and detects every corrupted byte; the log refines an append-only list with a
    commit mark; readers see synced bytes only and each record once, in order; after a crash in any reachable state
    every committed record is recovered, so is every record whose append returned in a mode that syncs; a flush
    releases its waiters.  The reachable states include failed syncs and failed opens but not a write that fails
    half-way, which the code does not survive.
  \<^item> Partition: a publish is a true duplicate or one new record; the dedupe answer and the resume position survive
    crashes; delivery is in order and respects delays; acks, nacks, expiry and retention do what their policies say.
  \<^item> Broker and replication: partition counts are durable, a replayed entry is applied once, a replicated publish has
    the effect of a local one, replicas with dead-lettering off that apply the same entries keep equal logs and
    dedupe indexes, dead-lettering keeps the payload and never cascades, the WAIT barrier reports only replicated
    writes.
  \<^item> Protocol, session and client: requests and responses round-trip between the two sides; every accepted publish can
    be replicated; a session without a valid token reaches nothing; each command has its one response; the reader ends
    and the writer keeps order; responses reach requests in order and nobody waits for ever; an acknowledgement returns
    success exactly when the broker took it; the cluster client finds
    a serving member.  Three theorems pin down faults: \<^verbatim>\<open>duplicate_publish_misattributed\<close>,
    \<^verbatim>\<open>rejected_request_keeps_body\<close> and \<^verbatim>\<open>sub_ok_after_msg\<close>.
  \<^item> Configuration: what \<^verbatim>\<open>validate\<close> accepts satisfies what the broker relies on.
  \<^item> Life of the process: a clean stop loses no record and no acknowledgement; a drained server stays quiet, a closed
    listener brings it down, and \<^verbatim>\<open>early_shutdown_never_stops\<close> pins down the case where it does not; a dial succeeds
    exactly when the server accepts the token; raft peers do not disturb each other; whatever fails, the broker is
    closed after the raft node and before the tracer.
  \<^item> Tools: the terminal client keeps one reader and one timer and shows the peers the broker reported; the
    benchmark accounts for every message; the command-line tool acknowledges one message and no other.

  \<^bold>\<open>Bounds\<close>

  No definition uses fuel.  Loops that are not structural (field splitting, the recovery scan, the session's reader,
  the redirect loop) have termination proofs by the length of their input or the number of attempts left.

  \<^bold>\<open>Not modelled\<close>

  Sockets and the TLS protocol (pure I/O); metrics, tracing and log decoration (no decision reads them); the raft
  package with its HTTP transport, the terminal framework and its inputs (not among the sources); flag parsing; the
  JSON text of \<^verbatim>\<open>meta.json\<close> and \<^verbatim>\<open>offsets.json\<close> (the files are the values they stand for); the printed layout and
  the float rounding of the benchmark report; the test harnesses.  Data races on fields written after start-up are
  outside a model whose critical sections are atomic.
\<close>

end
